(* ===== verification/Prelude.thy ===== *)
theory Prelude
  imports Main "HOL-Library.Word" "HOL-Library.Finite_Map" "HOL-Library.Multiset"
    "HOL-Library.Code_Target_Nat"
begin

text \<open>
  Shared vocabulary of the development: the machine types of the Go source, little-endian
  byte layouts, Go strings as byte sequences, the XOR sum over a finite map, and the lemma
  collections the component theories extend.
\<close>

unbundle bit_operations_syntax

section \<open>Machine types\<close>

type_synonym byte = "8 word"
type_synonym u16 = "16 word"
type_synonym u32 = "32 word"
type_synonym u64 = "64 word"

text \<open>
  A Go \<open>int64\<close> (and \<open>int\<close>, 64 bits wide on the supported platforms) is an \<^typ>\<open>int\<close> kept
  in range by \<open>wrap64\<close> wherever the code does arithmetic that can leave the range.
\<close>

definition wrap64 :: "int \<Rightarrow> int" where
  "wrap64 x = sint (word_of_int x :: u64)"

definition int64_range :: "int \<Rightarrow> bool" where
  "int64_range x \<longleftrightarrow> - (2 ^ 63) \<le> x \<and> x < 2 ^ 63"

named_theorems wire_simps \<open>evaluation of the byte layouts\<close>
named_theorems set_ops \<open>definitions of the operations on a set\<close>
named_theorems go_simps \<open>evaluation of the Go library functions\<close>

lemma wrap64_id [simp]: "int64_range x \<Longrightarrow> wrap64 x = x"
  unfolding wrap64_def int64_range_def
  by (simp add: sint_sbintrunc' signed_take_bit_int_eq_self)

lemma wrap64_range [simp]: "int64_range (wrap64 x)"
  unfolding wrap64_def int64_range_def
  using sint_greater_eq [of "word_of_int x :: u64"] sint_less [of "word_of_int x :: u64"] by simp

lemma sint64_range [simp]: "int64_range (sint (w :: u64))"
  unfolding int64_range_def using sint_greater_eq [of w] sint_less [of w] by simp

section \<open>Go strings as byte sequences\<close>

text \<open>A Go string is a sequence of bytes; \<open>string\<close> is a list of 8-bit characters.\<close>

definition byte_of_char :: "char \<Rightarrow> byte" where
  "byte_of_char c = word_of_nat (of_char c)"

definition char_of_byte :: "byte \<Rightarrow> char" where
  "char_of_byte b = char_of (unat b)"

definition bytes_of_string :: "string \<Rightarrow> byte list" where
  "bytes_of_string s = map byte_of_char s"

definition string_of_bytes :: "byte list \<Rightarrow> string" where
  "string_of_bytes bs = map char_of_byte bs"

lemma char_of_byte_of_char [simp]: "char_of_byte (byte_of_char c) = c"
proof -
  have "of_char c < (256 :: nat)" by (fact nat_of_char_less_256)
  then have "unat (word_of_nat (of_char c) :: byte) = of_char c"
    by (simp add: unat_of_nat)
  then show ?thesis by (simp add: char_of_byte_def byte_of_char_def)
qed

lemma byte_of_char_of_byte [simp]: "byte_of_char (char_of_byte b) = b"
proof -
  have "unat b < 256" using unsigned_less [of b, where ?'a = nat] by simp
  then have "of_char (char_of (unat b) :: char) = unat b" by (simp add: of_char_of)
  then show ?thesis by (simp add: char_of_byte_def byte_of_char_def)
qed

lemma string_of_bytes_of_string [simp]: "string_of_bytes (bytes_of_string s) = s"
  by (simp add: string_of_bytes_def bytes_of_string_def comp_def)

lemma bytes_of_string_of_bytes [simp]: "bytes_of_string (string_of_bytes bs) = bs"
  by (simp add: string_of_bytes_def bytes_of_string_def comp_def)

lemma length_bytes_of_string [simp]: "length (bytes_of_string s) = length s"
  by (simp add: bytes_of_string_def)

lemma length_string_of_bytes [simp]: "length (string_of_bytes bs) = length bs"
  by (simp add: string_of_bytes_def)

lemma bytes_of_string_inject [simp]: "bytes_of_string s = bytes_of_string t \<longleftrightarrow> s = t"
  by (metis string_of_bytes_of_string)

section \<open>Little-endian layouts\<close>

text \<open>
  \<open>le_bytes n w\<close> is what \<open>binary.LittleEndian.AppendUint{16,32,64}\<close> append for \<open>n = 2, 4, 8\<close>;
  \<open>le_word n bs\<close> is what \<open>binary.LittleEndian.Uint{16,32,64}\<close> read from the first \<open>n\<close> bytes.
\<close>

fun le_bytes :: "nat \<Rightarrow> 'a::len word \<Rightarrow> byte list" where
  "le_bytes 0 w = []"
| "le_bytes (Suc n) w = ucast w # le_bytes n (drop_bit 8 w)"

fun le_word :: "nat \<Rightarrow> byte list \<Rightarrow> 'a::len word" where
  "le_word 0 bs = 0"
| "le_word (Suc n) bs = (case bs of [] \<Rightarrow> 0 | b # bs \<Rightarrow> ucast b OR push_bit 8 (le_word n bs))"

lemma length_le_bytes [simp]: "length (le_bytes n w) = n"
  by (induction n w rule: le_bytes.induct) simp_all

lemma le_word_numeral [wire_simps]:
  "le_word (numeral n) (b # bs) = ucast b OR push_bit 8 (le_word (pred_numeral n) bs)"
  "le_word (numeral n) [] = 0"
  by (simp_all add: numeral_eq_Suc)

lemma le_bytes_numeral [wire_simps]:
  "le_bytes (numeral n) w = ucast w # le_bytes (pred_numeral n) (drop_bit 8 w)"
  by (simp add: numeral_eq_Suc)

lemma take_bit_split8:
  "take_bit (8 + m) (w :: 'a::len word) = take_bit 8 w OR push_bit 8 (take_bit m (drop_bit 8 w))"
  by (rule bit_word_eqI) (auto simp: bit_simps)

lemma ucast_byte_take_bit:
  fixes w :: "'a::len word"
  assumes "8 \<le> LENGTH('a)"
  shows "(ucast (ucast w :: byte) :: 'a word) = take_bit 8 w"
  by (rule bit_word_eqI) (use assms in \<open>auto simp: bit_simps\<close>)

lemma le_word_le_bytes_append:
  fixes w :: "'a::len word"
  assumes "8 \<le> LENGTH('a)"
  shows "le_word n (le_bytes n w @ rest) = take_bit (8 * n) w"
proof (induction n w rule: le_bytes.induct)
  case (1 w)
  then show ?case by simp
next
  case (2 n w)
  have "take_bit (8 * Suc n) w = take_bit (8 + 8 * n) w" by simp
  also have "\<dots> = take_bit 8 w OR push_bit 8 (take_bit (8 * n) (drop_bit 8 w))"
    by (rule take_bit_split8)
  finally show ?case by (simp add: 2 ucast_byte_take_bit [OF assms])
qed

lemma le_word_u64 [simp]: "le_word 8 (le_bytes 8 (w :: u64) @ rest) = w"
  using take_bit_length_eq [of w] by (simp add: le_word_le_bytes_append)

lemma le_word_u32 [simp]: "le_word 4 (le_bytes 4 (w :: u32) @ rest) = w"
  using take_bit_length_eq [of w] by (simp add: le_word_le_bytes_append)

lemma le_word_u16 [simp]: "le_word 2 (le_bytes 2 (w :: u16) @ rest) = w"
  using take_bit_length_eq [of w] by (simp add: le_word_le_bytes_append)

section \<open>The XOR sum over a finite map\<close>

text \<open>XOR and zero form a commutative monoid, so the library's big operators apply.\<close>

interpretation xor_sum: comm_monoid_set "(XOR) :: u64 \<Rightarrow> u64 \<Rightarrow> u64" 0
  by standard (simp_all add: ac_simps)

definition xor_over :: "('v \<Rightarrow> u64) \<Rightarrow> ('k, 'v) fmap \<Rightarrow> u64" where
  "xor_over f m = xor_sum.F (\<lambda>k. f (the (fmlookup m k))) (fset (fmdom m))"

lemma xor_self_left [simp]: "(a :: u64) XOR (a XOR b) = b"
  by (simp add: xor.assoc [symmetric])

lemma xor_over_empty [simp]: "xor_over f fmempty = 0"
  by (simp add: xor_over_def)

lemma xor_over_insert:
  assumes "fmlookup m k = None"
  shows "xor_over f (fmupd k v m) = xor_over f m XOR f v"
proof -
  have k: "k \<notin> fset (fmdom m)" using assms by (simp add: fmdom_notI)
  have "xor_sum.F (\<lambda>x. f (the (fmlookup (fmupd k v m) x))) (fset (fmdom m))
      = xor_sum.F (\<lambda>x. f (the (fmlookup m x))) (fset (fmdom m))"
    by (rule xor_sum.cong) (use k in auto)
  then show ?thesis using k by (simp add: xor_over_def ac_simps)
qed

lemma xor_over_drop:
  assumes "fmlookup m k = Some v"
  shows "xor_over f (fmdrop k m) = xor_over f m XOR f v"
proof -
  have m: "m = fmupd k v (fmdrop k m)"
    by (rule fmap_ext) (use assms in auto)
  have "xor_over f m = xor_over f (fmdrop k m) XOR f v"
    by (subst m, rule xor_over_insert) simp
  then show ?thesis by (simp add: ac_simps)
qed

lemma xor_over_replace:
  assumes "fmlookup m k = Some v" and "f v' = f v"
  shows "xor_over f (fmupd k v' m) = xor_over f m"
proof -
  have "fmupd k v' m = fmupd k v' (fmdrop k m)" by (rule fmap_ext) auto
  then have "xor_over f (fmupd k v' m) = xor_over f (fmdrop k m) XOR f v'"
    by (simp add: xor_over_insert)
  then show ?thesis using assms by (simp add: xor_over_drop ac_simps)
qed

section \<open>Size of a finite map\<close>

abbreviation map_len :: "('k, 'v) fmap \<Rightarrow> int" where
  "map_len m \<equiv> int (fcard (fmdom m))"

lemma fcard_fmupd:
  "fcard (fmdom (fmupd k v m)) = (if fmlookup m k = None then Suc (fcard (fmdom m)) else fcard (fmdom m))"
  by (auto simp: fcard_finsert_if fmdom_notI fmdomI fmlookup_dom_iff)

lemma fcard_fmdrop:
  "fcard (fmdom (fmdrop k m)) = (if fmlookup m k = None then fcard (fmdom m) else fcard (fmdom m) - 1)"
  by (auto simp: fcard_fminus_fsingleton_if fmdom_notI fmdomI fmlookup_dom_iff)

lemma fcard_pos: "fmlookup m k = Some v \<Longrightarrow> 0 < fcard (fmdom m)"
  by (metis fcard_0_eq fempty_iff fmdomI gr0I)

lemma map_len_fmdrop:
  "fmlookup m k = Some v \<Longrightarrow> map_len (fmdrop k m) = map_len m - 1"
  using fcard_pos [of m k v] by (simp add: fcard_fmdrop del: fmdom_drop)

lemma fmdom_empty_iff [simp]: "fmdom m = {||} \<longleftrightarrow> m = fmempty"
  by (metis fmdom_empty fmrestrict_fset_dom fmrestrict_fset_null)


lemma fmmap_upd [simp]: "fmmap f (fmupd k v m) = fmupd k (f v) (fmmap f m)"
  by (rule fmap_ext) simp

section \<open>Invariants of step relations\<close>

text \<open>
  What is kept by every step holds in every state that is reached. A further property may use
  an invariant that is already known.
\<close>

locale step_invariant =
  fixes step :: "'a \<Rightarrow> 'a \<Rightarrow> bool" and I :: "'a \<Rightarrow> bool"
  assumes step_keeps: "I y \<Longrightarrow> step y y' \<Longrightarrow> I y'"
begin

lemma reach_keeps: "step\<^sup>*\<^sup>* y y' \<Longrightarrow> I y \<Longrightarrow> I y'"
  by (induction rule: rtranclp_induct) (auto intro: step_keeps)

end

locale step_invariant_under = step_invariant +
  fixes J :: "'a \<Rightarrow> bool"
  assumes step_keeps_under: "I y \<Longrightarrow> J y \<Longrightarrow> step y y' \<Longrightarrow> J y'"
begin

lemma reach_keeps_under: "step\<^sup>*\<^sup>* y y' \<Longrightarrow> I y \<Longrightarrow> J y \<Longrightarrow> J y'"
proof (induction rule: rtranclp_induct)
  case (step y z)
  then show ?case using reach_keeps [OF step(1)] step_keeps_under [OF _ _ step(2)] by blast
qed

end

sublocale step_invariant_under \<subseteq> both: step_invariant step "\<lambda>y. I y \<and> J y"
  using step_keeps step_keeps_under by unfold_locales blast

end
