(* ===== verification/GoText.thy ===== *)
theory GoText
  imports Prelude
begin

text \<open>
  The parts of Go's \<open>strings\<close>, \<open>strconv\<close>, \<open>encoding/hex\<close> and \<open>fmt\<close> the keeper calls, on byte
  strings: trimming, cutting and splitting, decimal and hexadecimal integers. Parsers return
  \<open>None\<close> for an error of either kind (syntax or range); the callers do not tell them apart.
  The lemmas are the round trips between the printers and the parsers.
\<close>

section \<open>strings\<close>

text \<open>
  The UTF-8 encodings of the characters \<open>unicode.IsSpace\<close> accepts. \<open>strings.TrimSpace\<close> removes
  them from the left, then from the right.
\<close>

definition space_encodings :: "string list" where
  "space_encodings = map (map char_of)
     ([[9], [10], [11], [12], [13], [32], [0xC2, 0x85], [0xC2, 0xA0], [0xE1, 0x9A, 0x80],
       [0xE2, 0x80, 0xA8], [0xE2, 0x80, 0xA9], [0xE2, 0x80, 0xAF], [0xE2, 0x81, 0x9F],
       [0xE3, 0x80, 0x80]] @ map (\<lambda>b. [0xE2, 0x80, b]) [0x80 ..< 0x8B] :: nat list list)"

definition is_prefix_of :: "string \<Rightarrow> string \<Rightarrow> bool" where
  "is_prefix_of p s \<longleftrightarrow> take (length p) s = p"

function trim_left :: "string list \<Rightarrow> string \<Rightarrow> string" where
  "trim_left encs s =
     (case find (\<lambda>e. e \<noteq> [] \<and> is_prefix_of e s) encs of
        None \<Rightarrow> s
      | Some e \<Rightarrow> trim_left encs (drop (length e) s))"
  by pat_completeness auto
termination
proof (relation "measure (\<lambda>(encs, s). length s)")
  fix encs s e
  assume "find (\<lambda>e. e \<noteq> [] \<and> is_prefix_of e s) encs = Some e"
  then have "e \<noteq> []" "take (length e) s = e" by (auto simp: find_Some_iff is_prefix_of_def)
  then have "0 < length e" "s \<noteq> []" by auto
  then show "((encs, drop (length e) s), encs, s) \<in> measure (\<lambda>(encs, s). length s)" by simp
qed simp

declare trim_left.simps [simp del]

definition TrimSpace :: "string \<Rightarrow> string" where
  "TrimSpace s = rev (trim_left (map rev space_encodings) (rev (trim_left space_encodings s)))"

definition ToLower_ascii :: "string \<Rightarrow> string" where
  "ToLower_ascii s = map (\<lambda>c. let n = of_char c :: nat in if 65 \<le> n \<and> n \<le> 90 then char_of (n + 32) else c) s"

text \<open>\<open>strings.Cut\<close> around the first separator byte; without one, everything is before it.\<close>

fun Cut :: "char \<Rightarrow> string \<Rightarrow> string \<times> string" where
  "Cut sep [] = ([], [])"
| "Cut sep (c # cs) = (if c = sep then ([], cs) else let (a, b) = Cut sep cs in (c # a, b))"

fun Split :: "char \<Rightarrow> string \<Rightarrow> string list" where
  "Split sep [] = [[]]"
| "Split sep (c # cs) =
     (if c = sep then [] # Split sep cs
      else case Split sep cs of [] \<Rightarrow> [[c]] | p # ps \<Rightarrow> (c # p) # ps)"

text \<open>The order \<open><\<close> of Go strings: bytewise, a proper prefix first.\<close>

fun string_less :: "string \<Rightarrow> string \<Rightarrow> bool" where
  "string_less _ [] = False"
| "string_less [] (_ # _) = True"
| "string_less (x # xs) (y # ys) =
     (of_char x < (of_char y :: nat) \<or> x = y \<and> string_less xs ys)"

section \<open>strconv\<close>

definition digit_char :: "nat \<Rightarrow> char" where
  "digit_char d = ''0123456789abcdef'' ! d"

definition digit_of :: "char \<Rightarrow> nat option" where
  "digit_of c =
     (let n = of_char c
      in if 48 \<le> n \<and> n \<le> 57 then Some (n - 48)
         else if 97 \<le> n \<and> n \<le> 122 then Some (n - 97 + 10)
         else if 65 \<le> n \<and> n \<le> 90 then Some (n - 65 + 10)
         else None)"

fun digits_val :: "nat \<Rightarrow> nat \<Rightarrow> string \<Rightarrow> nat option" where
  "digits_val base acc [] = Some acc"
| "digits_val base acc (c # cs) =
     (case digit_of c of
        None \<Rightarrow> None
      | Some d \<Rightarrow> if d < base then digits_val base (acc * base + d) cs else None)"

definition ParseUint :: "nat \<Rightarrow> string \<Rightarrow> nat option" where
  "ParseUint base s =
     (if s = [] then None
      else case digits_val base 0 s of
        None \<Rightarrow> None
      | Some n \<Rightarrow> if n < 2 ^ 64 then Some n else None)"

definition ParseInt10 :: "string \<Rightarrow> int option" where
  "ParseInt10 s =
     (case s of
        [] \<Rightarrow> None
      | c # cs \<Rightarrow>
         (let neg = (c = CHR ''-'');
              body = (if c = CHR ''+'' \<or> neg then cs else s)
          in case ParseUint 10 body of
               None \<Rightarrow> None
             | Some un \<Rightarrow>
                 if \<not> neg \<and> un \<ge> 2 ^ 63 then None
                 else if neg \<and> un > 2 ^ 63 then None
                 else Some (if neg then - int un else int un)))"

abbreviation Atoi :: "string \<Rightarrow> int option" where
  "Atoi \<equiv> ParseInt10"

function nat_digits :: "nat \<Rightarrow> nat \<Rightarrow> string" where
  "nat_digits base n =
     (if base < 2 \<or> n < base then [digit_char n]
      else nat_digits base (n div base) @ [digit_char (n mod base)])"
  by pat_completeness auto
termination
  by (relation "measure snd") auto

declare nat_digits.simps [simp del]

definition FormatUint :: "u64 \<Rightarrow> string" where
  "FormatUint w = nat_digits 10 (unat w)"

definition FormatInt :: "int \<Rightarrow> string" where
  "FormatInt n = (if n < 0 then CHR ''-'' # nat_digits 10 (nat (- n)) else nat_digits 10 (nat n))"

abbreviation Itoa :: "int \<Rightarrow> string" where
  "Itoa \<equiv> FormatInt"

section \<open>fmt and encoding/hex\<close>

text \<open>\<open>fmt.Sprintf("%016x", v)\<close>.\<close>

definition Hex :: "u64 \<Rightarrow> string" where
  "Hex v = (let ds = nat_digits 16 (unat v) in replicate (16 - length ds) (CHR ''0'') @ ds)"

fun hex_encode :: "byte list \<Rightarrow> string" where
  "hex_encode [] = []"
| "hex_encode (b # bs) = digit_char (unat b div 16) # digit_char (unat b mod 16) # hex_encode bs"

fun hex_decode :: "string \<Rightarrow> byte list option" where
  "hex_decode [] = Some []"
| "hex_decode [c] = None"
| "hex_decode (c # d # cs) =
     (case (digit_of c, digit_of d) of
        (Some x, Some y) \<Rightarrow>
          if x < 16 \<and> y < 16 then map_option (Cons (word_of_nat (16 * x + y))) (hex_decode cs) else None
      | _ \<Rightarrow> None)"

section \<open>Trimming\<close>

lemma trim_left_none: "find (\<lambda>e. e \<noteq> [] \<and> is_prefix_of e s) encs = None \<Longrightarrow> trim_left encs s = s"
  by (subst trim_left.simps) simp

lemma trim_left_result: "find (\<lambda>e. e \<noteq> [] \<and> is_prefix_of e (trim_left encs s)) encs = None"
proof (induction encs s rule: trim_left.induct)
  case (1 encs s)
  then show ?case
    by (cases "find (\<lambda>e. e \<noteq> [] \<and> is_prefix_of e s) encs")
      (simp_all add: trim_left.simps [of encs s])
qed

lemma trim_left_drop: "\<exists>n. trim_left encs s = drop n s"
proof (induction encs s rule: trim_left.induct)
  case (1 encs s)
  show ?case
  proof (cases "find (\<lambda>e. e \<noteq> [] \<and> is_prefix_of e s) encs")
    case None
    then show ?thesis by (metis trim_left_none drop0)
  next
    case (Some e)
    with 1 show ?thesis by (auto simp: trim_left.simps [of encs s])
  qed
qed

lemma is_prefix_of_take: "is_prefix_of e (take n s) \<Longrightarrow> e \<noteq> [] \<Longrightarrow> is_prefix_of e s"
proof -
  assume p: "is_prefix_of e (take n s)" and "e \<noteq> []"
  then have "length e \<le> length (take n s)" by (metis is_prefix_of_def length_take min.cobounded1 min.commute)
  with p show ?thesis by (simp add: is_prefix_of_def min_def split: if_splits)
qed

lemma trim_left_id: "s \<noteq> [] \<Longrightarrow> hd s \<notin> hd ` set encs \<Longrightarrow> trim_left encs s = s"
  by (rule trim_left_none) (auto simp: find_None_iff is_prefix_of_def neq_Nil_conv image_iff)

lemma TrimSpace_id:
  assumes "s \<noteq> []" and "hd s \<notin> hd ` set space_encodings" and "last s \<notin> last ` set space_encodings"
  shows "TrimSpace s = s"
proof -
  have "hd (rev s) \<notin> hd ` set (map rev space_encodings)"
    using assms by (auto simp: hd_rev)
  then show ?thesis using assms(1,2) by (simp add: TrimSpace_def trim_left_id)
qed

lemma TrimSpace_idem: "TrimSpace (TrimSpace s) = TrimSpace s"
proof -
  let ?l = "trim_left space_encodings s" and ?R = "map rev space_encodings"
  obtain n where n: "trim_left ?R (rev ?l) = drop n (rev ?l)" using trim_left_drop by blast
  then have t: "TrimSpace s = take (length ?l - n) ?l"
    by (simp add: TrimSpace_def rev_drop)
  have "find (\<lambda>e. e \<noteq> [] \<and> is_prefix_of e (TrimSpace s)) space_encodings = None"
    using trim_left_result [of space_encodings s] is_prefix_of_take
    unfolding find_None_iff t by blast
  then have "trim_left space_encodings (TrimSpace s) = TrimSpace s" by (rule trim_left_none)
  moreover have "trim_left ?R (rev (TrimSpace s)) = rev (TrimSpace s)"
    using trim_left_none [OF trim_left_result] by (simp add: TrimSpace_def)
  ultimately show ?thesis by (simp add: TrimSpace_def [of "TrimSpace s"])
qed

section \<open>Cutting\<close>

lemma Cut_append: "sep \<notin> set a \<Longrightarrow> Cut sep (a @ sep # b) = (a, b)"
  by (induction a) auto

section \<open>String order\<close>

lemma string_less_irrefl [simp]: "\<not> string_less s s"
  by (induction s) auto

lemma string_less_trans: "string_less a b \<Longrightarrow> string_less b c \<Longrightarrow> string_less a c"
proof (induction a b arbitrary: c rule: string_less.induct)
  case (3 x xs y ys)
  then show ?case by (cases c) auto
qed (auto elim: string_less.elims)

lemma string_less_linear: "string_less a b \<or> a = b \<or> string_less b a"
proof (induction a b rule: string_less.induct)
  case (1 a)
  then show ?case by (cases a) auto
next
  case (3 x xs y ys)
  have "of_char x < (of_char y :: nat) \<or> x = y \<or> of_char y < (of_char x :: nat)"
    using linorder_less_linear [of "of_char x :: nat" "of_char y"] by auto
  with 3 show ?case by auto
qed auto

section \<open>Numbers\<close>

lemma digit_char_cases:
  "d < 16 \<Longrightarrow> P 0 \<Longrightarrow> P 1 \<Longrightarrow> P 2 \<Longrightarrow> P 3 \<Longrightarrow> P 4 \<Longrightarrow> P 5 \<Longrightarrow> P 6 \<Longrightarrow> P 7 \<Longrightarrow> P 8 \<Longrightarrow> P 9 \<Longrightarrow> P 10
    \<Longrightarrow> P 11 \<Longrightarrow> P 12 \<Longrightarrow> P 13 \<Longrightarrow> P 14 \<Longrightarrow> P 15 \<Longrightarrow> P (d :: nat)"
  by (auto simp: less_Suc_eq numeral_eq_Suc)

lemma digit_of_digit_char [simp]: "d < 16 \<Longrightarrow> digit_of (digit_char d) = Some d"
  by (rule digit_char_cases [of d]) (simp_all add: digit_of_def digit_char_def Let_def)

lemma digits_val_append:
  "digits_val base acc (xs @ ys) = (case digits_val base acc xs of None \<Rightarrow> None | Some n \<Rightarrow> digits_val base n ys)"
  by (induction xs arbitrary: acc) (auto split: option.splits)

lemma nat_digits_nonempty [simp]: "nat_digits base n \<noteq> []"
  by (subst nat_digits.simps) simp

lemma digits_val_nat_digits:
  "2 \<le> base \<Longrightarrow> base \<le> 16 \<Longrightarrow> digits_val base 0 (nat_digits base n) = Some n"
proof (induction base n rule: nat_digits.induct)
  case (1 base n)
  show ?case
  proof (cases "n < base")
    case True
    with 1 show ?thesis by (subst nat_digits.simps) simp
  next
    case False
    with 1 have "digits_val base 0 (nat_digits base (n div base)) = Some (n div base)" by simp
    moreover have m: "n mod base < base" using 1 by simp
    moreover have "n mod base < 16" using m 1 by linarith
    ultimately show ?thesis
      using False 1 by (subst nat_digits.simps) (simp add: digits_val_append)
  qed
qed

lemma ParseUint_nat_digits:
  "2 \<le> base \<Longrightarrow> base \<le> 16 \<Longrightarrow> n < 2 ^ 64 \<Longrightarrow> ParseUint base (nat_digits base n) = Some n"
  by (simp add: ParseUint_def digits_val_nat_digits)

lemma digits_val_zeros: "2 \<le> base \<Longrightarrow> digits_val base 0 (replicate k (CHR ''0'') @ ds) = digits_val base 0 ds"
  by (induction k) (simp_all add: digit_of_def Let_def)

lemma unat_u64_less: "unat (w :: u64) < 2 ^ 64"
  using unsigned_less [of w, where ?'a = nat] by simp

lemma ParseUint_FormatUint [simp]: "ParseUint 10 (FormatUint w) = Some (unat w)"
  using unat_u64_less [of w] by (simp add: FormatUint_def ParseUint_nat_digits)

lemma ParseUint_Hex [simp]: "ParseUint 16 (Hex w) = Some (unat w)"
  using unat_u64_less [of w]
  by (simp add: Hex_def Let_def ParseUint_def digits_val_zeros digits_val_nat_digits)

lemma FormatUint_inject [simp]: "FormatUint v = FormatUint w \<longleftrightarrow> v = w"
  by (metis ParseUint_FormatUint option.inject unsigned_word_eqI)

lemma Hex_inject [simp]: "Hex v = Hex w \<longleftrightarrow> v = w"
  by (metis ParseUint_Hex option.inject unsigned_word_eqI)

lemma hex_decode_encode [simp]: "hex_decode (hex_encode bs) = Some bs"
proof (induction bs)
  case (Cons b bs)
  have "unat b < 256" using unsigned_less [of b, where ?'a = nat] by simp
  then have "unat b div 16 < 16" by auto
  then show ?case by (simp add: Cons.IH)
qed simp

lemma digit_char_not_sign: "d < 16 \<Longrightarrow> digit_char d \<noteq> CHR ''-'' \<and> digit_char d \<noteq> CHR ''+''"
  by (rule digit_char_cases [of d]) (simp_all add: digit_char_def)

lemma nat_digits_chars:
  "2 \<le> base \<Longrightarrow> base \<le> 16 \<Longrightarrow> c \<in> set (nat_digits base n) \<Longrightarrow> \<exists>d<base. c = digit_char d"
proof (induction base n rule: nat_digits.induct)
  case (1 base n)
  show ?case
  proof (cases "n < base")
    case True
    with 1 show ?thesis by (auto simp: nat_digits.simps [of base n])
  next
    case False
    with 1 have "c \<in> set (nat_digits base (n div base)) \<or> c = digit_char (n mod base)"
      by (auto simp: nat_digits.simps [of base n])
    moreover have "n mod base < base" using 1 by simp
    ultimately show ?thesis using 1 False by fastforce
  qed
qed

lemma ParseInt10_FormatInt: "int64_range n \<Longrightarrow> ParseInt10 (FormatInt n) = Some n"
proof (cases "n < 0")
  case True
  assume r: "int64_range n"
  with True have "nat (- n) \<le> 2 ^ 63" by (simp add: int64_range_def nat_le_iff)
  then have "ParseUint 10 (nat_digits 10 (nat (- n))) = Some (nat (- n))"
    by (intro ParseUint_nat_digits) auto
  then show ?thesis using True r by (auto simp: FormatInt_def ParseInt10_def int64_range_def)
next
  case False
  assume r: "int64_range n"
  obtain c cs where d: "nat_digits 10 (nat n) = c # cs" by (cases "nat_digits 10 (nat n)") auto
  then have "c \<noteq> CHR ''-'' \<and> c \<noteq> CHR ''+''"
    using nat_digits_chars [of 10 c "nat n"] digit_char_not_sign by fastforce
  moreover have "nat n < 2 ^ 63" using r False by (simp add: int64_range_def nat_less_iff)
  moreover from this have "ParseUint 10 (nat_digits 10 (nat n)) = Some (nat n)"
    by (intro ParseUint_nat_digits) auto
  ultimately show ?thesis using False d by (simp add: FormatInt_def ParseInt10_def)
qed

lemma ParseInt10_range: "ParseInt10 s = Some n \<Longrightarrow> int64_range n"
  by (auto simp: ParseInt10_def int64_range_def Let_def split: list.splits option.splits if_splits)

end
