(* ===== verification/NetIP.thy ===== *)
theory NetIP
  imports GoText
begin

text \<open>
  The parts of Go's \<open>net/netip\<close> the keeper calls: addresses with their family and zone,
  prefixes, masking, parsing and printing. The definitions follow the library's functions
  (\<open>parseIPv4Fields\<close>, \<open>parseIPv6\<close>, \<open>ParsePrefix\<close>, \<open>PrefixFrom\<close>, \<open>Masked\<close>, \<open>String\<close>, \<open>Compare\<close>)
  with their case order; parse errors are \<open>None\<close>.
\<close>

section \<open>Addresses and prefixes\<close>

datatype addr = AddrZero | Addr4 u32 | Addr6 "128 word" string

record prefix =
  p_addr :: addr
  p_bits :: int

definition zero_prefix :: prefix where
  "zero_prefix = \<lparr>p_addr = AddrZero, p_bits = -1\<rparr>"

definition prefix_IsValid :: "prefix \<Rightarrow> bool" where
  "prefix_IsValid p \<longleftrightarrow> 0 \<le> p_bits p"

fun BitLen :: "addr \<Rightarrow> int" where
  "BitLen AddrZero = 0"
| "BitLen (Addr4 _) = 32"
| "BitLen (Addr6 _ _) = 128"

fun addr_Is4 :: "addr \<Rightarrow> bool" where
  "addr_Is4 (Addr4 _) = True"
| "addr_Is4 _ = False"

fun addr_Is6 :: "addr \<Rightarrow> bool" where
  "addr_Is6 (Addr6 _ _) = True"
| "addr_Is6 _ = False"

fun addr_Zone :: "addr \<Rightarrow> string" where
  "addr_Zone (Addr6 _ z) = z"
| "addr_Zone _ = []"

fun withoutZone :: "addr \<Rightarrow> addr" where
  "withoutZone (Addr6 w _) = Addr6 w []"
| "withoutZone a = a"

fun Is4In6 :: "addr \<Rightarrow> bool" where
  "Is4In6 (Addr6 w _) = (drop_bit 32 w = 0xffff)"
| "Is4In6 _ = False"

fun Unmap :: "addr \<Rightarrow> addr" where
  "Unmap (Addr6 w z) = (if Is4In6 (Addr6 w z) then Addr4 (ucast w) else Addr6 w z)"
| "Unmap a = a"

definition PrefixFrom :: "addr \<Rightarrow> int \<Rightarrow> prefix" where
  "PrefixFrom a bits =
     \<lparr>p_addr = withoutZone a,
      p_bits = (if a \<noteq> AddrZero \<and> 0 \<le> bits \<and> bits \<le> BitLen a then bits else -1)\<rparr>"

definition mask_top :: "nat \<Rightarrow> 'a::len word \<Rightarrow> 'a word" where
  "mask_top n w = w AND NOT (mask n)"

definition Masked :: "prefix \<Rightarrow> prefix" where
  "Masked p =
     (let b = p_bits p
      in if b < 0 then zero_prefix
         else case p_addr p of
           AddrZero \<Rightarrow> zero_prefix
         | Addr4 w \<Rightarrow> if b > 32 then zero_prefix else PrefixFrom (Addr4 (mask_top (nat (32 - b)) w)) b
         | Addr6 w z \<Rightarrow> if b > 128 then zero_prefix else PrefixFrom (Addr6 (mask_top (nat (128 - b)) w) z) b)"

fun As4 :: "addr \<Rightarrow> byte list" where
  "As4 (Addr4 w) = rev (le_bytes 4 w)"
| "As4 (Addr6 w z) = rev (le_bytes 4 w)"
| "As4 AddrZero = replicate 4 0"

fun As16 :: "addr \<Rightarrow> byte list" where
  "As16 AddrZero = replicate 16 0"
| "As16 (Addr4 w) = replicate 10 0 @ [0xff, 0xff] @ rev (le_bytes 4 w)"
| "As16 (Addr6 w z) = rev (le_bytes 16 w)"

definition AddrFrom4 :: "byte list \<Rightarrow> addr" where
  "AddrFrom4 bs = Addr4 (le_word 4 (rev bs))"

definition AddrFrom16 :: "byte list \<Rightarrow> addr" where
  "AddrFrom16 bs = Addr6 (le_word 16 (rev bs)) []"

text \<open>\<open>a.Compare(b) < 0\<close>: bit length, then the address, then the zone.\<close>

fun addr_word :: "addr \<Rightarrow> 128 word" where
  "addr_word AddrZero = 0"
| "addr_word (Addr4 w) = push_bit 32 0xffff OR ucast w"
| "addr_word (Addr6 w _) = w"

definition addr_Compare_less :: "addr \<Rightarrow> addr \<Rightarrow> bool" where
  "addr_Compare_less a b \<longleftrightarrow>
     (if BitLen a \<noteq> BitLen b then BitLen a < BitLen b
      else if addr_word a \<noteq> addr_word b then addr_word a < addr_word b
      else addr_Is6 a \<and> string_less (addr_Zone a) (addr_Zone b))"

section \<open>Parsing\<close>

definition dec_digit :: "char \<Rightarrow> nat option" where
  "dec_digit c = (let n = of_char c in if 48 \<le> n \<and> n \<le> 57 then Some (n - 48) else None)"

definition hex_digit :: "char \<Rightarrow> nat option" where
  "hex_digit c =
     (let n = of_char c
      in if 48 \<le> n \<and> n \<le> 57 then Some (n - 48)
         else if 97 \<le> n \<and> n \<le> 102 then Some (n - 97 + 10)
         else if 65 \<le> n \<and> n \<le> 70 then Some (n - 65 + 10)
         else None)"

fun parseIPv4Fields :: "string \<Rightarrow> nat \<Rightarrow> nat \<Rightarrow> nat list \<Rightarrow> nat list option" where
  "parseIPv4Fields [] val digLen flds = (if length flds < 3 then None else Some (flds @ [val]))"
| "parseIPv4Fields (c # cs) val digLen flds =
     (case dec_digit c of
        Some d \<Rightarrow>
          if digLen = 1 \<and> val = 0 then None
          else let val' = val * 10 + d
               in if val' > 255 then None else parseIPv4Fields cs val' (digLen + 1) flds
      | None \<Rightarrow>
          if c = CHR ''.'' then
            if digLen = 0 \<or> cs = [] then None
            else if length flds = 3 then None
            else parseIPv4Fields cs 0 0 (flds @ [val])
          else None)"

definition parseIPv4 :: "string \<Rightarrow> addr option" where
  "parseIPv4 s = map_option (\<lambda>fs. AddrFrom4 (map word_of_nat fs)) (parseIPv4Fields s 0 0 [])"

fun hex_group :: "string \<Rightarrow> nat \<Rightarrow> nat \<Rightarrow> (nat \<times> nat \<times> string) option" where
  "hex_group [] off acc = Some (off, acc, [])"
| "hex_group (c # cs) off acc =
     (case hex_digit c of
        None \<Rightarrow> Some (off, acc, c # cs)
      | Some d \<Rightarrow>
          let acc' = 16 * acc + d
          in if off > 3 then None else if acc' > 65535 then None else hex_group cs (off + 1) acc')"

lemma hex_group_length: "hex_group s off acc = Some (off', acc', rest) \<Longrightarrow> length rest + off' = length s + off"
proof (induction s off acc rule: hex_group.induct)
  case (2 c cs off acc)
  then show ?case by (auto simp: Let_def split: option.splits if_splits)
qed auto

text \<open>
  The loop of \<open>parseIPv6\<close> over the remaining text, the bytes filled so far and the position of
  the ellipsis.
\<close>

function parseIPv6_loop ::
  "string \<Rightarrow> nat list \<Rightarrow> nat option \<Rightarrow> (string \<times> nat list \<times> nat option) option" where
  "parseIPv6_loop s ip ellipsis =
     (if length ip \<ge> 16 then Some (s, ip, ellipsis)
      else case hex_group s 0 0 of
        None \<Rightarrow> None
      | Some (off, acc, rest) \<Rightarrow>
          if off = 0 then None
          else if rest \<noteq> [] \<and> hd rest = CHR ''.'' then
            if ellipsis = None \<and> length ip \<noteq> 12 then None
            else if length ip + 4 > 16 then None
            else (case parseIPv4Fields s 0 0 [] of
                    None \<Rightarrow> None
                  | Some fs \<Rightarrow> Some ([], ip @ fs, ellipsis))
          else
            (let ip' = ip @ [acc div 256, acc mod 256]
             in case rest of
                  [] \<Rightarrow> Some ([], ip', ellipsis)
                | c # cs \<Rightarrow>
                    if c \<noteq> CHR '':'' then None
                    else if cs = [] then None
                    else if hd cs = CHR '':'' then
                      if ellipsis \<noteq> None then None
                      else if tl cs = [] then Some ([], ip', Some (length ip'))
                      else parseIPv6_loop (tl cs) ip' (Some (length ip'))
                    else parseIPv6_loop cs ip' ellipsis))"
  by pat_completeness auto
termination
  by (relation "measure (\<lambda>(s, ip, e). 16 - length ip)") auto

declare parseIPv6_loop.simps [simp del]

definition expand_ellipsis :: "nat list \<Rightarrow> nat option \<Rightarrow> nat list option" where
  "expand_ellipsis ip ellipsis =
     (if length ip < 16
      then (case ellipsis of
              None \<Rightarrow> None
            | Some e \<Rightarrow> Some (take e ip @ replicate (16 - length ip) 0 @ drop e ip))
      else if ellipsis \<noteq> None then None else Some ip)"

fun with_zone :: "string \<Rightarrow> addr \<Rightarrow> addr" where
  "with_zone z (Addr6 w _) = Addr6 w z"
| "with_zone z a = a"

definition parseIPv6_body :: "string \<Rightarrow> addr option" where
  "parseIPv6_body s =
     (let lead = (take 2 s = ''::'');
          s' = (if lead then drop 2 s else s)
      in if lead \<and> s' = [] then Some (Addr6 0 [])
         else case parseIPv6_loop s' [] (if lead then Some 0 else None) of
                None \<Rightarrow> None
              | Some (rest, ip, ellipsis) \<Rightarrow>
                  if rest \<noteq> [] then None
                  else map_option (\<lambda>bs. AddrFrom16 (map word_of_nat bs)) (expand_ellipsis ip ellipsis))"

definition parseIPv6 :: "string \<Rightarrow> addr option" where
  "parseIPv6 s =
     (if CHR ''%'' \<in> set s
      then let (body, zone) = Cut (CHR ''%'') s
           in if zone = [] then None else map_option (with_zone zone) (parseIPv6_body body)
      else parseIPv6_body s)"

fun ParseAddr_scan :: "string \<Rightarrow> string \<Rightarrow> addr option" where
  "ParseAddr_scan s [] = None"
| "ParseAddr_scan s (c # cs) =
     (if c = CHR ''.'' then parseIPv4 s
      else if c = CHR '':'' then parseIPv6 s
      else if c = CHR ''%'' then None
      else ParseAddr_scan s cs)"

definition ParseAddr :: "string \<Rightarrow> addr option" where
  "ParseAddr s = ParseAddr_scan s s"

text \<open>The text around the last slash, if there is one.\<close>

definition cut_last_slash :: "string \<Rightarrow> (string \<times> string) option" where
  "cut_last_slash s =
     (if CHR ''/'' \<in> set s
      then let (b, a) = Cut (CHR ''/'') (rev s) in Some (rev a, rev b)
      else None)"

definition netip_ParsePrefix :: "string \<Rightarrow> prefix option" where
  "netip_ParsePrefix s =
     (case cut_last_slash s of
        None \<Rightarrow> None
      | Some (ipStr, bitsStr) \<Rightarrow>
          (case ParseAddr ipStr of
             None \<Rightarrow> None
           | Some ip \<Rightarrow>
               if addr_Is6 ip \<and> addr_Zone ip \<noteq> [] then None
               else if length bitsStr > 1 \<and> (hd bitsStr = CHR ''0'' \<or> dec_digit (hd bitsStr) = None) then None
               else (case Atoi bitsStr of
                       None \<Rightarrow> None
                     | Some bits \<Rightarrow>
                         if bits < 0 \<or> bits > (if addr_Is6 ip then 128 else 32) then None
                         else Some (PrefixFrom ip bits))))"

section \<open>Printing\<close>

fun join_with :: "string \<Rightarrow> string list \<Rightarrow> string" where
  "join_with sep [] = []"
| "join_with sep [s] = s"
| "join_with sep (s # ss) = s @ sep @ join_with sep ss"

definition string4 :: "u32 \<Rightarrow> string" where
  "string4 w = join_with ''.'' (map (\<lambda>b. nat_digits 10 (unat b)) (rev (le_bytes 4 w)))"

text \<open>The eight 16-bit groups, most significant first.\<close>

definition v6_groups :: "128 word \<Rightarrow> nat list" where
  "v6_groups w = map (\<lambda>i. unat (ucast (drop_bit (16 * (7 - i)) w) :: u16)) [0..<8]"

fun zero_run :: "nat list \<Rightarrow> nat" where
  "zero_run [] = 0"
| "zero_run (g # gs) = (if g = 0 then Suc (zero_run gs) else 0)"

text \<open>
  The first longest run of two or more zero groups, as (start, end). The library starts from
  \<open>(255, 255)\<close>, an empty run no index matches.
\<close>

definition longest_zeros_step :: "nat list \<Rightarrow> nat \<Rightarrow> nat \<times> nat \<Rightarrow> nat \<times> nat" where
  "longest_zeros_step gs i se =
     (let l = zero_run (drop i gs)
      in if 2 \<le> l \<and> snd se - fst se < l then (i, i + l) else se)"

definition longest_zeros :: "nat list \<Rightarrow> nat \<times> nat" where
  "longest_zeros gs = fold (longest_zeros_step gs) [0..<8] (255, 255)"

text \<open>
  The printing loop. After the run the index jumps to its end and the group there follows the
  two colons with no further colon; a run ends after it starts, which the guard \<open>i < ze\<close> records.
\<close>

function string6_loop :: "nat list \<Rightarrow> nat \<Rightarrow> nat \<Rightarrow> nat \<Rightarrow> string" where
  "string6_loop gs zs ze i =
     (if i \<ge> 8 then []
      else if i = zs then
        (if ze \<ge> 8 then ''::''
         else ''::'' @ nat_digits 16 (gs ! ze) @ (if i < ze then string6_loop gs zs ze (ze + 1) else []))
      else (if i > 0 then '':'' else []) @ nat_digits 16 (gs ! i) @ string6_loop gs zs ze (i + 1))"
  by pat_completeness auto
termination
  by (relation "measure (\<lambda>(gs, zs, ze, i). 8 - i)") auto

declare string6_loop.simps [simp del]

definition string6 :: "128 word \<Rightarrow> string" where
  "string6 w = (let gs = v6_groups w; (zs, ze) = longest_zeros gs in string6_loop gs zs ze 0)"

fun addr_String :: "addr \<Rightarrow> string" where
  "addr_String AddrZero = ''invalid IP''"
| "addr_String (Addr4 w) = string4 w"
| "addr_String (Addr6 w z) =
     (if Is4In6 (Addr6 w z) then ''::ffff:'' @ string4 (ucast w) else string6 w)
     @ (if z = [] then [] else CHR ''%'' # z)"

definition prefix_String :: "prefix \<Rightarrow> string" where
  "prefix_String p =
     (if \<not> prefix_IsValid p then ''invalid Prefix''
      else addr_String (p_addr p) @ ''/'' @ Itoa (p_bits p))"

end
