(* ===== verification/MD5.thy ===== *)
theory MD5
  imports GoText
begin

text \<open>
  \<open>crypto/md5\<close> (RFC 1321), which \<open>MD5Hex\<close> of \<open>src/internal/set/canon.go\<close> applies to the values of
  hashed sets.
\<close>

type_synonym md5_state = "u32 \<times> u32 \<times> u32 \<times> u32"

definition md5_K :: "u32 list" where
  "md5_K = [
     0xd76aa478, 0xe8c7b756, 0x242070db, 0xc1bdceee, 0xf57c0faf, 0x4787c62a, 0xa8304613, 0xfd469501,
     0x698098d8, 0x8b44f7af, 0xffff5bb1, 0x895cd7be, 0x6b901122, 0xfd987193, 0xa679438e, 0x49b40821,
     0xf61e2562, 0xc040b340, 0x265e5a51, 0xe9b6c7aa, 0xd62f105d, 0x02441453, 0xd8a1e681, 0xe7d3fbc8,
     0x21e1cde6, 0xc33707d6, 0xf4d50d87, 0x455a14ed, 0xa9e3e905, 0xfcefa3f8, 0x676f02d9, 0x8d2a4c8a,
     0xfffa3942, 0x8771f681, 0x6d9d6122, 0xfde5380c, 0xa4beea44, 0x4bdecfa9, 0xf6bb4b60, 0xbebfbc70,
     0x289b7ec6, 0xeaa127fa, 0xd4ef3085, 0x04881d05, 0xd9d4d039, 0xe6db99e5, 0x1fa27cf8, 0xc4ac5665,
     0xf4292244, 0x432aff97, 0xab9423a7, 0xfc93a039, 0x655b59c3, 0x8f0ccc92, 0xffeff47d, 0x85845dd1,
     0x6fa87e4f, 0xfe2ce6e0, 0xa3014314, 0x4e0811a1, 0xf7537e82, 0xbd3af235, 0x2ad7d2bb, 0xeb86d391]"

definition md5_S :: "nat list" where
  "md5_S = concat (replicate 4 [7, 12, 17, 22]) @ concat (replicate 4 [5, 9, 14, 20])
         @ concat (replicate 4 [4, 11, 16, 23]) @ concat (replicate 4 [6, 10, 15, 21])"

definition rotl32 :: "u32 \<Rightarrow> nat \<Rightarrow> u32" where
  "rotl32 x b = push_bit b x OR drop_bit (32 - b) x"

text \<open>The round function and the index of the message word used in step \<open>i\<close>.\<close>

definition md5_f :: "nat \<Rightarrow> u32 \<Rightarrow> u32 \<Rightarrow> u32 \<Rightarrow> u32" where
  "md5_f i b c d =
     (if i < 16 then (b AND c) OR (NOT b AND d)
      else if i < 32 then (d AND b) OR (NOT d AND c)
      else if i < 48 then b XOR c XOR d
      else c XOR (b OR NOT d))"

definition md5_g :: "nat \<Rightarrow> nat" where
  "md5_g i =
     (if i < 16 then i
      else if i < 32 then (5 * i + 1) mod 16
      else if i < 48 then (3 * i + 5) mod 16
      else (7 * i) mod 16)"

fun md5_add :: "u32 \<Rightarrow> nat \<Rightarrow> md5_state \<Rightarrow> md5_state" where
  "md5_add f s (a, b, c, d) = (d, b + rotl32 (a + f) s, b, c)"

fun md5_step :: "u32 list \<Rightarrow> nat \<Rightarrow> md5_state \<Rightarrow> md5_state" where
  "md5_step m i (a, b, c, d) =
     md5_add (md5_f i b c d + md5_K ! i + m ! md5_g i) (md5_S ! i) (a, b, c, d)"

fun md5_sum :: "md5_state \<Rightarrow> md5_state \<Rightarrow> md5_state" where
  "md5_sum (a, b, c, d) (a', b', c', d') = (a + a', b + b', c + c', d + d')"

definition md5_block :: "u32 list \<Rightarrow> md5_state \<Rightarrow> md5_state" where
  "md5_block m v = md5_sum v (fold (md5_step m) [0..<64] v)"

definition md5_pad :: "byte list \<Rightarrow> byte list" where
  "md5_pad b =
     b @ [0x80] @ replicate ((119 - length b mod 64) mod 64) 0
       @ le_bytes 8 (word_of_nat (8 * length b) :: u64)"

fun md5_words :: "nat \<Rightarrow> byte list \<Rightarrow> u32 list" where
  "md5_words 0 bs = []"
| "md5_words (Suc n) bs = le_word 4 (take 4 bs) # md5_words n (drop 4 bs)"

fun md5_blocks :: "nat \<Rightarrow> byte list \<Rightarrow> md5_state \<Rightarrow> md5_state" where
  "md5_blocks 0 bs v = v"
| "md5_blocks (Suc n) bs v = md5_blocks n (drop 64 bs) (md5_block (md5_words 16 (take 64 bs)) v)"

fun md5_digest :: "md5_state \<Rightarrow> byte list" where
  "md5_digest (a, b, c, d) = le_bytes 4 a @ le_bytes 4 b @ le_bytes 4 c @ le_bytes 4 d"

definition md5_Sum :: "byte list \<Rightarrow> byte list" where
  "md5_Sum b =
     (let p = md5_pad b
      in md5_digest (md5_blocks (length p div 64) p
           (0x67452301, 0xefcdab89, 0x98badcfe, 0x10325476)))"

definition MD5Hex :: "string \<Rightarrow> string" where
  "MD5Hex v = hex_encode (md5_Sum (bytes_of_string v))"

lemma length_md5_Sum [simp]: "length (md5_Sum b) = 16"
  by (cases "md5_blocks (length (md5_pad b) div 64) (md5_pad b)
        (0x67452301, 0xefcdab89, 0x98badcfe, 0x10325476)") (simp add: md5_Sum_def Let_def)

lemma length_hex_encode [simp]: "length (hex_encode bs) = 2 * length bs"
  by (induction bs) simp_all

lemma length_MD5Hex: "length (MD5Hex v) = 32"
  by (simp add: MD5Hex_def)

end
