(* ===== verification/SipHash.thy ===== *)
theory SipHash
  imports Prelude
begin

text \<open>
  The keyed hash of \<open>src/internal/set/siphash.go\<close>: \<open>rotl\<close>, \<open>sipRound\<close> and \<open>SipHashBytes\<close> with
  its block loop and its tail loop. The theory states SipHash-2-4 as its paper gives it, on its own: nothing
  of the source is used, neither its round and rotation nor its reading of words and its constants. It proves that the
  source's loops compute it, and evaluates the published test vector.
\<close>

section \<open>The source\<close>

type_synonym sip_state = "u64 \<times> u64 \<times> u64 \<times> u64"

definition rotl :: "u64 \<Rightarrow> nat \<Rightarrow> u64" where
  "rotl x b = push_bit b x OR drop_bit (64 - b) x"

fun sipRound :: "sip_state \<Rightarrow> sip_state" where
  "sipRound (v0, v1, v2, v3) =
     (let v0 = v0 + v1;
          v1 = rotl v1 13;
          v1 = v1 XOR v0;
          v0 = rotl v0 32;
          v2 = v2 + v3;
          v3 = rotl v3 16;
          v3 = v3 XOR v2;
          v0 = v0 + v3;
          v3 = rotl v3 21;
          v3 = v3 XOR v0;
          v2 = v2 + v1;
          v1 = rotl v1 17;
          v1 = v1 XOR v2;
          v2 = rotl v2 32
      in (v0, v1, v2, v3))"

text \<open>One turn of the block loop: \<open>v3 ^= m\<close>, two rounds, \<open>v0 ^= m\<close>.\<close>

fun sip_xor3 :: "u64 \<Rightarrow> sip_state \<Rightarrow> sip_state" where
  "sip_xor3 m (v0, v1, v2, v3) = (v0, v1, v2, v3 XOR m)"

fun sip_xor0 :: "u64 \<Rightarrow> sip_state \<Rightarrow> sip_state" where
  "sip_xor0 m (v0, v1, v2, v3) = (v0 XOR m, v1, v2, v3)"

fun sip_xor2 :: "u64 \<Rightarrow> sip_state \<Rightarrow> sip_state" where
  "sip_xor2 m (v0, v1, v2, v3) = (v0, v1, v2 XOR m, v3)"

definition sip_absorb :: "u64 \<Rightarrow> sip_state \<Rightarrow> sip_state" where
  "sip_absorb m v = sip_xor0 m (sipRound (sipRound (sip_xor3 m v)))"

function sip_block_loop :: "byte list \<Rightarrow> nat \<Rightarrow> nat \<Rightarrow> sip_state \<Rightarrow> sip_state" where
  "sip_block_loop b full i v =
     (if i < full
      then sip_block_loop b full (i + 8) (sip_absorb (le_word 8 (take 8 (drop i b))) v)
      else v)"
  by pat_completeness auto
termination
  by (relation "measure (\<lambda>(b, full, i, v). full - i)") auto

declare sip_block_loop.simps [simp del]

function sip_tail_loop :: "byte list \<Rightarrow> nat \<Rightarrow> nat \<Rightarrow> u64 \<Rightarrow> u64" where
  "sip_tail_loop b full i lst =
     (if i < length b
      then sip_tail_loop b full (i + 1) (lst OR push_bit (8 * (i - full)) (ucast (b ! i)))
      else lst)"
  by pat_completeness auto
termination
  by (relation "measure (\<lambda>(b, full, i, lst). length b - i)") auto

declare sip_tail_loop.simps [simp del]

definition sip_init :: "byte list \<Rightarrow> sip_state" where
  "sip_init k =
     (let k0 = le_word 8 (take 8 k); k1 = le_word 8 (drop 8 k)
      in (k0 XOR 0x736f6d6570736575, k1 XOR 0x646f72616e646f6d,
          k0 XOR 0x6c7967656e657261, k1 XOR 0x7465646279746573))"

fun sip_fold :: "sip_state \<Rightarrow> u64" where
  "sip_fold (v0, v1, v2, v3) = v0 XOR v1 XOR v2 XOR v3"

definition sip_finish :: "sip_state \<Rightarrow> u64" where
  "sip_finish v = sip_fold (sipRound (sipRound (sipRound (sipRound (sip_xor2 0xff v)))))"

definition SipHashBytes :: "byte list \<Rightarrow> byte list \<Rightarrow> u64" where
  "SipHashBytes k b =
     (let n = length b;
          full = n - n mod 8;
          v = sip_block_loop b full 0 (sip_init k);
          lst = sip_tail_loop b full full (push_bit 56 (word_of_nat n))
      in sip_finish (sip_absorb lst v))"

section \<open>SipHash-2-4 as specified\<close>

text \<open>
  The definition of SipHash-c-d by Aumasson and Bernstein. A word is read from its bytes by weight; the constants of the initial
  state are the letters of an English phrase; a round is four steps that add, rotate and exclude and two plain rotations.
\<close>

definition spec_word :: "byte list \<Rightarrow> u64" where
  "spec_word bs = word_of_nat (foldr (\<lambda>b n. unat b + 256 * n) bs 0)"

definition spec_letters :: "string \<Rightarrow> u64" where
  "spec_letters cs = word_of_nat (foldl (\<lambda>n c. 256 * n + of_char c) 0 cs)"

definition spec_init :: "u64 \<Rightarrow> u64 \<Rightarrow> u64 \<times> u64 \<times> u64 \<times> u64" where
  "spec_init k0 k1 = (k0 XOR spec_letters ''somepseu'', k1 XOR spec_letters ''dorandom'',
     k0 XOR spec_letters ''lygenera'', k1 XOR spec_letters ''tedbytes'')"

definition spec_arx :: "nat \<Rightarrow> u64 \<times> u64 \<Rightarrow> u64 \<times> u64" where
  "spec_arx n ab = (case ab of (a, b) \<Rightarrow> (a + b, word_rotl n b XOR (a + b)))"

definition spec_round :: "u64 \<times> u64 \<times> u64 \<times> u64 \<Rightarrow> u64 \<times> u64 \<times> u64 \<times> u64" where
  "spec_round v =
     (let (a, b, c, d) = v;
          (a, b) = spec_arx 13 (a, b);
          (c, d) = spec_arx 16 (c, d);
          a = word_rotl 32 a;
          (c, b) = spec_arx 17 (c, b);
          (a, d) = spec_arx 21 (a, d)
      in (a, b, word_rotl 32 c, d))"

definition spec_compress :: "nat \<Rightarrow> u64 \<Rightarrow> u64 \<times> u64 \<times> u64 \<times> u64 \<Rightarrow> u64 \<times> u64 \<times> u64 \<times> u64" where
  "spec_compress c m v =
     (let (v0, v1, v2, v3) = v; (v0, v1, v2, v3) = (spec_round ^^ c) (v0, v1, v2, v3 XOR m) in (v0 XOR m, v1, v2, v3))"

text \<open>The words of the message: its bytes, zeros up to a multiple of eight less one, the length byte.\<close>

definition sip_pad :: "byte list \<Rightarrow> byte list" where
  "sip_pad b = b @ replicate (7 - length b mod 8) 0 @ [word_of_nat (length b)]"

definition spec_words :: "byte list \<Rightarrow> u64 list" where
  "spec_words b = map (\<lambda>i. spec_word (take 8 (drop (8 * i) (sip_pad b)))) [0..<length b div 8 + 1]"

definition siphash :: "nat \<Rightarrow> nat \<Rightarrow> byte list \<Rightarrow> byte list \<Rightarrow> u64" where
  "siphash c d k b =
     (let (v0, v1, v2, v3) =
            foldl (\<lambda>v m. spec_compress c m v) (spec_init (spec_word (take 8 k)) (spec_word (take 8 (drop 8 k)))) (spec_words b);
          (v0, v1, v2, v3) = (spec_round ^^ d) (v0, v1, v2 XOR 0xff, v3)
      in v0 XOR v1 XOR v2 XOR v3)"

section \<open>The words of a message\<close>

fun sip_blocks :: "byte list \<Rightarrow> u64 list" where
  "sip_blocks (b0 # b1 # b2 # b3 # b4 # b5 # b6 # b7 # bs) =
     le_word 8 [b0, b1, b2, b3, b4, b5, b6, b7] # sip_blocks bs"
| "sip_blocks _ = []"

text \<open>The message in whole blocks, with the steps of the source: what its two loops come to.\<close>

definition sip_folded :: "byte list \<Rightarrow> byte list \<Rightarrow> u64" where
  "sip_folded k b = sip_finish (fold sip_absorb (sip_blocks (sip_pad b)) (sip_init k))"

section \<open>The loops of the source\<close>

lemma sip_blocks_short: "length bs < 8 \<Longrightarrow> sip_blocks bs = []"
  by (cases bs rule: sip_blocks.cases) auto

lemma sip_blocks_step:
  assumes "8 \<le> length bs"
  shows "sip_blocks bs = le_word 8 (take 8 bs) # sip_blocks (drop 8 bs)"
proof (cases bs rule: sip_blocks.cases)
  case (1 b0 b1 b2 b3 b4 b5 b6 b7 rest)
  then show ?thesis by (simp add: numeral_eq_Suc)
qed (use assms in auto)

lemma sip_blocks_append:
  "8 dvd length xs \<Longrightarrow> sip_blocks (xs @ ys) = sip_blocks xs @ sip_blocks ys"
proof (induction xs rule: length_induct)
  case (1 xs)
  show ?case
  proof (cases "xs = []")
    case False
    with "1.prems" have l: "8 \<le> length xs" by (simp add: dvd_imp_le)
    with "1.prems" have "8 dvd length (drop 8 xs)" by (simp add: dvd_diff_nat)
    with 1 False have "sip_blocks (drop 8 xs @ ys) = sip_blocks (drop 8 xs) @ sip_blocks ys"
      by simp
    with l show ?thesis
      by (simp add: sip_blocks_step [of xs] sip_blocks_step [of "xs @ ys"])
  qed (simp add: sip_blocks_short)
qed

text \<open>The block loop absorbs exactly the whole blocks of the message.\<close>

lemma sip_block_loop_fold:
  assumes "full \<le> length b" and "8 dvd full" and "8 dvd i"
  shows "sip_block_loop b full i v = fold sip_absorb (sip_blocks (drop i (take full b))) v"
  using assms
proof (induction b full i v rule: sip_block_loop.induct)
  case (1 b full i v)
  show ?case
  proof (cases "i < full")
    case True
    with 1 have f: "i + 8 \<le> full" by (auto elim!: dvdE)
    have "sip_blocks (drop i (take full b))
        = le_word 8 (take 8 (drop i b)) # sip_blocks (drop (i + 8) (take full b))"
      using f "1.prems" by (simp add: sip_blocks_step drop_take add.commute)
    with 1 True show ?thesis by (subst sip_block_loop.simps) simp
  next
    case False
    then show ?thesis by (subst sip_block_loop.simps) (simp add: sip_blocks_short)
  qed
qed

text \<open>The tail loop builds the little-endian word of the bytes it reads.\<close>

lemma sip_tail_loop_le_word:
  assumes "full \<le> i"
  shows "sip_tail_loop b full i lst = lst OR push_bit (8 * (i - full)) (le_word (length b - i) (drop i b))"
  using assms
proof (induction b full i lst rule: sip_tail_loop.induct)
  case (1 b full i lst)
  show ?case
  proof (cases "i < length b")
    case True
    have d: "drop i b = b ! i # drop (i + 1) b" using True by (simp add: Cons_nth_drop_Suc)
    have l: "length b - i = Suc (length b - (i + 1))" using True by simp
    have p: "push_bit (8 * (i + 1 - full)) w = push_bit (8 * (i - full)) (push_bit 8 w)" for w :: u64
      using "1.prems" by (simp add: push_bit_push_bit algebra_simps Suc_diff_le)
    have "sip_tail_loop b full i lst
        = (lst OR push_bit (8 * (i - full)) (ucast (b ! i)))
          OR push_bit (8 * (i + 1 - full)) (le_word (length b - (i + 1)) (drop (i + 1) b))"
      using 1 True by (subst sip_tail_loop.simps) simp
    then show ?thesis unfolding p l d by (simp add: push_bit_or or.assoc)
  next
    case False
    then show ?thesis by (subst sip_tail_loop.simps) simp
  qed
qed

lemma le_word_append:
  "le_word (length xs + m) (xs @ ys)
     = le_word (length xs) xs OR push_bit (8 * length xs) (le_word m ys :: u64)"
  by (induction xs) (simp_all add: push_bit_or or.assoc push_bit_push_bit add.commute)

lemma le_word_zeros: "le_word (n + m) (replicate n 0 @ ys) = push_bit (8 * n) (le_word m ys :: u64)"
  by (induction n) (simp_all add: push_bit_push_bit add.commute)

lemma push_bit_length_byte:
  "push_bit 56 (ucast (word_of_nat n :: byte)) = (push_bit 56 (word_of_nat n) :: u64)"
  by (rule bit_word_eqI) (auto simp: bit_simps)

lemma sip_last_block:
  assumes "length d < 8"
  shows "le_word 8 (d @ replicate (7 - length d) 0 @ [word_of_nat n])
       = (push_bit 56 (word_of_nat n) OR le_word (length d) d :: u64)"
proof -
  have m: "8 = length d + ((7 - length d) + 1)" using assms by simp
  have "le_word 8 (d @ replicate (7 - length d) 0 @ [word_of_nat n :: byte])
      = le_word (length d) d OR push_bit (8 * length d) (le_word ((7 - length d) + 1)
          (replicate (7 - length d) 0 @ [word_of_nat n :: byte]) :: u64)"
    by (subst (1) m) (rule le_word_append)
  also have "\<dots> = le_word (length d) d OR push_bit 56 (ucast (word_of_nat n :: byte))"
    using assms by (subst le_word_zeros) (simp add: push_bit_push_bit algebra_simps)
  finally show ?thesis by (simp add: push_bit_length_byte or.commute)
qed

lemma SipHashBytes_folded: "SipHashBytes k b = sip_folded k b"
proof -
  let ?n = "length b" and ?d = "drop (length b - length b mod 8) b"
  let ?full = "?n - ?n mod 8"
  have full: "?full \<le> ?n" "8 dvd ?full" by (simp_all add: minus_mod_eq_mult_div)
  have d: "length ?d = ?n mod 8" and t: "length (take ?full b) = ?full" by simp_all
  have pad: "sip_pad b = take ?full b @ (?d @ replicate (7 - length ?d) 0 @ [word_of_nat ?n])"
    unfolding sip_pad_def d by (metis append.assoc append_take_drop_id)
  have "length (?d @ replicate (7 - length ?d) 0 @ [word_of_nat ?n :: byte]) = 8" by simp
  then have tail: "sip_blocks (?d @ replicate (7 - length ?d) 0 @ [word_of_nat ?n])
      = [push_bit 56 (word_of_nat ?n) OR le_word (length ?d) ?d]"
    using sip_last_block [of ?d ?n] by (subst sip_blocks_step) (simp_all add: sip_blocks_short)
  have "sip_blocks (sip_pad b)
      = sip_blocks (take ?full b) @ [push_bit 56 (word_of_nat ?n) OR le_word (length ?d) ?d]"
    unfolding pad by (subst sip_blocks_append) (use full tail t in \<open>simp_all only: append.simps\<close>)
  moreover have "sip_tail_loop b ?full ?full (push_bit 56 (word_of_nat ?n))
      = push_bit 56 (word_of_nat ?n) OR le_word (length ?d) ?d"
    by (simp add: sip_tail_loop_le_word)
  ultimately show ?thesis
    unfolding SipHashBytes_def sip_folded_def Let_def using full
    by (simp add: sip_block_loop_fold)
qed


section \<open>The steps of the source are those of the specification\<close>

lemma le_word_spec: "le_word (length bs) bs = (word_of_nat (foldr (\<lambda>b n. unat b + 256 * n) bs 0) :: u64)"
proof (induction bs)
  case (Cons b bs)
  have "ucast b OR push_bit 8 w = ucast b + push_bit 8 w" for w :: u64
    by (rule disjunctive_add [symmetric]) (auto simp: bit_simps dest: bit_imp_le_length)
  then show ?case using Cons by (simp add: push_bit_eq_mult)
qed simp

lemma le_word_8: "length bs = 8 \<Longrightarrow> le_word 8 bs = spec_word bs"
  using le_word_spec [of bs] by (simp add: spec_word_def)

lemma sip_blocks_words:
  assumes "length bs = 8 * n"
  shows "sip_blocks bs = map (\<lambda>i. spec_word (take 8 (drop (8 * i) bs))) [0..<n]"
  using assms
proof (induction n arbitrary: bs)
  case (Suc n)
  have "map (\<lambda>i. spec_word (take 8 (drop (8 * i) bs))) [0..<Suc n]
      = spec_word (take 8 bs) # map (\<lambda>i. spec_word (take 8 (drop (8 * i) (drop 8 bs)))) [0..<n]"
    by (simp add: upt_conv_Cons map_Suc_upt [symmetric] add.commute del: upt_Suc)
  then show ?case
    using Suc.IH [of "drop 8 bs"] Suc.prems by (simp add: sip_blocks_step le_word_8)
qed (simp add: sip_blocks_short)

lemma sip_pad_words: "sip_blocks (sip_pad b) = spec_words b"
proof -
  have "length (sip_pad b) = length b + (7 - length b mod 8) + 1" by (simp add: sip_pad_def)
  also have "\<dots> = 8 * (length b div 8 + 1)"
    by presburger
  finally have "length (sip_pad b) = 8 * (length b div 8 + 1)" .
  then show ?thesis unfolding spec_words_def by (rule sip_blocks_words)
qed

lemma rotl_word_rotl: "0 < n \<Longrightarrow> n < 64 \<Longrightarrow> rotl x n = word_rotl n x"
proof (rule bit_word_eqI)
  fix m assume n: "0 < n" "n < 64" and "m < LENGTH(64)"
  then have m: "m < 64" by simp
  have rot: "(m + (64 - n mod 64)) mod 64 = (if n \<le> m then m - n else m + 64 - n)" using n m by (simp add: mod_if)
  have "bit (word_rotl n x) m = bit x (if n \<le> m then m - n else m + 64 - n)"
    using m rot by (simp only: bit_word_rotl_iff len_bit0 len_num1) simp
  moreover have "bit (rotl x n) m = (n \<le> m \<and> bit x (m - n) \<or> bit x (m + 64 - n))"
    using n m by (simp add: rotl_def bit_simps add.commute)
  moreover have "\<not> bit x (m + 64 - n)" if "n \<le> m" using that n bit_imp_le_length [of x "m + 64 - n"] by auto
  ultimately show "bit (rotl x n) m = bit (word_rotl n x) m" by auto
qed

lemma sipRound_spec: "sipRound v = spec_round v"
  by (cases v) (simp add: spec_round_def spec_arx_def rotl_word_rotl Let_def)

lemma sip_absorb_spec: "sip_absorb m v = spec_compress 2 m v"
  by (cases v) (simp add: sip_absorb_def spec_compress_def sipRound_spec numeral_2_eq_2 split: prod.split)

lemma sip_finish_spec:
  "sip_finish (v0, v1, v2, v3)
     = (let (v0, v1, v2, v3) = (spec_round ^^ 4) (v0, v1, v2 XOR 0xff, v3) in v0 XOR v1 XOR v2 XOR v3)"
  by (simp add: sip_finish_def sipRound_spec numeral_eq_Suc split: prod.split)

lemma spec_letters_eval:
  "spec_letters ''somepseu'' = 0x736f6d6570736575" "spec_letters ''dorandom'' = 0x646f72616e646f6d"
  "spec_letters ''lygenera'' = 0x6c7967656e657261" "spec_letters ''tedbytes'' = 0x7465646279746573"
  by (simp_all add: spec_letters_def)

lemma sip_init_spec:
  "length k = 16 \<Longrightarrow> sip_init k = spec_init (spec_word (take 8 k)) (spec_word (take 8 (drop 8 k)))"
  by (simp add: sip_init_def spec_init_def spec_letters_eval le_word_8 Let_def)

lemma SipHashBytes_siphash:
  assumes "length k = 16"
  shows "SipHashBytes k b = siphash 2 4 k b"
proof -
  have "fold sip_absorb ws v = foldl (\<lambda>v m. spec_compress 2 m v) v ws" for ws v
    by (simp add: foldl_conv_fold sip_absorb_spec [abs_def])
  then show ?thesis
    unfolding SipHashBytes_folded sip_folded_def siphash_def sip_pad_words sip_init_spec [OF assms]
    by (simp add: sip_finish_spec split: prod.split)
qed

section \<open>Evaluation\<close>

text \<open>
  A round written as the sequence of its assignments: each rewrites a state of numerals to a
  state of numerals, so the kernel evaluates a hash by rewriting, with no symbolic words.
\<close>

fun sip_half :: "nat \<Rightarrow> nat \<Rightarrow> sip_state \<Rightarrow> sip_state" where
  "sip_half a b (v0, v1, v2, v3) = (v0 + v1, rotl v1 a, v2 + v3, rotl v3 b)"

fun sip_mix :: "sip_state \<Rightarrow> sip_state" where
  "sip_mix (v0, v1, v2, v3) = (rotl v0 32, v1 XOR v0, v2, v3 XOR v2)"

fun sip_cross :: "sip_state \<Rightarrow> sip_state" where
  "sip_cross (v0, v1, v2, v3) = (v2, v1, v0, v3)"

lemma sipRound_steps:
  "sipRound v = sip_cross (sip_mix (sip_half 17 21 (sip_cross (sip_mix (sip_half 13 16 v)))))"
  by (cases v) (simp add: Let_def ac_simps)

lemmas sip_eval =
  sip_init_def sip_pad_def sip_absorb_def sip_finish_def sipRound_steps rotl_def Let_def wire_simps

declare sipRound.simps [simp del]

text \<open>
  The published SipHash-2-4 test vector: key \<open>00 01 .. 0f\<close>, message \<open>00 01 .. 0e\<close>. The hash the
  keeper computes is the published one.
\<close>

lemma SipHashBytes_test_vector:
  "SipHashBytes [0, 1, 2, 3, 4, 5, 6, 7, 8, 9, 10, 11, 12, 13, 14, 15]
     [0, 1, 2, 3, 4, 5, 6, 7, 8, 9, 10, 11, 12, 13, 14] = 0xa129ca6149be45e5"
proof -
  let ?k = "[0, 1, 2, 3, 4, 5, 6, 7, 8, 9, 10, 11, 12, 13, 14, 15] :: byte list"
  let ?m = "[0, 1, 2, 3, 4, 5, 6, 7, 8, 9, 10, 11, 12, 13, 14] :: byte list"
  have init: "sip_init ?k = (0x7469686173716475, 0x6b617f6d656e6665, 0x6b7f62616d677361, 0x7b6b696e727e6c7b)"
    by (simp add: sip_eval)
  have blocks: "sip_blocks (sip_pad ?m) = [0x0706050403020100, 0x0f0e0d0c0b0a0908]"
    by (simp add: sip_eval)
  show ?thesis
    unfolding SipHashBytes_folded sip_folded_def init blocks
    by (simp add: sip_eval)
qed

section \<open>Properties\<close>

text \<open>
  C34: The streaming implementation, which reads whole words and folds the last bytes in from the
  top, computes SipHash-2-4 for every key of 16 bytes and every message: the definition of the paper with two
  rounds for each word and four at the end, stated on its own, with rotations of machine words, words read
  by weight and the constants as the letters they stand for. And the hash of the published test vector
  (key \<open>00 01 .. 0f\<close>, message \<open>00 01 .. 0e\<close>) is the published one.
\<close>

theorem SipHashBytes_is_siphash24:
  "(\<forall>k b. length k = 16 \<longrightarrow> SipHashBytes k b = siphash 2 4 k b)
   \<and> SipHashBytes (map word_of_nat [0..<16]) (map word_of_nat [0..<15]) = 0xa129ca6149be45e5"
  using SipHashBytes_siphash SipHashBytes_test_vector by (simp add: upt_rec)

theorem SipHashBytes_is_siphash24_witness:
  "siphash 2 4 (map word_of_nat [0..<16]) (map word_of_nat [0..<15]) = 0xa129ca6149be45e5"
  using SipHashBytes_is_siphash24 by (metis diff_zero length_map length_upt)

end
