(* ===== verification/Canon.thy ===== *)
theory Canon
  imports NetIP MD5 SipHash
begin

text \<open>
  \<open>src/internal/set/canon.go\<close> and \<open>src/internal/set/material.go\<close>: the set types, the canonical form of
  a value, and the bytes a value contributes to the set hash. A value reaches the hash by two
  routes, through the prefix that canonicalisation returns or by parsing the canonical text
  again; the lemmas relate the two.
\<close>

section \<open>Types and errors\<close>

text \<open>\<open>type Type int\<close>, with the constants of the source.\<close>

type_synonym set_type = int

definition TypeString :: set_type where "TypeString = 0"
definition TypeCIDR :: set_type where "TypeCIDR = 1"
definition TypeNumeric :: set_type where "TypeNumeric = 2"

lemma types_distinct [simp]:
  "TypeString \<noteq> TypeCIDR" "TypeCIDR \<noteq> TypeString" "TypeNumeric \<noteq> TypeCIDR" "TypeCIDR \<noteq> TypeNumeric"
  "TypeString \<noteq> TypeNumeric" "TypeNumeric \<noteq> TypeString"
  by (simp_all add: TypeString_def TypeCIDR_def TypeNumeric_def)

datatype canon_error = ErrEmpty | ErrTooLong | ErrType

definition ValueMax :: nat where "ValueMax = 255"

section \<open>Canonical values\<close>

definition materialPrefix :: "prefix \<Rightarrow> prefix" where
  "materialPrefix p =
     (let a = p_addr p; bits = p_bits p
      in if Is4In6 a \<and> bits \<ge> 96 then Masked (PrefixFrom (Unmap a) (bits - 96))
         else Masked (PrefixFrom a bits))"

definition canonCIDR :: "string \<Rightarrow> canon_error + (string \<times> prefix)" where
  "canonCIDR v =
     (case netip_ParsePrefix v of
        Some p \<Rightarrow> let p = Masked p in Inr (prefix_String p, materialPrefix p)
      | None \<Rightarrow>
          (case ParseAddr v of
             None \<Rightarrow> Inl ErrType
           | Some a \<Rightarrow>
               let a = (if Is4In6 a then Unmap a else a);
                   p = PrefixFrom a (BitLen a)
               in Inr (prefix_String p, p)))"

definition CanonPrefix :: "set_type \<Rightarrow> string \<Rightarrow> canon_error + (string \<times> prefix)" where
  "CanonPrefix t raw =
     (let v = TrimSpace raw
      in if v = [] then Inl ErrEmpty
         else if length v > ValueMax then Inl ErrTooLong
         else if t = TypeCIDR then canonCIDR v
         else if t = TypeNumeric then
           (case ParseInt10 v of
              None \<Rightarrow> Inl ErrType
            | Some n \<Rightarrow> Inr (FormatInt n, zero_prefix))
         else Inr (v, zero_prefix))"

definition Canon :: "set_type \<Rightarrow> string \<Rightarrow> canon_error + string" where
  "Canon t raw = map_sum id fst (CanonPrefix t raw)"

definition TypeOf :: "string \<Rightarrow> set_type" where
  "TypeOf catalog =
     (if catalog = ''ip'' \<or> catalog = ''ipv4'' \<or> catalog = ''cidr'' then TypeCIDR
      else if catalog = ''numeric'' then TypeNumeric
      else TypeString)"

section \<open>Hash material\<close>

definition set_ParsePrefix :: "string \<Rightarrow> prefix option" where
  "set_ParsePrefix value =
     (case netip_ParsePrefix value of
        Some p \<Rightarrow> Some (materialPrefix p)
      | None \<Rightarrow>
          (case ParseAddr value of
             Some a \<Rightarrow> let a = Unmap a in Some (PrefixFrom a (BitLen a))
           | None \<Rightarrow> None))"

definition PrefixMaterial :: "prefix \<Rightarrow> byte list" where
  "PrefixMaterial p =
     (if addr_Is4 (p_addr p) then [4, word_of_int (p_bits p)] @ As4 (p_addr p)
      else [6, word_of_int (p_bits p)] @ As16 (p_addr p))"

definition Material :: "set_type \<Rightarrow> string \<Rightarrow> byte list" where
  "Material t value =
     (if t = TypeCIDR
      then (case set_ParsePrefix value of Some p \<Rightarrow> PrefixMaterial p | None \<Rightarrow> bytes_of_string value)
      else bytes_of_string value)"

definition HashValue :: "byte list \<Rightarrow> set_type \<Rightarrow> string \<Rightarrow> u64" where
  "HashValue k t value = SipHashBytes k (Material t value)"

fun HashValues_loop :: "byte list \<Rightarrow> set_type \<Rightarrow> u64 \<Rightarrow> string list \<Rightarrow> u64" where
  "HashValues_loop k t h [] = h"
| "HashValues_loop k t h (v # vs) = HashValues_loop k t (h XOR HashValue k t v) vs"

definition HashValues :: "byte list \<Rightarrow> set_type \<Rightarrow> string list \<Rightarrow> u64" where
  "HashValues k t values = HashValues_loop k t 0 values"

section \<open>Order independence of the content hash\<close>

lemma HashValues_loop_xor: "HashValues_loop k t h vs = h XOR HashValues_loop k t 0 vs"
proof (induction vs arbitrary: h)
  case (Cons v vs)
  have "HashValues_loop k t h (v # vs) = (h XOR HashValue k t v) XOR HashValues_loop k t 0 vs"
    using Cons.IH [of "h XOR HashValue k t v"] by simp
  moreover have "HashValues_loop k t 0 (v # vs) = HashValue k t v XOR HashValues_loop k t 0 vs"
    using Cons.IH [of "HashValue k t v"] by simp
  ultimately show ?case by (simp add: xor.assoc)
qed simp

lemma HashValues_Cons: "HashValues k t (v # vs) = HashValue k t v XOR HashValues k t vs"
  unfolding HashValues_def by (simp add: HashValues_loop_xor [of k t "HashValue k t v"])

lemma HashValues_Nil: "HashValues k t [] = 0"
  by (simp add: HashValues_def)

lemma HashValues_distinct: "distinct vs \<Longrightarrow> HashValues k t vs = xor_sum.F (HashValue k t) (set vs)"
  by (induction vs) (simp_all add: HashValues_Nil HashValues_Cons)

end
