(* ===== verification/ExpHeap.thy ===== *)
theory ExpHeap
  imports Prelude
begin

text \<open>
  The expiry queue of \<open>src/internal/set/set.go\<close>: \<open>expItem\<close>, \<open>expHeap\<close> and the \<open>container/heap\<close>
  operations the set calls on it (\<open>Init\<close>, \<open>Push\<close>, \<open>Pop\<close>, with their sift loops \<open>up\<close> and \<open>down\<close>),
  on the array they work on. The theory proves that they implement a priority queue of items
  ordered by expiry, states that contract as the locale \<open>expiry_queue\<close> and interprets it.
\<close>

section \<open>The array and the sift loops\<close>

record expItem =
  x_value :: string
  x_exp :: int

type_synonym expHeap = "expItem list"

definition heap_Less :: "expHeap \<Rightarrow> nat \<Rightarrow> nat \<Rightarrow> bool" where
  "heap_Less h i j \<longleftrightarrow> x_exp (h ! i) < x_exp (h ! j)"

definition heap_Swap :: "expHeap \<Rightarrow> nat \<Rightarrow> nat \<Rightarrow> expHeap" where
  "heap_Swap h i j = h[i := h ! j, j := h ! i]"

function heap_up :: "expHeap \<Rightarrow> nat \<Rightarrow> expHeap" where
  "heap_up h j =
     (let i = (j - 1) div 2
      in if i = j \<or> \<not> heap_Less h j i then h else heap_up (heap_Swap h i j) i)"
  by pat_completeness auto
termination
  by (relation "measure (\<lambda>(h, j). j)") (auto simp: less_Suc_eq_le)

function heap_down :: "expHeap \<Rightarrow> nat \<Rightarrow> nat \<Rightarrow> expHeap" where
  "heap_down h i n =
     (let j1 = 2 * i + 1
      in if j1 \<ge> n then h
         else let j2 = j1 + 1;
                  j = (if j2 < n \<and> heap_Less h j2 j1 then j2 else j1)
              in if \<not> heap_Less h j i then h else heap_down (heap_Swap h i j) j n)"
  by pat_completeness auto
termination
  by (relation "measure (\<lambda>(h, i, n). n - i)") (auto simp: Let_def split: if_splits)

declare heap_up.simps [simp del] heap_down.simps [simp del]

fun heap_init_loop :: "expHeap \<Rightarrow> nat \<Rightarrow> expHeap" where
  "heap_init_loop h 0 = h"
| "heap_init_loop h (Suc i) = heap_init_loop (heap_down h i (length h)) i"

definition heap_Init :: "expHeap \<Rightarrow> expHeap" where
  "heap_Init h = heap_init_loop h (length h div 2)"

definition heap_Push :: "expHeap \<Rightarrow> expItem \<Rightarrow> expHeap" where
  "heap_Push h x = heap_up (h @ [x]) (length (h @ [x]) - 1)"

definition heap_Pop :: "expHeap \<Rightarrow> expItem \<times> expHeap" where
  "heap_Pop h =
     (let n = length h - 1;
          h = heap_down (heap_Swap h 0 n) 0 n
      in (h ! (length h - 1), take (length h - 1) h))"

section \<open>The heap order\<close>

definition parent :: "nat \<Rightarrow> nat" where
  "parent k = (k - 1) div 2"

abbreviation hkey :: "expHeap \<Rightarrow> nat \<Rightarrow> int" where
  "hkey h k \<equiv> x_exp (h ! k)"

text \<open>\<open>heap_from h lo n\<close>: below index \<open>n\<close>, every parent at \<open>lo\<close> or above is no later than its child.\<close>

definition heap_from :: "expHeap \<Rightarrow> nat \<Rightarrow> nat \<Rightarrow> bool" where
  "heap_from h lo n \<longleftrightarrow> (\<forall>k<n. 0 < k \<and> lo \<le> parent k \<longrightarrow> hkey h (parent k) \<le> hkey h k)"

definition is_heap :: "expHeap \<Rightarrow> bool" where
  "is_heap h \<longleftrightarrow> heap_from h 0 (length h)"

text \<open>The order with a hole: position \<open>j\<close> may be earlier than its parent, but its children may not.\<close>

definition up_hole :: "expHeap \<Rightarrow> nat \<Rightarrow> bool" where
  "up_hole h j \<longleftrightarrow> (\<forall>k<length h. 0 < k \<and> k \<noteq> j \<longrightarrow> hkey h (parent k) \<le> hkey h k)
     \<and> (\<forall>k<length h. 0 < k \<and> parent k = j \<and> 0 < j \<longrightarrow> hkey h (parent j) \<le> hkey h k)"

text \<open>Position \<open>i\<close> may be later than its children, but its parent may not.\<close>

definition down_hole :: "expHeap \<Rightarrow> nat \<Rightarrow> nat \<Rightarrow> nat \<Rightarrow> bool" where
  "down_hole h lo i n \<longleftrightarrow>
     (\<forall>k<n. 0 < k \<and> lo \<le> parent k \<and> parent k \<noteq> i \<longrightarrow> hkey h (parent k) \<le> hkey h k)
     \<and> (\<forall>k<n. 0 < k \<and> parent k = i \<and> 0 < i \<and> lo \<le> parent i \<longrightarrow> hkey h (parent i) \<le> hkey h k)"

lemma length_heap_Swap [simp]: "length (heap_Swap h i j) = length h"
  by (simp add: heap_Swap_def)

lemma key_heap_Swap:
  "i < length h \<Longrightarrow> j < length h \<Longrightarrow>
   hkey (heap_Swap h i j) k = (if k = i then hkey h j else if k = j then hkey h i else hkey h k)"
  by (auto simp: heap_Swap_def nth_list_update)

lemma mset_heap_Swap: "i < length h \<Longrightarrow> j < length h \<Longrightarrow> mset (heap_Swap h i j) = mset h"
  by (simp add: heap_Swap_def mset_swap)

lemma parent_cases: "0 < k \<Longrightarrow> parent k = i \<longleftrightarrow> k = 2 * i + 1 \<or> k = 2 * i + 2"
  unfolding parent_def by presburger

lemma parent_less: "0 < k \<Longrightarrow> parent k < k"
  unfolding parent_def by presburger

lemma heap_up_step:
  "heap_up h j = (if parent j = j \<or> \<not> heap_Less h j (parent j) then h
     else heap_up (heap_Swap h (parent j) j) (parent j))"
  by (subst heap_up.simps) (simp add: Let_def parent_def)

section \<open>Sifting up\<close>

lemma up_hole_step:
  assumes hole: "up_hole h j" and j: "j < length h" "0 < j" and less: "hkey h j < hkey h (parent j)"
  shows "up_hole (heap_Swap h (parent j) j) (parent j)"
proof -
  let ?p = "parent j" and ?h = "heap_Swap h (parent j) j"
  have p: "?p < j" "?p < length h" using j parent_less [of j] by auto
  have key: "hkey ?h k = (if k = ?p then hkey h j else if k = j then hkey h ?p else hkey h k)" for k
    using p j by (simp add: key_heap_Swap)
  have a: "hkey h (parent k) \<le> hkey h k" if "k < length h" "0 < k" "k \<noteq> j" for k
    using hole that by (simp add: up_hole_def)
  have b: "hkey h ?p \<le> hkey h k" if "k < length h" "0 < k" "parent k = j" for k
    using hole that j by (simp add: up_hole_def)
  have 1: "hkey ?h (parent k) \<le> hkey ?h k" if k: "k < length h" "0 < k" "k \<noteq> ?p" for k
  proof -
    consider "k = j" | "k \<noteq> j" "parent k = j" | "k \<noteq> j" "parent k \<noteq> j" "parent k = ?p"
      | "k \<noteq> j" "parent k \<noteq> j" "parent k \<noteq> ?p" by blast
    then show ?thesis
    proof cases
      case 1 then show ?thesis using key less p by simp
    next
      case 2 then show ?thesis using key b k p by simp
    next
      case 3 then show ?thesis using key a [of k] k less by simp
    next
      case 4 then show ?thesis using key a [of k] k by simp
    qed
  qed
  have 2: "hkey ?h (parent ?p) \<le> hkey ?h k" if k: "k < length h" "0 < k" "parent k = ?p" "0 < ?p" for k
  proof -
    have gp: "parent ?p \<noteq> ?p" "parent ?p \<noteq> j" using k parent_less [of ?p] p by auto
    have "hkey h (parent ?p) \<le> hkey h ?p" using a [of ?p] p k by simp
    moreover have "hkey h ?p \<le> hkey h k" if "k \<noteq> j" using a [of k] k that by simp
    moreover have "k \<noteq> ?p" using k parent_less [of k] by auto
    ultimately show ?thesis using key gp by (cases "k = j") auto
  qed
  show ?thesis using 1 2 by (simp add: up_hole_def)
qed

lemma heap_up_correct:
  assumes "up_hole h j" and "j < length h"
  shows "is_heap (heap_up h j) \<and> mset (heap_up h j) = mset h"
  using assms
proof (induction j arbitrary: h rule: less_induct)
  case (less j)
  let ?p = "parent j"
  show ?case
  proof (cases "?p = j \<or> \<not> heap_Less h j ?p")
    case True
    then have "j = 0 \<or> hkey h ?p \<le> hkey h j"
      using parent_less [of j] by (cases "j = 0") (auto simp: heap_Less_def)
    with less.prems have "is_heap h" by (auto simp: is_heap_def heap_from_def up_hole_def)
    with True show ?thesis by (simp add: heap_up_step [of h j])
  next
    case False
    then have j: "0 < j" by (cases j) (auto simp: parent_def)
    have p: "?p < length h" using less.prems parent_less [OF j] by simp
    have "up_hole (heap_Swap h ?p j) ?p"
      using less.prems False j by (intro up_hole_step) (auto simp: heap_Less_def)
    then have "is_heap (heap_up (heap_Swap h ?p j) ?p)
        \<and> mset (heap_up (heap_Swap h ?p j) ?p) = mset (heap_Swap h ?p j)"
      using less.IH [OF parent_less [OF j]] p by simp
    with False less.prems p show ?thesis
      by (simp add: heap_up_step [of h j] mset_heap_Swap)
  qed
qed

section \<open>Sifting down\<close>

text \<open>The child the loop compares with: the earlier of the two, or the only one.\<close>

definition down_child :: "expHeap \<Rightarrow> nat \<Rightarrow> nat \<Rightarrow> nat" where
  "down_child h i n = (if 2 * i + 2 < n \<and> heap_Less h (2 * i + 2) (2 * i + 1) then 2 * i + 2 else 2 * i + 1)"

lemma heap_down_step:
  "heap_down h i n =
     (if n \<le> 2 * i + 1 \<or> \<not> heap_Less h (down_child h i n) i then h
      else heap_down (heap_Swap h i (down_child h i n)) (down_child h i n) n)"
  by (subst heap_down.simps) (simp add: Let_def down_child_def)

lemma down_child_parent: "2 * i + 1 < n \<Longrightarrow> down_child h i n < n \<and> parent (down_child h i n) = i
    \<and> i < down_child h i n"
  by (simp add: down_child_def parent_def)

lemma down_child_least:
  "k < n \<Longrightarrow> 0 < k \<Longrightarrow> parent k = i \<Longrightarrow> hkey h (down_child h i n) \<le> hkey h k"
  by (auto simp: down_child_def parent_cases heap_Less_def)

lemma down_hole_step:
  assumes hole: "down_hole h lo i n" and n: "n \<le> length h" and i: "2 * i + 1 < n" "lo \<le> i"
    and less: "hkey h (down_child h i n) < hkey h i"
  shows "down_hole (heap_Swap h i (down_child h i n)) lo (down_child h i n) n"
proof -
  let ?c = "down_child h i n"
  let ?h = "heap_Swap h i ?c"
  have c: "?c < n" "parent ?c = i" "i < ?c" using down_child_parent [OF i(1)] by auto
  have key: "hkey ?h k = (if k = i then hkey h ?c else if k = ?c then hkey h i else hkey h k)" for k
    using c n by (simp add: key_heap_Swap)
  have a: "hkey h (parent k) \<le> hkey h k" if "k < n" "0 < k" "lo \<le> parent k" "parent k \<noteq> i" for k
    using hole that by (simp add: down_hole_def)
  have b: "hkey h (parent i) \<le> hkey h k" if "k < n" "0 < k" "parent k = i" "0 < i" "lo \<le> parent i" for k
    using hole that by (simp add: down_hole_def)
  have 1: "hkey ?h (parent k) \<le> hkey ?h k"
    if k: "k < n" "0 < k" "lo \<le> parent k" "parent k \<noteq> ?c" for k
  proof -
    have pk: "parent k < k" using parent_less k by simp
    consider "parent k = i" | "parent k \<noteq> i" "k = i" | "parent k \<noteq> i" "k \<noteq> i" "k \<noteq> ?c"
      using c by blast
    then show ?thesis
    proof cases
      case 1
      have "hkey h ?c \<le> hkey h k" using down_child_least k(1,2) 1 by blast
      moreover have "k \<noteq> i" using pk 1 by simp
      ultimately show ?thesis using less by (simp add: key [of k] key [of i] 1)
    next
      case 2 then show ?thesis using key k b [of ?c] c pk by simp
    next
      case 3 then show ?thesis using key k a [of k] by simp
    qed
  qed
  have 2: "hkey ?h (parent ?c) \<le> hkey ?h k" if k: "k < n" "0 < k" "parent k = ?c" for k
  proof -
    have "?c < k" using parent_less [of k] k by simp
    moreover have "hkey h ?c \<le> hkey h k" using a [of k] k c i by simp
    ultimately show ?thesis using c by (simp add: key [of k] key [of i])
  qed
  show ?thesis using 1 2 unfolding down_hole_def by blast
qed

lemma heap_down_correct:
  assumes "down_hole h lo i n" and "n \<le> length h" and "lo \<le> i"
  shows "heap_from (heap_down h i n) lo n \<and> mset (heap_down h i n) = mset h
    \<and> (\<forall>k. n \<le> k \<longrightarrow> heap_down h i n ! k = h ! k)"
  using assms
proof (induction "n - i" arbitrary: h i rule: less_induct)
  case less
  let ?c = "down_child h i n"
  show ?case
  proof (cases "n \<le> 2 * i + 1 \<or> \<not> heap_Less h ?c i")
    case True
    have "hkey h i \<le> hkey h k" if "k < n" "0 < k" "parent k = i" for k
      using True down_child_least [OF that, of h] that parent_cases [of k i]
      by (auto simp: heap_Less_def)
    then have "heap_from h lo n"
      using less.prems(1) unfolding heap_from_def down_hole_def by blast
    with True show ?thesis by (simp add: heap_down_step [of h i n])
  next
    case False
    then have i: "2 * i + 1 < n" by simp
    note c = down_child_parent [OF i, of h]
    have "down_hole (heap_Swap h i ?c) lo ?c n"
      using less.prems False i by (intro down_hole_step) (auto simp: heap_Less_def)
    moreover have "n - ?c < n - i" and "lo \<le> ?c" and il: "i < length h" "?c < length h"
      using c less.prems by auto
    ultimately have "heap_from (heap_down (heap_Swap h i ?c) ?c n) lo n
        \<and> mset (heap_down (heap_Swap h i ?c) ?c n) = mset (heap_Swap h i ?c)
        \<and> (\<forall>k. n \<le> k \<longrightarrow> heap_down (heap_Swap h i ?c) ?c n ! k = heap_Swap h i ?c ! k)"
      using less.hyps [of ?c "heap_Swap h i ?c"] less.prems by simp
    moreover have "\<forall>k. n \<le> k \<longrightarrow> heap_Swap h i ?c ! k = h ! k"
      using c by (auto simp: heap_Swap_def nth_list_update)
    ultimately show ?thesis
      using False il by (simp add: heap_down_step [of h i n] mset_heap_Swap)
  qed
qed

section \<open>Init, Push and Pop\<close>

lemma length_heap_down [simp]: "length (heap_down h i n) = length h"
  by (induction h i n rule: heap_down.induct) (subst heap_down.simps, simp add: Let_def)

lemma heap_root_least: "is_heap h \<Longrightarrow> k < length h \<Longrightarrow> hkey h 0 \<le> hkey h k"
proof (induction k rule: less_induct)
  case (less k)
  show ?case
  proof (cases "k = 0")
    case False
    then have "parent k < k" by (simp add: parent_less)
    with less have "hkey h 0 \<le> hkey h (parent k)" by simp
    also have "\<dots> \<le> hkey h k" using less.prems False by (simp add: is_heap_def heap_from_def)
    finally show ?thesis .
  qed simp
qed

lemma heap_init_loop_correct:
  "heap_from h i (length h) \<Longrightarrow>
   is_heap (heap_init_loop h i) \<and> mset (heap_init_loop h i) = mset h"
proof (induction i arbitrary: h)
  case 0
  then show ?case by (simp add: is_heap_def)
next
  case (Suc i)
  have "parent i < i" if "0 < i" using that by (simp add: parent_less)
  with Suc.prems have "down_hole h i i (length h)"
    by (auto simp: down_hole_def heap_from_def)
  then have "heap_from (heap_down h i (length h)) i (length h)
      \<and> mset (heap_down h i (length h)) = mset h"
    using heap_down_correct by blast
  with Suc.IH [of "heap_down h i (length h)"] show ?case by simp
qed

lemma heap_Init_correct: "is_heap (heap_Init h) \<and> mset (heap_Init h) = mset h"
  unfolding heap_Init_def
  by (rule heap_init_loop_correct) (auto simp: heap_from_def parent_def)

lemma heap_Push_correct:
  assumes "is_heap h"
  shows "is_heap (heap_Push h x) \<and> mset (heap_Push h x) = add_mset x (mset h)"
proof -
  have c: "parent k < length h" "parent k \<noteq> length h" if "0 < k" "k < Suc (length h)" for k
    using that parent_less [of k] by auto
  have "up_hole (h @ [x]) (length h)"
    unfolding up_hole_def
  proof (intro conjI allI impI)
    fix k assume "k < length (h @ [x])" "0 < k \<and> k \<noteq> length h"
    then show "hkey (h @ [x]) (parent k) \<le> hkey (h @ [x]) k"
      using assms c [of k] by (simp add: nth_append is_heap_def heap_from_def)
  next
    fix k assume "k < length (h @ [x])" "0 < k \<and> parent k = length h \<and> 0 < length h"
    then show "hkey (h @ [x]) (parent (length h)) \<le> hkey (h @ [x]) k" using c [of k] by simp
  qed
  then show ?thesis using heap_up_correct [of "h @ [x]" "length h"] by (simp add: heap_Push_def)
qed

lemma heap_Pop_correct:
  assumes heap: "is_heap h" and ne: "h \<noteq> []"
  shows "fst (heap_Pop h) = h ! 0 \<and> is_heap (snd (heap_Pop h))
    \<and> add_mset (h ! 0) (mset (snd (heap_Pop h))) = mset h"
proof -
  let ?n = "length h - 1" and ?s = "heap_Swap h 0 (length h - 1)"
  let ?d = "heap_down ?s 0 ?n"
  have n: "?n < length h" "0 < length h" using ne by auto
  have key: "hkey ?s k = (if k = 0 then hkey h ?n else if k = ?n then hkey h 0 else hkey h k)" for k
    using n by (intro key_heap_Swap) auto
  have "hkey ?s (parent k) \<le> hkey ?s k" if k: "k < ?n" "0 < k" "parent k \<noteq> 0" for k
    using heap k parent_less [of k] by (simp add: key is_heap_def heap_from_def del: One_nat_def)
  then have "down_hole ?s 0 0 ?n" by (simp add: down_hole_def)
  then have d: "heap_from ?d 0 ?n" "mset ?d = mset ?s" "?d ! ?n = ?s ! ?n"
    using heap_down_correct [of ?s 0 0 ?n] n by auto
  have top: "?s ! ?n = h ! 0" using n by (simp add: heap_Swap_def nth_list_update)
  have "?d = take ?n ?d @ [?d ! ?n]"
    using n by (metis One_nat_def Suc_pred diff_less length_heap_Swap length_heap_down
        lessI order.refl take_Suc_conv_app_nth take_all)
  then have "mset ?d = add_mset (?d ! ?n) (mset (take ?n ?d))"
    by (metis mset_append mset_single_iff_right union_mset_add_mset_right add_mset_add_single mset.simps)
  then have "mset h = add_mset (h ! 0) (mset (take ?n ?d))"
    using d top n by (simp add: mset_heap_Swap)
  moreover have "is_heap (take ?n ?d)"
    using d(1) n unfolding is_heap_def heap_from_def
    by (auto dest: parent_less)
  ultimately show ?thesis using d top by (simp add: heap_Pop_def Let_def)
qed

lemma length_heap_Pop [simp]: "length (snd (heap_Pop h)) = length h - 1"
  by (simp add: heap_Pop_def Let_def)

section \<open>The contract of the expiry queue\<close>

text \<open>
  What the set relies on: the items of the queue as a multiset, and that the first element of
  the array is the one \<open>Pop\<close> takes and is no later than any other.
\<close>

locale expiry_queue =
  fixes qinv :: "'q \<Rightarrow> bool"
    and items :: "'q \<Rightarrow> 'i multiset"
    and due :: "'i \<Rightarrow> int"
    and top :: "'q \<Rightarrow> 'i"
    and init :: "'i list \<Rightarrow> 'q"
    and push :: "'q \<Rightarrow> 'i \<Rightarrow> 'q"
    and pop :: "'q \<Rightarrow> 'q"
  assumes init_inv: "qinv (init xs)"
    and init_items: "items (init xs) = mset xs"
    and push_inv: "qinv q \<Longrightarrow> qinv (push q x)"
    and push_items: "qinv q \<Longrightarrow> items (push q x) = add_mset x (items q)"
    and pop_inv: "qinv q \<Longrightarrow> items q \<noteq> {#} \<Longrightarrow> qinv (pop q)"
    and pop_items: "qinv q \<Longrightarrow> items q \<noteq> {#} \<Longrightarrow> items q = add_mset (top q) (items (pop q))"
    and top_least: "qinv q \<Longrightarrow> x \<in># items q \<Longrightarrow> due (top q) \<le> due x"
begin

lemma push_all:
  "qinv q \<Longrightarrow> qinv (foldl push q xs) \<and> items (foldl push q xs) = items q + mset xs"
  by (induction xs arbitrary: q) (auto simp: push_inv push_items)

text \<open>When the first item is not due yet, no item is.\<close>

lemma none_due: "qinv q \<Longrightarrow> t < due (top q) \<Longrightarrow> x \<in># items q \<Longrightarrow> t < due x"
  using top_least by fastforce

lemma pop_top: "qinv q \<Longrightarrow> items q \<noteq> {#} \<Longrightarrow> top q \<in># items q"
  using pop_items by (metis multi_member_this add_mset_add_single union_single_eq_member)

lemma pop_subset: "qinv q \<Longrightarrow> items q \<noteq> {#} \<Longrightarrow> set_mset (items (pop q)) \<subseteq> set_mset (items q)"
  using pop_items by (metis set_mset_add_mset_insert subset_insertI)

end

interpretation exp_queue: expiry_queue is_heap mset x_exp "\<lambda>h. h ! 0" heap_Init heap_Push
  "\<lambda>h. snd (heap_Pop h)"
proof unfold_locales
  fix h :: expHeap and x
  assume "is_heap h" "x \<in># mset h"
  then show "x_exp (h ! 0) \<le> x_exp x" using heap_root_least [of h] by (auto simp: in_set_conv_nth)
qed (simp_all add: heap_Init_correct heap_Push_correct heap_Pop_correct)

end
