(* ===== verification/SetState.thy ===== *)
theory SetState
  imports Canon ExpHeap
begin

text \<open>
  \<open>src/internal/set/set.go\<close>: one active dataset. A set keeps the committed entries with their XOR
  hash and sequence number, a queue of expiries, and an overlay of planned changes that are on
  their way to the store (\<open>pend\<close>, \<open>pendSeq\<close>, \<open>pendHash\<close>, \<open>pendSize\<close>). \<open>Plan\<close> extends the overlay,
  \<open>Commit\<close> moves the oldest plan into the entries, \<open>Abort\<close> throws the overlay away. The mutex
  makes every operation one atomic step, so each is a function from the state to the state.
\<close>

section \<open>Data\<close>

record set_def =
  d_ID :: string
  d_Name :: string
  d_Type :: set_type
  d_Limit :: int
  d_TTL :: int
  d_Active :: bool
  d_Hash :: bool

record entry =
  e_Exp :: int
  e_Origin :: string
  e_Reason :: string
  e_hash :: u64

definition zero_entry :: entry where
  "zero_entry = \<lparr>e_Exp = 0, e_Origin = [], e_Reason = [], e_hash = 0\<rparr>"

record rec =
  r_Value :: string
  r_Exp :: int
  r_Origin :: string
  r_Reason :: string
  r_Prefix :: prefix

definition OpAdd :: string where "OpAdd = ''add''"
definition OpRemove :: string where "OpRemove = ''remove''"

lemma ops_distinct [simp]: "OpAdd \<noteq> OpRemove" "OpRemove \<noteq> OpAdd"
  by (simp_all add: OpAdd_def OpRemove_def)

record delta =
  dl_Op :: string
  dl_Rec :: rec
  dl_hash :: u64

record change =
  c_Seq :: u64
  c_Hash :: u64
  c_At :: int
  c_Deltas :: "delta list"

record pendEntry =
  pe_e :: entry
  pe_present :: bool
  pe_seq :: u64

type_synonym entries = "(string, entry) fmap"
type_synonym pending = "(string, pendEntry) fmap"

record sset =
  s_Def :: set_def
  s_epoch :: u64
  s_key :: "byte list"
  s_seq :: u64
  s_hash :: u64
  s_entries :: entries
  s_exp :: expHeap
  s_pend :: pending
  s_pendSeq :: u64
  s_pendHash :: u64
  s_pendSize :: int
  s_gen :: u64

record plan =
  pl_Deltas :: "delta list"
  pl_Rejected :: "rec list"
  pl_Seq :: u64
  pl_Hash :: u64
  pl_Gen :: u64

definition zero_plan :: plan where
  "zero_plan = \<lparr>pl_Deltas = [], pl_Rejected = [], pl_Seq = 0, pl_Hash = 0, pl_Gen = 0\<rparr>"

section \<open>Creation and loading\<close>

text \<open>The random bytes come from \<open>crypto/rand\<close> and are arguments.\<close>

definition randomU64 :: "byte list \<Rightarrow> u64" where
  "randomU64 b = (let v = le_word 8 b in if v = 0 then 1 else v)"

definition set_New :: "set_def \<Rightarrow> u64 \<Rightarrow> byte list \<Rightarrow> byte list \<Rightarrow> sset" where
  "set_New d seq0 rnd key =
     \<lparr>s_Def = d, s_epoch = randomU64 rnd, s_key = key, s_seq = seq0, s_hash = 0,
      s_entries = fmempty, s_exp = [], s_pend = fmempty, s_pendSeq = seq0, s_pendHash = 0,
      s_pendSize = 0, s_gen = 0\<rparr>"

definition hashOf :: "sset \<Rightarrow> rec \<Rightarrow> u64" where
  "hashOf s r =
     (if d_Type (s_Def s) = TypeCIDR \<and> prefix_IsValid (r_Prefix r)
      then SipHashBytes (s_key s) (PrefixMaterial (r_Prefix r))
      else HashValue (s_key s) (d_Type (s_Def s)) (r_Value r))"

definition settle :: "sset \<Rightarrow> sset" where
  "settle s =
     s\<lparr>s_pend := fmempty, s_pendSeq := s_seq s, s_pendHash := s_hash s,
       s_pendSize := map_len (s_entries s)\<rparr>"

definition load_step :: "rec \<Rightarrow> sset \<Rightarrow> sset" where
  "load_step r s =
     (let (e, h) = (case fmlookup (s_entries s) (r_Value r) of
                      Some e \<Rightarrow> (e, s_hash s)
                    | None \<Rightarrow> (zero_entry\<lparr>e_hash := hashOf s r\<rparr>, s_hash s XOR hashOf s r));
          e = e\<lparr>e_Exp := r_Exp r, e_Origin := r_Origin r, e_Reason := r_Reason r\<rparr>
      in s\<lparr>s_hash := h,
           s_entries := fmupd (r_Value r) e (s_entries s),
           s_exp := (if r_Exp r > 0 then s_exp s @ [\<lparr>x_value = r_Value r, x_exp = r_Exp r\<rparr>] else s_exp s)\<rparr>)"

definition load_recs :: "rec list \<Rightarrow> sset \<Rightarrow> sset" where
  "load_recs recs s =
     (let s = fold load_step recs (s\<lparr>s_hash := 0, s_entries := fmempty, s_exp := []\<rparr>)
      in settle (s\<lparr>s_exp := heap_Init (s_exp s)\<rparr>))"

definition set_Load :: "rec list \<Rightarrow> sset \<Rightarrow> sset" where
  "set_Load recs s = load_recs recs s"

definition set_Resume :: "u64 \<Rightarrow> byte list \<Rightarrow> u64 \<Rightarrow> rec list \<Rightarrow> sset \<Rightarrow> sset" where
  "set_Resume epoch key seq recs s =
     load_recs recs (s\<lparr>s_epoch := epoch, s_key := key, s_seq := seq\<rparr>)"

section \<open>Reading\<close>

definition set_State :: "sset \<Rightarrow> u64 \<times> u64 \<times> u64 \<times> byte list" where
  "set_State s = (s_epoch s, s_seq s, s_hash s, s_key s)"

definition set_Len :: "sset \<Rightarrow> int" where
  "set_Len s = map_len (s_entries s)"

definition set_Size :: "sset \<Rightarrow> int" where
  "set_Size s = s_pendSize s"

definition set_Gen :: "sset \<Rightarrow> u64" where
  "set_Gen s = s_gen s"

text \<open>\<open>lookup\<close>: the entry, whether it exists, and whether a plan in flight decides it.\<close>

definition set_lookup :: "sset \<Rightarrow> string \<Rightarrow> entry \<times> bool \<times> bool" where
  "set_lookup s v =
     (case fmlookup (s_pend s) v of
        Some p \<Rightarrow> (pe_e p, pe_present p, True)
      | None \<Rightarrow>
          (case fmlookup (s_entries s) v of
             Some e \<Rightarrow> (e, True, False)
           | None \<Rightarrow> (zero_entry, False, False)))"

definition set_exists :: "sset \<Rightarrow> string \<Rightarrow> bool" where
  "set_exists s v = fst (snd (set_lookup s v))"

definition set_Fresh :: "sset \<Rightarrow> string list \<Rightarrow> string fset \<Rightarrow> int" where
  "set_Fresh s values seen =
     int (length (filter (\<lambda>v. v |\<notin>| seen \<and> \<not> set_exists s v) values))"

definition set_Get :: "sset \<Rightarrow> string \<Rightarrow> entry option" where
  "set_Get s v = fmlookup (s_entries s) v"

text \<open>Times are nanoseconds since the Unix epoch; \<open>UnixMilli\<close> rounds down.\<close>

definition UnixMilli :: "int \<Rightarrow> int" where
  "UnixMilli now = now div 1000000"

definition set_Contains :: "sset \<Rightarrow> string \<Rightarrow> int \<Rightarrow> bool" where
  "set_Contains s v now =
     (case set_Get s v of None \<Rightarrow> False | Some e \<Rightarrow> e_Exp e = 0 \<or> e_Exp e > UnixMilli now)"

text \<open>Go iterates over a map in no fixed order: the order of the keys is an argument.\<close>

definition set_Snapshot :: "sset \<Rightarrow> string list \<Rightarrow> u64 \<times> u64 \<times> u64 \<times> byte list \<times> rec list" where
  "set_Snapshot s order =
     (s_epoch s, s_seq s, s_hash s, s_key s,
      concat (map (\<lambda>v. case fmlookup (s_entries s) v of
          None \<Rightarrow> []
        | Some e \<Rightarrow> [\<lparr>r_Value = v, r_Exp = e_Exp e, r_Origin = e_Origin e, r_Reason = e_Reason e,
                      r_Prefix = zero_prefix\<rparr>]) order))"

definition map_order :: "('k, 'v) fmap \<Rightarrow> 'k list \<Rightarrow> bool" where
  "map_order m order \<longleftrightarrow> distinct order \<and> set order = fset (fmdom m)"

section \<open>Plan\<close>

datatype plan_from = fromCommitted | fromBatch | fromFlight

record plan_acc =
  a_over :: pending
  a_size :: int
  a_hash :: u64
  a_applied :: "delta list"
  a_rejected :: "rec list"

definition plan_lookup :: "sset \<Rightarrow> pending \<Rightarrow> string \<Rightarrow> entry \<times> bool \<times> plan_from" where
  "plan_lookup s over v =
     (case fmlookup over v of
        Some p \<Rightarrow> (pe_e p, pe_present p, fromBatch)
      | None \<Rightarrow>
          (let (e, exists, planned) = set_lookup s v
           in (e, exists, if planned then fromFlight else fromCommitted)))"

definition plan_add :: "rec \<Rightarrow> u64 \<Rightarrow> plan_acc \<Rightarrow> plan_acc" where
  "plan_add r h acc =
     acc\<lparr>a_over := fmupd (r_Value r)
           \<lparr>pe_e = \<lparr>e_Exp = r_Exp r, e_Origin = r_Origin r, e_Reason = r_Reason r, e_hash = h\<rparr>,
            pe_present = True, pe_seq = 0\<rparr> (a_over acc),
         a_applied := a_applied acc @ [\<lparr>dl_Op = OpAdd, dl_Rec = r, dl_hash = h\<rparr>]\<rparr>"

definition plan_remove :: "rec \<Rightarrow> u64 \<Rightarrow> plan_acc \<Rightarrow> plan_acc" where
  "plan_remove r h acc =
     acc\<lparr>a_over := fmupd (r_Value r) \<lparr>pe_e = zero_entry, pe_present = False, pe_seq = 0\<rparr> (a_over acc),
         a_hash := a_hash acc XOR h,
         a_size := a_size acc - 1,
         a_applied := a_applied acc @ [\<lparr>dl_Op = OpRemove, dl_Rec = r\<lparr>r_Exp := 0\<rparr>, dl_hash = h\<rparr>]\<rparr>"

definition plan_step :: "sset \<Rightarrow> delta \<Rightarrow> plan_acc \<Rightarrow> plan_acc" where
  "plan_step s d acc =
     (let r = dl_Rec d;
          (cur, exists, from) = plan_lookup s (a_over acc) (r_Value r)
      in if dl_Op d = OpAdd then
           (if \<not> exists then
              (if d_Limit (s_Def s) > 0 \<and> a_size acc \<ge> d_Limit (s_Def s)
               then acc\<lparr>a_rejected := a_rejected acc @ [r]\<rparr>
               else let h = hashOf s r
                    in plan_add r h (acc\<lparr>a_hash := a_hash acc XOR h, a_size := a_size acc + 1\<rparr>))
            else if from \<noteq> fromFlight \<and> e_Exp cur = r_Exp r \<and> e_Origin cur = r_Origin r
                    \<and> e_Reason cur = r_Reason r
            then acc
            else plan_add r (e_hash cur) acc)
         else if dl_Op d = OpRemove then
           (if \<not> exists then acc else plan_remove r (e_hash cur) acc)
         else acc)"

definition plan_init :: "sset \<Rightarrow> plan_acc" where
  "plan_init s =
     \<lparr>a_over = fmempty, a_size = s_pendSize s, a_hash = s_pendHash s, a_applied = [], a_rejected = []\<rparr>"

definition set_Plan :: "delta list \<Rightarrow> sset \<Rightarrow> sset \<times> plan" where
  "set_Plan deltas s =
     (let acc = fold (plan_step s) deltas (plan_init s);
          seq = s_pendSeq s + 1
      in if a_applied acc = []
         then (s, \<lparr>pl_Deltas = [], pl_Rejected = a_rejected acc, pl_Seq = s_seq s,
                   pl_Hash = s_hash s, pl_Gen = s_gen s\<rparr>)
         else (s\<lparr>s_pend := s_pend s ++\<^sub>f fmmap (\<lambda>p. p\<lparr>pe_seq := seq\<rparr>) (a_over acc),
                 s_pendSeq := seq, s_pendHash := a_hash acc, s_pendSize := a_size acc\<rparr>,
               \<lparr>pl_Deltas = a_applied acc, pl_Rejected = a_rejected acc, pl_Seq = seq,
                pl_Hash = a_hash acc, pl_Gen = s_gen s\<rparr>))"

section \<open>Commit and Abort\<close>

definition delta_entry :: "delta \<Rightarrow> entry" where
  "delta_entry d =
     \<lparr>e_Exp = r_Exp (dl_Rec d), e_Origin = r_Origin (dl_Rec d), e_Reason = r_Reason (dl_Rec d),
      e_hash = dl_hash d\<rparr>"

definition commit_entry :: "delta \<Rightarrow> sset \<Rightarrow> sset" where
  "commit_entry d s =
     (let r = dl_Rec d;
          cur = fmlookup (s_entries s) (r_Value r)
      in if dl_Op d = OpAdd then
           s\<lparr>s_hash := (if cur = None then s_hash s XOR dl_hash d else s_hash s),
             s_entries := fmupd (r_Value r) (delta_entry d) (s_entries s),
             s_exp := (if r_Exp r > 0 \<and> (case cur of None \<Rightarrow> True | Some c \<Rightarrow> e_Exp c = 0 \<or> r_Exp r < e_Exp c)
                       then heap_Push (s_exp s) \<lparr>x_value = r_Value r, x_exp = r_Exp r\<rparr>
                       else s_exp s)\<rparr>
         else if dl_Op d = OpRemove then
           (case cur of
              None \<Rightarrow> s
            | Some c \<Rightarrow> s\<lparr>s_entries := fmdrop (r_Value r) (s_entries s), s_hash := s_hash s XOR e_hash c\<rparr>)
         else s)"

definition commit_pend :: "u64 \<Rightarrow> delta \<Rightarrow> sset \<Rightarrow> sset" where
  "commit_pend seq d s =
     (case fmlookup (s_pend s) (r_Value (dl_Rec d)) of
        Some q \<Rightarrow> if pe_seq q = seq then s\<lparr>s_pend := fmdrop (r_Value (dl_Rec d)) (s_pend s)\<rparr> else s
      | None \<Rightarrow> s)"

definition commit_step :: "u64 \<Rightarrow> delta \<Rightarrow> sset \<Rightarrow> sset" where
  "commit_step seq d s = commit_pend seq d (commit_entry d s)"

definition set_Commit :: "plan \<Rightarrow> int \<Rightarrow> sset \<Rightarrow> sset \<times> change option" where
  "set_Commit p now s =
     (if pl_Deltas p = [] then (s, None)
      else
        let s = fold (commit_step (pl_Seq p)) (pl_Deltas p) s;
            s = s\<lparr>s_seq := pl_Seq p\<rparr>;
            s = (if s_pend s = fmempty
                 then s\<lparr>s_pendSeq := s_seq s, s_pendHash := s_hash s, s_pendSize := map_len (s_entries s)\<rparr>
                 else s)
        in (s, Some \<lparr>c_Seq = s_seq s, c_Hash = s_hash s, c_At = now, c_Deltas = pl_Deltas p\<rparr>))"

definition set_Abort :: "sset \<Rightarrow> sset" where
  "set_Abort s = (let s = settle s in s\<lparr>s_gen := s_gen s + 1\<rparr>)"

section \<open>Expired\<close>

text \<open>
  The loop over the expiry queue: items that are due are popped; an item whose entry is gone is
  dropped, one whose entry was prolonged goes back with the new expiry, one that is current goes
  back as it is and its value is reported unless a plan in flight covers it.
\<close>

function expired_loop ::
  "sset \<Rightarrow> int \<Rightarrow> expHeap \<Rightarrow> string list \<Rightarrow> expItem list \<Rightarrow> expHeap \<times> string list \<times> expItem list" where
  "expired_loop s nowMs h out back =
     (if h = [] then (h, out, back)
      else
        let top = h ! 0
        in if x_exp top > nowMs then (h, out, back)
           else
             let h' = snd (heap_Pop h)
             in case fmlookup (s_entries s) (x_value top) of
                  None \<Rightarrow> expired_loop s nowMs h' out back
                | Some cur \<Rightarrow>
                    if e_Exp cur \<noteq> x_exp top then
                      expired_loop s nowMs h' out
                        (if e_Exp cur > x_exp top
                         then back @ [\<lparr>x_value = x_value top, x_exp = e_Exp cur\<rparr>] else back)
                    else
                      expired_loop s nowMs h'
                        (if fmlookup (s_pend s) (x_value top) \<noteq> None then out else out @ [x_value top])
                        (back @ [top]))"
  by pat_completeness auto
termination
  by (relation "measure (\<lambda>(s, nowMs, h, out, back). length h)") auto

declare expired_loop.simps [simp del]

definition set_Expired :: "int \<Rightarrow> sset \<Rightarrow> sset \<times> string list" where
  "set_Expired now s =
     (let (h, out, back) = expired_loop s (UnixMilli now) (s_exp s) [] []
      in (s\<lparr>s_exp := foldl heap_Push h back\<rparr>, out))"

lemmas [set_ops] =
  set_State_def set_Len_def set_Size_def set_Gen_def settle_def plan_add_def plan_remove_def

end
