(* ===== verification/SetInv.thy ===== *)
theory SetInv
  imports SetState
begin

text \<open>
  The correctness of a set's pipeline. \<open>replay\<close> is the abstract effect of a list of deltas on a
  map of entries. \<open>inflight s ps\<close> says that the set has planned, and not yet committed, exactly
  the plans \<open>ps\<close>: replaying them on the committed entries gives the planned view, with its
  hash, size and sequence numbers. \<open>Plan\<close> appends a plan, \<open>Commit\<close> removes the first one and
  \<open>Abort\<close> and loading empty the list.
\<close>

section \<open>Replaying deltas\<close>

definition apply_delta :: "delta \<Rightarrow> entries \<Rightarrow> entries" where
  "apply_delta d m =
     (if dl_Op d = OpAdd then fmupd (r_Value (dl_Rec d)) (delta_entry d) m
      else if dl_Op d = OpRemove then fmdrop (r_Value (dl_Rec d)) m
      else m)"

definition replay :: "delta list \<Rightarrow> entries \<Rightarrow> entries" where
  "replay ds m = fold apply_delta ds m"

definition hsum :: "entries \<Rightarrow> u64" where
  "hsum m = xor_over e_hash m"

text \<open>A delta whose hash agrees with the entry it replaces or removes, and that removes only what exists.\<close>

definition good_delta :: "delta \<Rightarrow> entries \<Rightarrow> bool" where
  "good_delta d m \<longleftrightarrow>
     dl_Op d = OpAdd \<and> (\<forall>e. fmlookup m (r_Value (dl_Rec d)) = Some e \<longrightarrow> e_hash e = dl_hash d) \<or>
     dl_Op d = OpRemove \<and> (\<exists>e. fmlookup m (r_Value (dl_Rec d)) = Some e \<and> e_hash e = dl_hash d)"

fun good_run :: "delta list \<Rightarrow> entries \<Rightarrow> bool" where
  "good_run [] m = True"
| "good_run (d # ds) m = (good_delta d m \<and> good_run ds (apply_delta d m))"

lemma replay_simps [simp]:
  "replay [] m = m"
  "replay (d # ds) m = replay ds (apply_delta d m)"
  "replay (ds @ ds') m = replay ds' (replay ds m)"
  by (simp_all add: replay_def)

lemma good_run_append [simp]:
  "good_run (ds @ ds') m \<longleftrightarrow> good_run ds m \<and> good_run ds' (replay ds m)"
  by (induction ds arbitrary: m) auto

definition touched :: "delta list \<Rightarrow> string set" where
  "touched ds = (\<lambda>d. r_Value (dl_Rec d)) ` set ds"

lemma touched_simps [simp]:
  "touched [] = {}"
  "touched (d # ds) = insert (r_Value (dl_Rec d)) (touched ds)"
  "touched (ds @ ds') = touched ds \<union> touched ds'"
  by (auto simp: touched_def)

lemma apply_delta_other: "v \<noteq> r_Value (dl_Rec d) \<Longrightarrow> fmlookup (apply_delta d m) v = fmlookup m v"
  by (simp add: apply_delta_def)

lemma replay_untouched: "v \<notin> touched ds \<Longrightarrow> fmlookup (replay ds m) v = fmlookup m v"
  by (induction ds arbitrary: m) (auto simp: apply_delta_other)

lemma hsum_empty [simp]: "hsum fmempty = 0"
  by (simp add: hsum_def)

text \<open>The effect of one good delta on hash and size.\<close>

lemma good_delta_hsum:
  assumes "good_delta d m"
  shows "hsum (apply_delta d m) =
    (if dl_Op d = OpAdd \<and> fmlookup m (r_Value (dl_Rec d)) \<noteq> None then hsum m else hsum m XOR dl_hash d)"
proof (cases "fmlookup m (r_Value (dl_Rec d))")
  case None
  with assms show ?thesis
    by (auto simp: good_delta_def apply_delta_def hsum_def xor_over_insert delta_entry_def)
next
  case (Some e)
  with assms have h: "e_hash e = dl_hash d" by (auto simp: good_delta_def)
  show ?thesis
  proof (cases "dl_Op d = OpAdd")
    case True
    have "e_hash (delta_entry d) = e_hash e" using h by (simp add: delta_entry_def)
    with True Some show ?thesis by (simp add: apply_delta_def hsum_def xor_over_replace)
  next
    case False
    with assms Some h show ?thesis
      by (auto simp: good_delta_def apply_delta_def hsum_def xor_over_drop)
  qed
qed

section \<open>Overlays\<close>

text \<open>\<open>is_view m pend base\<close>: \<open>m\<close> is \<open>base\<close> with the changes of \<open>pend\<close> on top.\<close>

definition is_view :: "entries \<Rightarrow> pending \<Rightarrow> entries \<Rightarrow> bool" where
  "is_view m pend base \<longleftrightarrow>
     (\<forall>v. fmlookup m v = (case fmlookup pend v of
            Some p \<Rightarrow> if pe_present p then Some (pe_e p) else None
          | None \<Rightarrow> fmlookup base v))"

lemma is_view_empty [simp]: "is_view m fmempty base \<longleftrightarrow> m = base"
  by (auto simp: is_view_def intro: fmap_ext)

lemma is_viewD:
  "is_view m pend base \<Longrightarrow> fmlookup m v = (case fmlookup pend v of
            Some p \<Rightarrow> if pe_present p then Some (pe_e p) else None
          | None \<Rightarrow> fmlookup base v)"
  by (simp add: is_view_def)

lemma is_view_overlay:
  assumes "is_view m pend base" and "is_view m' over m"
  shows "is_view m' (pend ++\<^sub>f fmmap (\<lambda>p. p\<lparr>pe_seq := q\<rparr>) over) base"
  unfolding is_view_def
proof
  fix v
  show "fmlookup m' v = (case fmlookup (pend ++\<^sub>f fmmap (\<lambda>p. p\<lparr>pe_seq := q\<rparr>) over) v of
            Some p \<Rightarrow> if pe_present p then Some (pe_e p) else None
          | None \<Rightarrow> fmlookup base v)"
    using is_viewD [OF assms(1), of v] is_viewD [OF assms(2), of v]
    by (cases "fmlookup over v") (auto simp: fmdom_notI fmdomI fmlookup_dom_iff)
qed

section \<open>Plan\<close>

text \<open>
  What the accumulator of \<open>Plan\<close> stands for: the deltas applied so far turn the planned view \<open>m\<close>
  into \<open>m'\<close>.
\<close>

definition acc_ok :: "sset \<Rightarrow> entries \<Rightarrow> entries \<Rightarrow> plan_acc \<Rightarrow> bool" where
  "acc_ok s m m' acc \<longleftrightarrow>
     is_view m' (a_over acc) m \<and> m' = replay (a_applied acc) m \<and> good_run (a_applied acc) m
     \<and> a_hash acc = hsum m' \<and> a_size acc = map_len m'
     \<and> fset (fmdom (a_over acc)) = touched (a_applied acc)"

lemma acc_ok_view: "acc_ok s m m' acc \<Longrightarrow> is_view m' (a_over acc) m"
  unfolding acc_ok_def by blast

lemma plan_lookup_view:
  assumes "is_view m (s_pend s) (s_entries s)" and "is_view m' over m"
    and "plan_lookup s over v = (cur, exists, from)"
  shows "fmlookup m' v = (if exists then Some cur else None)"
  using assms(3) is_viewD [OF assms(1), of v] is_viewD [OF assms(2), of v]
  by (auto simp: plan_lookup_def set_lookup_def split: option.splits)

lemma is_view_upd: "is_view m' over m \<Longrightarrow> pe_present p \<Longrightarrow>
    is_view (fmupd v (pe_e p) m') (fmupd v p over) m"
  by (auto simp: is_view_def)

lemma is_view_drop: "is_view m' over m \<Longrightarrow> \<not> pe_present p \<Longrightarrow>
    is_view (fmdrop v m') (fmupd v p over) m"
  by (auto simp: is_view_def)

lemma acc_ok_add_new:
  assumes ok: "acc_ok s m m' acc" and new: "fmlookup m' (r_Value r) = None"
  shows "\<exists>m''. acc_ok s m m'' (plan_add r h (acc\<lparr>a_hash := a_hash acc XOR h, a_size := a_size acc + 1\<rparr>))"
proof -
  let ?d = "\<lparr>dl_Op = OpAdd, dl_Rec = r, dl_hash = h\<rparr>"
  have good: "good_delta ?d m'" using new by (simp add: good_delta_def)
  have "hsum (apply_delta ?d m') = hsum m' XOR h" using good_delta_hsum [OF good] new by simp
  moreover have "map_len (apply_delta ?d m') = map_len m' + 1"
    using new fcard_fmupd [of "r_Value r" "delta_entry ?d" m'] by (simp add: apply_delta_def)
  ultimately have "acc_ok s m (apply_delta ?d m')
      (plan_add r h (acc\<lparr>a_hash := a_hash acc XOR h, a_size := a_size acc + 1\<rparr>))"
    using ok good unfolding acc_ok_def plan_add_def
    by (auto simp: apply_delta_def delta_entry_def intro!: is_view_upd [where p = "\<lparr>pe_e = _, pe_present = _, pe_seq = _\<rparr>", simplified])
  then show ?thesis by blast
qed

lemma acc_ok_add_old:
  assumes ok: "acc_ok s m m' acc" and old: "fmlookup m' (r_Value r) = Some e" and h: "h = e_hash e"
  shows "\<exists>m''. acc_ok s m m'' (plan_add r h acc)"
proof -
  let ?d = "\<lparr>dl_Op = OpAdd, dl_Rec = r, dl_hash = h\<rparr>"
  have good: "good_delta ?d m'" using old h by (simp add: good_delta_def)
  have "hsum (apply_delta ?d m') = hsum m'" using good_delta_hsum [OF good] old by simp
  moreover have "map_len (apply_delta ?d m') = map_len m'"
    using old fcard_fmupd [of "r_Value r" "delta_entry ?d" m'] by (simp add: apply_delta_def)
  ultimately have "acc_ok s m (apply_delta ?d m') (plan_add r h acc)"
    using ok good unfolding acc_ok_def plan_add_def
    by (auto simp: apply_delta_def delta_entry_def intro!: is_view_upd [where p = "\<lparr>pe_e = _, pe_present = _, pe_seq = _\<rparr>", simplified])
  then show ?thesis by blast
qed

lemma acc_ok_remove:
  assumes ok: "acc_ok s m m' acc" and old: "fmlookup m' (r_Value r) = Some e" and h: "h = e_hash e"
  shows "\<exists>m''. acc_ok s m m'' (plan_remove r h acc)"
proof -
  let ?d = "\<lparr>dl_Op = OpRemove, dl_Rec = r\<lparr>r_Exp := 0\<rparr>, dl_hash = h\<rparr>"
  have good: "good_delta ?d m'" using old h by (simp add: good_delta_def)
  have "hsum (apply_delta ?d m') = hsum m' XOR h" using good_delta_hsum [OF good] by simp
  moreover have "map_len (apply_delta ?d m') = map_len m' - 1"
    using map_len_fmdrop [OF old] by (simp add: apply_delta_def)
  ultimately have "acc_ok s m (apply_delta ?d m') (plan_remove r h acc)"
    using ok good unfolding acc_ok_def plan_remove_def
    by (auto simp: apply_delta_def intro!: is_view_drop)
  then show ?thesis by blast
qed

lemma plan_step_ok:
  assumes view: "is_view m (s_pend s) (s_entries s)" and ok: "acc_ok s m m' acc"
  shows "\<exists>m''. acc_ok s m m'' (plan_step s d acc)"
proof -
  obtain cur exists "from" where l: "plan_lookup s (a_over acc) (r_Value (dl_Rec d)) = (cur, exists, from)"
    by (cases "plan_lookup s (a_over acc) (r_Value (dl_Rec d))") auto
  have m': "fmlookup m' (r_Value (dl_Rec d)) = (if exists then Some cur else None)"
    by (rule plan_lookup_view [OF view acc_ok_view [OF ok] l])
  have rej: "acc_ok s m m' (acc\<lparr>a_rejected := x\<rparr>)" for x using ok by (auto simp: acc_ok_def)
  show ?thesis
    using ok rej m' acc_ok_add_new [OF ok] acc_ok_add_old [OF ok] acc_ok_remove [OF ok]
    unfolding plan_step_def Let_def l by (cases exists) auto
qed

lemma plan_fold_ok:
  assumes "is_view m (s_pend s) (s_entries s)" and "acc_ok s m m' acc"
  shows "\<exists>m''. acc_ok s m m'' (fold (plan_step s) ds acc)"
  using assms(2)
proof (induction ds arbitrary: m' acc)
  case (Cons d ds)
  then obtain m1 where "acc_ok s m m1 (plan_step s d acc)" using plan_step_ok [OF assms(1)] by blast
  with Cons.IH show ?case by simp
qed auto

section \<open>Plans in flight\<close>

text \<open>
  A chain of plans on top of a map: each has deltas, each delta is good where it applies, the
  sequence numbers count up by one and each plan carries the hash of its result.
\<close>

fun chain :: "entries \<Rightarrow> u64 \<Rightarrow> u64 \<Rightarrow> plan list \<Rightarrow> bool" where
  "chain m q g [] = True"
| "chain m q g (p # ps) =
     (pl_Deltas p \<noteq> [] \<and> good_run (pl_Deltas p) m \<and> pl_Seq p = q + 1
      \<and> pl_Hash p = hsum (replay (pl_Deltas p) m) \<and> pl_Gen p = g
      \<and> chain (replay (pl_Deltas p) m) (q + 1) g ps)"

definition final :: "plan list \<Rightarrow> entries \<Rightarrow> entries" where
  "final ps m = replay (concat (map pl_Deltas ps)) m"

lemma final_simps [simp]:
  "final [] m = m"
  "final (p # ps) m = final ps (replay (pl_Deltas p) m)"
  "final (ps @ [p]) m = replay (pl_Deltas p) (final ps m)"
  by (simp_all add: final_def)

text \<open>The sequence number of the last plan that touches a value.\<close>

fun last_touch :: "string \<Rightarrow> plan list \<Rightarrow> u64 option" where
  "last_touch v [] = None"
| "last_touch v (p # ps) =
     (case last_touch v ps of
        Some q \<Rightarrow> Some q
      | None \<Rightarrow> if v \<in> touched (pl_Deltas p) then Some (pl_Seq p) else None)"

definition inflight :: "sset \<Rightarrow> plan list \<Rightarrow> bool" where
  "inflight s ps \<longleftrightarrow>
     s_hash s = hsum (s_entries s)
     \<and> chain (s_entries s) (s_seq s) (s_gen s) ps
     \<and> is_view (final ps (s_entries s)) (s_pend s) (s_entries s)
     \<and> (\<forall>v. map_option pe_seq (fmlookup (s_pend s) v) = last_touch v ps)
     \<and> s_pendSeq s = s_seq s + of_nat (length ps)
     \<and> s_pendHash s = hsum (final ps (s_entries s))
     \<and> s_pendSize s = map_len (final ps (s_entries s))"

lemma chain_append:
  "chain m q g (ps @ [p]) \<longleftrightarrow> chain m q g ps \<and>
     chain (final ps m) (q + of_nat (length ps)) g [p]"
  by (induction ps arbitrary: m q) (auto simp: add.assoc add.commute)

lemma last_touch_append:
  "last_touch v (ps @ [p]) = (if v \<in> touched (pl_Deltas p) then Some (pl_Seq p) else last_touch v ps)"
  by (induction ps) (auto split: option.splits)

lemma last_touch_None: "last_touch v ps = None \<longleftrightarrow> (\<forall>p\<in>set ps. v \<notin> touched (pl_Deltas p))"
  by (induction ps) (auto split: option.splits)

lemma final_untouched: "last_touch v ps = None \<Longrightarrow> fmlookup (final ps m) v = fmlookup m v"
  unfolding final_def last_touch_None
  by (rule replay_untouched) (auto simp: touched_def)

text \<open>The sequence numbers of fewer than \<open>2^64\<close> plans in flight are distinct.\<close>

lemma chain_seq: "chain m q g ps \<Longrightarrow> i < length ps \<Longrightarrow> pl_Seq (ps ! i) = q + of_nat (Suc i)"
proof (induction ps arbitrary: m q i)
  case (Cons p ps)
  then show ?case by (cases i) (auto simp: add.assoc)
qed simp

lemma last_touch_seq:
  "last_touch v ps = Some x \<Longrightarrow> \<exists>i<length ps. x = pl_Seq (ps ! i) \<and> v \<in> touched (pl_Deltas (ps ! i))"
proof (induction ps)
  case (Cons p ps)
  show ?case
  proof (cases "last_touch v ps")
    case None
    with Cons.prems show ?thesis by (intro exI [of _ 0]) (auto split: if_splits)
  next
    case (Some y)
    with Cons obtain i where "i < length ps" "x = pl_Seq (ps ! i)" "v \<in> touched (pl_Deltas (ps ! i))"
      by auto
    then show ?thesis by (intro exI [of _ "Suc i"]) simp
  qed
qed simp

lemma of_nat_u64_eq: "i < 2 ^ 64 \<Longrightarrow> j < 2 ^ 64 \<Longrightarrow> (of_nat i :: u64) = of_nat j \<longleftrightarrow> i = j"
  by (simp add: word_of_nat_eq_iff take_bit_nat_eq_self)

lemma later_seq_differs:
  assumes "chain m q g (p # ps)" and "last_touch v ps = Some x" and "length ps < 2 ^ 64 - 1"
  shows "x \<noteq> pl_Seq p"
proof -
  obtain i where i: "i < length ps" "x = pl_Seq (ps ! i)" using last_touch_seq [OF assms(2)] by blast
  have "x = q + of_nat (Suc (Suc i))"
    using chain_seq [OF assms(1), of "Suc i"] i by simp
  moreover have "pl_Seq p = q + of_nat (Suc 0)" using assms(1) by simp
  moreover have "(of_nat (Suc (Suc i)) :: u64) \<noteq> of_nat (Suc 0)"
    using of_nat_u64_eq [of "Suc (Suc i)" "Suc 0"] i assms(3) by simp
  ultimately show ?thesis by (metis add_left_cancel)
qed

section \<open>The operations preserve the invariant\<close>

lemma inflight_nil:
  "inflight s [] \<longleftrightarrow> s_hash s = hsum (s_entries s) \<and> s_pend s = fmempty \<and> s_pendSeq s = s_seq s
     \<and> s_pendHash s = s_hash s \<and> s_pendSize s = map_len (s_entries s)"
  by (auto simp: inflight_def intro!: fmap_ext)

lemma inflight_settle: "s_hash s = hsum (s_entries s) \<Longrightarrow> inflight (settle s) []"
  by (simp add: inflight_nil settle_def)

lemma set_New_inflight: "inflight (set_New d q rnd key) []"
  by (simp add: inflight_nil set_New_def)

lemma set_Abort_inflight: "inflight s ps \<Longrightarrow> inflight (set_Abort s) []"
  by (simp add: inflight_nil set_Abort_def settle_def inflight_def Let_def)

lemma load_step_hash:
  "s_hash s = hsum (s_entries s) \<Longrightarrow> s_hash (load_step r s) = hsum (s_entries (load_step r s))"
  by (cases "fmlookup (s_entries s) (r_Value r)")
    (auto simp: load_step_def Let_def hsum_def xor_over_insert xor_over_replace)

lemma load_fold_hash:
  "s_hash s = hsum (s_entries s) \<Longrightarrow>
   s_hash (fold load_step recs s) = hsum (s_entries (fold load_step recs s))"
  by (induction recs arbitrary: s) (auto intro: load_step_hash)

lemma load_recs_inflight: "inflight (load_recs recs s) []"
  unfolding load_recs_def Let_def
  by (rule inflight_settle) (simp add: load_fold_hash)

lemma plan_init_ok:
  assumes "inflight s ps"
  shows "acc_ok s (final ps (s_entries s)) (final ps (s_entries s)) (plan_init s)"
  using assms by (simp add: inflight_def acc_ok_def plan_init_def)

lemma set_Plan_inflight:
  assumes inv: "inflight s ps" and plan: "set_Plan ds s = (s', p)"
  shows "if pl_Deltas p = [] then s' = s else inflight s' (ps @ [p])"
proof -
  let ?m = "final ps (s_entries s)"
  let ?acc = "fold (plan_step s) ds (plan_init s)"
  have view: "is_view ?m (s_pend s) (s_entries s)" using inv by (simp add: inflight_def)
  obtain m' where ok: "acc_ok s ?m m' ?acc"
    using plan_fold_ok [OF view plan_init_ok [OF inv]] by blast
  show ?thesis
  proof (cases "a_applied ?acc = []")
    case True
    with plan show ?thesis by (auto simp: set_Plan_def Let_def)
  next
    case False
    let ?q = "s_pendSeq s + 1"
    have p: "pl_Deltas p = a_applied ?acc" "pl_Seq p = ?q" "pl_Hash p = a_hash ?acc" "pl_Gen p = s_gen s"
      and s': "s' = s\<lparr>s_pend := s_pend s ++\<^sub>f fmmap (\<lambda>p. p\<lparr>pe_seq := ?q\<rparr>) (a_over ?acc),
                 s_pendSeq := ?q, s_pendHash := a_hash ?acc, s_pendSize := a_size ?acc\<rparr>"
      using plan False by (auto simp: set_Plan_def Let_def)
    have m': "m' = replay (pl_Deltas p) ?m" using ok p by (simp add: acc_ok_def)
    have touch: "v |\<in>| fmdom (a_over ?acc) \<longleftrightarrow> v \<in> touched (pl_Deltas p)" for v
      using ok p by (simp add: acc_ok_def)
    have "chain (s_entries s) (s_seq s) (s_gen s) (ps @ [p])"
      using inv ok p False m' unfolding chain_append by (simp add: inflight_def acc_ok_def)
    moreover have "is_view m' (s_pend s') (s_entries s)"
      using is_view_overlay [OF view acc_ok_view [OF ok], of ?q] s' by simp
    moreover have "map_option pe_seq (fmlookup (s_pend s') v) = last_touch v (ps @ [p])" for v
    proof (cases "v |\<in>| fmdom (a_over ?acc)")
      case True
      then obtain x where "fmlookup (a_over ?acc) v = Some x" by (auto simp: fmlookup_dom_iff)
      with True touch p s' show ?thesis by (simp add: last_touch_append)
    next
      case False
      with touch inv s' show ?thesis by (simp add: last_touch_append inflight_def)
    qed
    ultimately have "inflight s' (ps @ [p])"
      using inv ok s' p m' unfolding inflight_def acc_ok_def by simp
    with False p show ?thesis by simp
  qed
qed

text \<open>Committing a good delta applies it and keeps the hash the sum over the entries.\<close>

lemma commit_entry_apply:
  assumes "s_hash s = hsum (s_entries s)" and "good_delta d (s_entries s)"
  shows "s_entries (commit_entry d s) = apply_delta d (s_entries s)
    \<and> s_hash (commit_entry d s) = hsum (apply_delta d (s_entries s))"
  using good_delta_hsum [OF assms(2)] assms
  by (auto simp: commit_entry_def Let_def apply_delta_def good_delta_def split: option.splits)

lemma commit_entry_frame [simp]:
  "s_pend (commit_entry d s) = s_pend s" "s_seq (commit_entry d s) = s_seq s"
  "s_gen (commit_entry d s) = s_gen s" "s_pendSeq (commit_entry d s) = s_pendSeq s"
  "s_pendHash (commit_entry d s) = s_pendHash s" "s_pendSize (commit_entry d s) = s_pendSize s"
  "s_Def (commit_entry d s) = s_Def s" "s_key (commit_entry d s) = s_key s"
  "s_epoch (commit_entry d s) = s_epoch s"
  by (auto simp: commit_entry_def Let_def split: option.splits)

lemma commit_pend_frame [simp]:
  "s_entries (commit_pend q d s) = s_entries s" "s_hash (commit_pend q d s) = s_hash s"
  "s_seq (commit_pend q d s) = s_seq s" "s_gen (commit_pend q d s) = s_gen s"
  "s_pendSeq (commit_pend q d s) = s_pendSeq s" "s_pendHash (commit_pend q d s) = s_pendHash s"
  "s_pendSize (commit_pend q d s) = s_pendSize s" "s_exp (commit_pend q d s) = s_exp s"
  "s_Def (commit_pend q d s) = s_Def s" "s_key (commit_pend q d s) = s_key s"
  "s_epoch (commit_pend q d s) = s_epoch s"
  by (auto simp: commit_pend_def split: option.splits)

lemma commit_pend_lookup:
  "fmlookup (s_pend (commit_pend q d s)) v =
     (if v = r_Value (dl_Rec d) \<and> map_option pe_seq (fmlookup (s_pend s) v) = Some q then None
      else fmlookup (s_pend s) v)"
  by (auto simp: commit_pend_def split: option.splits)

abbreviation commit_fold :: "u64 \<Rightarrow> delta list \<Rightarrow> sset \<Rightarrow> sset" where
  "commit_fold q ds s \<equiv> fold (commit_step q) ds s"

lemma commit_fold_frame [simp]:
  "s_seq (commit_fold q ds s) = s_seq s" "s_gen (commit_fold q ds s) = s_gen s"
  "s_pendSeq (commit_fold q ds s) = s_pendSeq s" "s_pendHash (commit_fold q ds s) = s_pendHash s"
  "s_pendSize (commit_fold q ds s) = s_pendSize s" "s_Def (commit_fold q ds s) = s_Def s"
  "s_key (commit_fold q ds s) = s_key s" "s_epoch (commit_fold q ds s) = s_epoch s"
  by (induction ds arbitrary: s) (simp_all add: commit_step_def)

lemma commit_fold_entries:
  assumes "s_hash s = hsum (s_entries s)" and "good_run ds (s_entries s)"
  shows "s_entries (commit_fold q ds s) = replay ds (s_entries s)
    \<and> s_hash (commit_fold q ds s) = hsum (replay ds (s_entries s))"
  using assms
proof (induction ds arbitrary: s)
  case (Cons d ds)
  have c: "s_entries (commit_step q d s) = apply_delta d (s_entries s)"
    "s_hash (commit_step q d s) = hsum (apply_delta d (s_entries s))"
    using commit_entry_apply Cons.prems by (auto simp: commit_step_def)
  with Cons.IH [of "commit_step q d s"] Cons.prems show ?case by simp
qed simp

lemma commit_fold_pend:
  "fmlookup (s_pend (commit_fold q ds s)) v =
     (if v \<in> touched ds \<and> map_option pe_seq (fmlookup (s_pend s) v) = Some q then None
      else fmlookup (s_pend s) v)"
proof (induction ds arbitrary: s)
  case (Cons d ds)
  show ?case
    unfolding fold_Cons comp_apply Cons.IH by (auto simp: commit_step_def commit_pend_lookup)
qed simp

lemma set_Commit_fields:
  assumes "pl_Deltas p \<noteq> []"
  shows "s_entries (fst (set_Commit p now s)) = s_entries (commit_fold (pl_Seq p) (pl_Deltas p) s)"
    and "s_hash (fst (set_Commit p now s)) = s_hash (commit_fold (pl_Seq p) (pl_Deltas p) s)"
    and "s_pend (fst (set_Commit p now s)) = s_pend (commit_fold (pl_Seq p) (pl_Deltas p) s)"
    and "s_seq (fst (set_Commit p now s)) = pl_Seq p"
    and "s_gen (fst (set_Commit p now s)) = s_gen s"
    and "s_exp (fst (set_Commit p now s)) = s_exp (commit_fold (pl_Seq p) (pl_Deltas p) s)"
    and "s_Def (fst (set_Commit p now s)) = s_Def s"
    and "s_key (fst (set_Commit p now s)) = s_key s"
    and "s_epoch (fst (set_Commit p now s)) = s_epoch s"
    and "snd (set_Commit p now s) = Some \<lparr>c_Seq = pl_Seq p,
      c_Hash = s_hash (fst (set_Commit p now s)), c_At = now, c_Deltas = pl_Deltas p\<rparr>"
  using assms by (simp_all add: set_Commit_def Let_def)

lemma chain_touches:
  assumes "chain m q g ps" and "\<And>v. last_touch v ps = None"
  shows "ps = []"
proof (cases ps)
  case (Cons p qs)
  then obtain d ds where "pl_Deltas p = d # ds" using assms(1) by (cases "pl_Deltas p") auto
  then have "last_touch (r_Value (dl_Rec d)) ps \<noteq> None" unfolding last_touch_None Cons by simp
  with assms(2) show ?thesis by simp
qed

lemma inflight_touch: "inflight s ps \<Longrightarrow> map_option pe_seq (fmlookup (s_pend s) v) = last_touch v ps"
  by (simp add: inflight_def)

text \<open>A commit of the oldest plan clears the pending values that no later plan touches.\<close>

lemma set_Commit_pend:
  assumes inv: "inflight s (p # ps)" and len: "length ps < 2 ^ 64 - 1"
  shows "fmlookup (s_pend (fst (set_Commit p now s))) v = (if last_touch v ps = None then None else fmlookup (s_pend s) v)"
proof -
  have ch: "chain (s_entries s) (s_seq s) (s_gen s) (p # ps)" using inv by (simp add: inflight_def)
  then have "pl_Deltas p \<noteq> []" by auto
  note f = set_Commit_fields [OF this, of now s] and touch = inflight_touch [OF inv, of v]
  show ?thesis
  proof (cases "last_touch v ps")
    case None
    with touch show ?thesis unfolding f commit_fold_pend by auto
  next
    case (Some x)
    with later_seq_differs [OF ch Some len] touch show ?thesis unfolding f commit_fold_pend by auto
  qed
qed

lemma set_Commit_view:
  assumes inv: "inflight s (p # ps)" and len: "length ps < 2 ^ 64 - 1"
  shows "is_view (final ps (replay (pl_Deltas p) (s_entries s))) (s_pend (fst (set_Commit p now s))) (replay (pl_Deltas p) (s_entries s))"
    (is "is_view (final ps ?m) (s_pend ?s) ?m")
  unfolding is_view_def
proof
  fix v
  note pend = set_Commit_pend [OF inv len, of now v]
  have old: "fmlookup (final ps ?m) v = (case fmlookup (s_pend s) v of
      Some p \<Rightarrow> if pe_present p then Some (pe_e p) else None | None \<Rightarrow> fmlookup (s_entries s) v)"
    using inv is_viewD [of _ "s_pend s" "s_entries s" v] by (simp add: inflight_def)
  show "fmlookup (final ps ?m) v = (case fmlookup (s_pend ?s) v of
      Some p \<Rightarrow> if pe_present p then Some (pe_e p) else None | None \<Rightarrow> fmlookup ?m v)"
  proof (cases "last_touch v ps")
    case None
    then show ?thesis using pend final_untouched by simp
  next
    case (Some x)
    then have "fmlookup (s_pend s) v \<noteq> None" using inflight_touch [OF inv, of v] by auto
    then show ?thesis using Some pend old by auto
  qed
qed

theorem set_Commit_inflight:
  assumes inv: "inflight s (p # ps)" and len: "length ps < 2 ^ 64 - 1"
  shows "inflight (fst (set_Commit p now s)) ps"
    and "snd (set_Commit p now s) = Some \<lparr>c_Seq = pl_Seq p, c_Hash = pl_Hash p, c_At = now, c_Deltas = pl_Deltas p\<rparr>"
    and "s_entries (fst (set_Commit p now s)) = replay (pl_Deltas p) (s_entries s)"
proof -
  let ?q = "pl_Seq p" and ?ds = "pl_Deltas p" and ?s = "fst (set_Commit p now s)"
  let ?m = "replay (pl_Deltas p) (s_entries s)"
  have ch: "chain (s_entries s) (s_seq s) (s_gen s) (p # ps)" using inv by (simp add: inflight_def)
  then have ne: "?ds \<noteq> []" and q: "?q = s_seq s + 1" and good: "good_run ?ds (s_entries s)" by auto
  note f = set_Commit_fields [OF ne, of now s]
  have ent: "s_entries ?s = ?m" and hash: "s_hash ?s = hsum ?m"
    using commit_fold_entries [OF _ good] inv f by (auto simp: inflight_def)
  have touched: "map_option pe_seq (fmlookup (s_pend ?s) v) = last_touch v ps" for v
    using set_Commit_pend [OF inv len, of now v] inflight_touch [OF inv, of v] by (cases "last_touch v ps") auto
  show "inflight ?s ps"
  proof (cases "s_pend ?s = fmempty")
    case True
    then have "last_touch v ps = None" for v using touched [of v] by simp
    then have "ps = []" using chain_touches ch by auto
    with True ent hash f ne show ?thesis by (simp add: inflight_nil set_Commit_def Let_def)
  next
    case False
    then have "s_pendSeq ?s = s_pendSeq s" "s_pendHash ?s = s_pendHash s" "s_pendSize ?s = s_pendSize s"
      using ne f by (auto simp: set_Commit_def Let_def)
    then show ?thesis using inv ch q set_Commit_view [OF inv len, of now] touched ent hash f unfolding inflight_def by simp
  qed
  show "s_entries ?s = ?m" by (rule ent)
  show "snd (set_Commit p now s) = Some \<lparr>c_Seq = ?q, c_Hash = pl_Hash p, c_At = now, c_Deltas = ?ds\<rparr>"
    using f hash ch by simp
qed


section \<open>The limit\<close>

lemma plan_step_limit:
  assumes "0 < d_Limit (s_Def s)" and "a_size acc \<le> d_Limit (s_Def s)"
  shows "a_size (plan_step s d acc) \<le> d_Limit (s_Def s)"
  using assms by (auto simp: plan_step_def Let_def plan_add_def plan_remove_def split: prod.splits)

lemma plan_fold_limit:
  "0 < d_Limit (s_Def s) \<Longrightarrow> a_size acc \<le> d_Limit (s_Def s) \<Longrightarrow>
   a_size (fold (plan_step s) ds acc) \<le> d_Limit (s_Def s)"
  by (induction ds arbitrary: acc) (auto intro: plan_step_limit)

lemma set_Plan_limit:
  assumes "0 < d_Limit (s_Def s)" and "s_pendSize s \<le> d_Limit (s_Def s)"
  shows "s_pendSize (fst (set_Plan ds s)) \<le> d_Limit (s_Def s)"
  using plan_fold_limit [of s "plan_init s" ds] assms by (simp add: set_Plan_def Let_def plan_init_def)

section \<open>Properties\<close>

text \<open>A small set and a write, for the witnesses.\<close>

definition demo_def :: "set_type \<Rightarrow> int \<Rightarrow> set_def" where
  "demo_def t limit =
     \<lparr>d_ID = ''7'', d_Name = ''blocked'', d_Type = t, d_Limit = limit, d_TTL = 60, d_Active = True, d_Hash = False\<rparr>"

definition demo_set :: sset where
  "demo_set = set_New (demo_def TypeString 2) 16 (replicate 8 1) (replicate 16 0)"

definition demo_add :: "string \<Rightarrow> int \<Rightarrow> delta" where
  "demo_add v e =
     \<lparr>dl_Op = OpAdd, dl_Rec = \<lparr>r_Value = v, r_Exp = e, r_Origin = ''ops'', r_Reason = ''abuse'', r_Prefix = zero_prefix\<rparr>,
      dl_hash = 0\<rparr>"

lemma demo_inflight: "inflight demo_set []"
  unfolding demo_set_def by (rule set_New_inflight)

lemma demo_plan:
  "set_Plan [demo_add v e] demo_set =
     (let h = hashOf demo_set (dl_Rec (demo_add v e))
      in (demo_set\<lparr>s_pend := fmupd v \<lparr>pe_e = \<lparr>e_Exp = e, e_Origin = ''ops'', e_Reason = ''abuse'', e_hash = h\<rparr>,
              pe_present = True, pe_seq = 17\<rparr> fmempty, s_pendSeq := 17, s_pendHash := h, s_pendSize := 1\<rparr>,
          \<lparr>pl_Deltas = [(demo_add v e)\<lparr>dl_hash := h\<rparr>], pl_Rejected = [], pl_Seq = 17, pl_Hash = h, pl_Gen = 0\<rparr>))"
  by (simp add: set_Plan_def Let_def plan_step_def plan_init_def plan_lookup_def set_lookup_def plan_add_def
      demo_set_def set_New_def demo_add_def demo_def_def)

text \<open>
  C16: Planning keeps the invariant of the pipeline. When \<open>ps\<close> are the plans in flight, a plan that
  changes nothing leaves the set as it was, and any other plan is appended to those in flight: it
  takes the next sequence number, carries the hash of the content after it, and the planned view of
  the set is the committed content with all the plans in flight replayed on it.
\<close>

theorem Plan_extends_flight:
  assumes "inflight s ps" and "set_Plan ds s = (s', p)"
  shows "(pl_Deltas p = [] \<longrightarrow> s' = s) \<and>
    (pl_Deltas p \<noteq> [] \<longrightarrow> inflight s' (ps @ [p]) \<and> s_entries s' = s_entries s
       \<and> pl_Seq p = s_seq s + of_nat (length ps) + 1
       \<and> pl_Hash p = hsum (final (ps @ [p]) (s_entries s)))"
proof (intro conjI impI)
  assume "pl_Deltas p = []"
  then show "s' = s" using set_Plan_inflight [OF assms] by simp
next
  assume ne: "pl_Deltas p \<noteq> []"
  then show inv: "inflight s' (ps @ [p])" using set_Plan_inflight [OF assms] by simp
  show e: "s_entries s' = s_entries s" using assms(2) by (auto simp: set_Plan_def Let_def split: if_splits)
  have q: "s_seq s' = s_seq s" using assms(2) by (auto simp: set_Plan_def Let_def split: if_splits)
  have "chain (s_entries s) (s_seq s) (s_gen s') (ps @ [p])" using inv e q by (simp add: inflight_def)
  then show "pl_Seq p = s_seq s + of_nat (length ps) + 1" "pl_Hash p = hsum (final (ps @ [p]) (s_entries s))"
    by (simp_all add: chain_append)
qed

theorem Plan_extends_flight_witness:
  "pl_Deltas (snd (set_Plan [demo_add ''a'' 5] demo_set)) \<noteq> []
   \<and> inflight (fst (set_Plan [demo_add ''a'' 5] demo_set)) [snd (set_Plan [demo_add ''a'' 5] demo_set)]"
  using Plan_extends_flight [OF demo_inflight, of "[demo_add ''a'' 5]"
      "fst (set_Plan [demo_add ''a'' 5] demo_set)" "snd (set_Plan [demo_add ''a'' 5] demo_set)"]
  by (simp add: demo_plan Let_def)

text \<open>
  C10: Committing the oldest plan in flight makes the committed content the replay of its deltas,
  reports exactly the sequence number and the hash that were planned (and already sent to the
  store and packed), and leaves the later plans in flight. So the check of \<open>commit\<close> that the
  committed hash is the planned one never fails.
\<close>

theorem Commit_oldest_plan:
  assumes "inflight s (p # ps)" and "length ps < 2 ^ 64 - 1"
  shows "inflight (fst (set_Commit p now s)) ps
    \<and> s_entries (fst (set_Commit p now s)) = replay (pl_Deltas p) (s_entries s)
    \<and> s_hash (fst (set_Commit p now s)) = hsum (replay (pl_Deltas p) (s_entries s))
    \<and> snd (set_Commit p now s)
        = Some \<lparr>c_Seq = pl_Seq p, c_Hash = pl_Hash p, c_At = now, c_Deltas = pl_Deltas p\<rparr>"
  using set_Commit_inflight [OF assms, of now] by (auto simp: inflight_def)

theorem Commit_oldest_plan_witness:
  "\<exists>s p. inflight s [p] \<and> inflight (fst (set_Commit p 9 s)) []
     \<and> snd (set_Commit p 9 s) = Some \<lparr>c_Seq = 17, c_Hash = pl_Hash p, c_At = 9, c_Deltas = pl_Deltas p\<rparr>"
proof -
  let ?s = "fst (set_Plan [demo_add ''a'' 5] demo_set)" and ?p = "snd (set_Plan [demo_add ''a'' 5] demo_set)"
  have "inflight ?s [?p]"
    using set_Plan_inflight [OF demo_inflight, of "[demo_add ''a'' 5]" ?s ?p] by (simp add: demo_plan Let_def)
  moreover have "pl_Seq ?p = 17" by (simp add: demo_plan Let_def)
  ultimately show ?thesis using Commit_oldest_plan [of ?s ?p "[]" 9] by auto
qed

text \<open>
  No plan takes a set over its limit: when the planned size is within the limit, so is the
  planned size after any plan, whatever mix of additions and removals it holds.
\<close>

theorem Plan_respects_limit:
  assumes "0 < d_Limit (s_Def s)" and "set_Size s \<le> d_Limit (s_Def s)"
  shows "set_Size (fst (set_Plan ds s)) \<le> d_Limit (s_Def s)"
  using set_Plan_limit [OF assms(1), of ds] assms(2) by (simp add: set_Size_def)

theorem Plan_respects_limit_witness:
  "set_Size (fst (set_Plan [demo_add ''a'' 5, demo_add ''b'' 5, demo_add ''c'' 5] demo_set)) \<le> 2"
  using Plan_respects_limit [of demo_set "[demo_add ''a'' 5, demo_add ''b'' 5, demo_add ''c'' 5]"]
  by (simp add: demo_set_def set_New_def demo_def_def set_Size_def)

end
