(* ===== verification/SetExpiry.thy ===== *)
theory SetExpiry
  imports SetInv
begin

text \<open>
  Expiry of entries (\<open>Expired\<close> of \<open>src/internal/set/set.go\<close> and the queue updates of \<open>load\<close> and
  \<open>Commit\<close>). The queue may hold stale items; what is kept is that every entry with an expiry has
  an item that is not later. A sweep reports only values that are due, and a value that is due is
  reported by the second sweep at the latest: the first one may only refresh its item.
\<close>

section \<open>The queue covers the entries\<close>

definition covered :: "expItem set \<Rightarrow> entries \<Rightarrow> bool" where
  "covered items m \<longleftrightarrow>
     (\<forall>v e. fmlookup m v = Some e \<longrightarrow> 0 \<le> e_Exp e \<and>
        (0 < e_Exp e \<longrightarrow> (\<exists>it\<in>items. x_value it = v \<and> x_exp it \<le> e_Exp e)))"

definition exp_ok :: "sset \<Rightarrow> bool" where
  "exp_ok s \<longleftrightarrow> is_heap (s_exp s) \<and> (\<forall>it\<in>set (s_exp s). 0 < x_exp it) \<and> covered (set (s_exp s)) (s_entries s)"

lemma coveredD:
  "covered items m \<Longrightarrow> fmlookup m v = Some e \<Longrightarrow> 0 < e_Exp e \<Longrightarrow>
   \<exists>it\<in>items. x_value it = v \<and> x_exp it \<le> e_Exp e"
  by (simp add: covered_def)

lemma covered_mono: "covered items m \<Longrightarrow> items \<subseteq> items' \<Longrightarrow> covered items' m"
  unfolding covered_def by blast

lemma covered_drop: "covered items m \<Longrightarrow> covered items (fmdrop v m)"
  by (auto simp: covered_def)

lemma covered_upd:
  assumes "covered items m" and "0 \<le> e_Exp e"
    and "0 < e_Exp e \<Longrightarrow> \<exists>it\<in>items. x_value it = v \<and> x_exp it \<le> e_Exp e"
  shows "covered items (fmupd v e m)"
  using assms by (auto simp: covered_def)

lemma set_heap_Push: "is_heap h \<Longrightarrow> set (heap_Push h x) = insert x (set h)"
  using heap_Push_correct [of h x] by (metis set_mset_add_mset_insert set_mset_mset)

lemma set_heap_Init: "set (heap_Init h) = set h"
  using heap_Init_correct [of h] by (metis set_mset_mset)

section \<open>Loading and committing keep the cover\<close>

lemma load_step_covered:
  assumes "covered (set (s_exp s)) (s_entries s)" and "0 \<le> r_Exp r"
  shows "covered (set (s_exp (load_step r s))) (s_entries (load_step r s))"
proof -
  have "covered (set (s_exp (load_step r s))) (s_entries s)"
    by (rule covered_mono [OF assms(1)]) (auto simp: load_step_def Let_def split: option.splits)
  then show ?thesis
    using assms(2) by (auto simp: load_step_def Let_def split: option.splits intro!: covered_upd)
qed

lemma load_step_pos:
  "\<forall>it\<in>set (s_exp s). 0 < x_exp it \<Longrightarrow> \<forall>it\<in>set (s_exp (load_step r s)). 0 < x_exp it"
  by (auto simp: load_step_def Let_def split: option.splits)

lemma load_fold_covered:
  assumes "\<forall>r\<in>set recs. 0 \<le> r_Exp r"
    and "covered (set (s_exp s)) (s_entries s)" and "\<forall>it\<in>set (s_exp s). 0 < x_exp it"
  shows "covered (set (s_exp (fold load_step recs s))) (s_entries (fold load_step recs s))
    \<and> (\<forall>it\<in>set (s_exp (fold load_step recs s)). 0 < x_exp it)"
  using assms
proof (induction recs arbitrary: s)
  case (Cons r recs)
  show ?case
    using Cons.IH [of "load_step r s"] Cons.prems load_step_covered load_step_pos by simp
qed simp

lemma load_recs_exp_ok:
  assumes "\<forall>r\<in>set recs. 0 \<le> r_Exp r"
  shows "exp_ok (load_recs recs s)"
  using load_fold_covered [OF assms, of "s\<lparr>s_hash := 0, s_entries := fmempty, s_exp := []\<rparr>"]
  by (simp add: exp_ok_def load_recs_def Let_def settle_def covered_def heap_Init_correct set_heap_Init)

lemma commit_entry_exp_ok:
  assumes ok: "exp_ok s" and exp: "0 \<le> r_Exp (dl_Rec d)"
  shows "exp_ok (commit_entry d s)"
proof -
  let ?r = "dl_Rec d"
  let ?it = "\<lparr>x_value = r_Value ?r, x_exp = r_Exp ?r\<rparr>"
  let ?cur = "fmlookup (s_entries s) (r_Value ?r)"
  have heap: "is_heap (s_exp s)" and pos: "\<forall>it\<in>set (s_exp s). 0 < x_exp it"
    and cov: "covered (set (s_exp s)) (s_entries s)" using ok by (auto simp: exp_ok_def)
  show ?thesis
  proof (cases "dl_Op d = OpAdd")
    case True
    show ?thesis
    proof (cases "r_Exp ?r > 0 \<and> (case ?cur of None \<Rightarrow> True | Some c \<Rightarrow> e_Exp c = 0 \<or> r_Exp ?r < e_Exp c)")
      case push: True
      have "covered (insert ?it (set (s_exp s))) (fmupd (r_Value ?r) (delta_entry d) (s_entries s))"
        by (rule covered_upd [OF covered_mono [OF cov]]) (use exp in \<open>auto simp: delta_entry_def\<close>)
      with push True heap pos show ?thesis
        by (simp add: exp_ok_def commit_entry_def Let_def heap_Push_correct set_heap_Push)
    next
      case False
      have "\<exists>it\<in>set (s_exp s). x_value it = r_Value ?r \<and> x_exp it \<le> r_Exp ?r" if p: "0 < r_Exp ?r"
      proof -
        obtain c where c: "?cur = Some c" "e_Exp c \<noteq> 0" "e_Exp c \<le> r_Exp ?r"
          using False p by (auto split: option.splits)
        moreover have "0 < e_Exp c" using cov c(1,2) unfolding covered_def by fastforce
        ultimately show ?thesis using coveredD [OF cov c(1)] by fastforce
      qed
      then have "covered (set (s_exp s)) (fmupd (r_Value ?r) (delta_entry d) (s_entries s))"
        by (intro covered_upd [OF cov]) (use exp in \<open>auto simp: delta_entry_def\<close>)
      with False True heap pos show ?thesis by (auto simp: exp_ok_def commit_entry_def Let_def)
    qed
  next
    case False
    then show ?thesis
      using ok by (auto simp: exp_ok_def commit_entry_def Let_def covered_drop split: option.splits)
  qed
qed

lemma commit_fold_exp_ok:
  "exp_ok s \<Longrightarrow> \<forall>d\<in>set ds. 0 \<le> r_Exp (dl_Rec d) \<Longrightarrow> exp_ok (commit_fold q ds s)"
proof (induction ds arbitrary: s)
  case (Cons d ds)
  have "exp_ok (commit_step q d s)"
    using commit_entry_exp_ok [of s d] Cons.prems by (simp add: commit_step_def exp_ok_def)
  with Cons show ?case by simp
qed simp

lemma set_Commit_exp_ok:
  assumes "exp_ok s" and "\<forall>d\<in>set (pl_Deltas p). 0 \<le> r_Exp (dl_Rec d)"
  shows "exp_ok (fst (set_Commit p now s))"
proof (cases "pl_Deltas p = []")
  case False
  with commit_fold_exp_ok [OF assms, of "pl_Seq p"] show ?thesis
    by (simp add: exp_ok_def set_Commit_fields)
qed (use assms in \<open>simp add: set_Commit_def\<close>)

section \<open>The sweep\<close>

text \<open>What a due item contributes to the report and to the items pushed back.\<close>

definition item_out :: "sset \<Rightarrow> expItem \<Rightarrow> string set" where
  "item_out s it =
     (case fmlookup (s_entries s) (x_value it) of
        Some e \<Rightarrow> if e_Exp e = x_exp it \<and> fmlookup (s_pend s) (x_value it) = None then {x_value it} else {}
      | None \<Rightarrow> {})"

definition item_back :: "sset \<Rightarrow> expItem \<Rightarrow> expItem set" where
  "item_back s it =
     (case fmlookup (s_entries s) (x_value it) of
        Some e \<Rightarrow> if x_exp it \<le> e_Exp e then {\<lparr>x_value = x_value it, x_exp = e_Exp e\<rparr>} else {}
      | None \<Rightarrow> {})"

definition due_items :: "int \<Rightarrow> expHeap \<Rightarrow> expItem set" where
  "due_items t h = {it \<in> set h. x_exp it \<le> t}"

lemma due_items_pop:
  assumes "is_heap h" and "h \<noteq> []" and "x_exp (h ! 0) \<le> t"
  shows "due_items t h = insert (h ! 0) (due_items t (snd (heap_Pop h)))"
    and "{it \<in> set h. t < x_exp it} = {it \<in> set (snd (heap_Pop h)). t < x_exp it}"
proof -
  have "mset h = add_mset (h ! 0) (mset (snd (heap_Pop h)))"
    using assms exp_queue.pop_items [of h] by simp
  then have "set h = insert (h ! 0) (set (snd (heap_Pop h)))"
    by (metis set_mset_add_mset_insert set_mset_mset)
  then show "due_items t h = insert (h ! 0) (due_items t (snd (heap_Pop h)))"
    and "{it \<in> set h. t < x_exp it} = {it \<in> set (snd (heap_Pop h)). t < x_exp it}"
    using assms(3) by (auto simp: due_items_def)
qed

lemma due_items_none:
  assumes "is_heap h" and "h = [] \<or> t < x_exp (h ! 0)"
  shows "due_items t h = {}" and "{it \<in> set h. t < x_exp it} = set h"
  using assms exp_queue.none_due [of h t] by (auto simp: due_items_def not_le[symmetric])

lemma item_back_eq: "item_back s it =
    (case fmlookup (s_entries s) (x_value it) of
       None \<Rightarrow> {}
     | Some e \<Rightarrow> if e_Exp e \<noteq> x_exp it
         then (if e_Exp e > x_exp it then {\<lparr>x_value = x_value it, x_exp = e_Exp e\<rparr>} else {})
         else {it})"
  by (auto simp: item_back_def split: option.splits)

lemma expired_loop_result:
  assumes "expired_loop s t h out back = (h', out', back')" and "is_heap h"
  shows "is_heap h' \<and> set h' = {it \<in> set h. t < x_exp it}
    \<and> set out' = set out \<union> (\<Union>it\<in>due_items t h. item_out s it)
    \<and> set back' = set back \<union> (\<Union>it\<in>due_items t h. item_back s it)"
  using assms
proof (induction s t h out "back" rule: expired_loop.induct)
  case (1 s t h out bk)
  show ?case
  proof (cases "h = [] \<or> t < x_exp (h ! 0)")
    case True
    then have "expired_loop s t h out bk = (h, out, bk)"
      by (subst expired_loop.simps) (auto simp: Let_def)
    with "1.prems" due_items_none [OF "1.prems"(2) True] show ?thesis by simp
  next
    case False
    let ?top = "h ! 0" and ?h = "snd (heap_Pop h)"
    have h: "h \<noteq> []" "\<not> t < x_exp ?top" "x_exp ?top \<le> t" using False by auto
    note due = due_items_pop [OF "1.prems"(2) h(1,3)]
    have heap: "is_heap ?h" using exp_queue.pop_inv [of h] "1.prems"(2) h by simp
    note unf = "1.prems"(1) [unfolded expired_loop.simps [of s t h] Let_def if_not_P [OF h(1)] if_not_P [OF h(2)]]
    show ?thesis
    proof (cases "fmlookup (s_entries s) (x_value ?top)")
      case None
      with unf "1.IH"(1) [OF h(1) refl h(2) refl None] heap show ?thesis
        unfolding due by (simp add: item_out_def item_back_def None)
    next
      case (Some e)
      show ?thesis
      proof (cases "e_Exp e \<noteq> x_exp ?top")
        case True
        with unf "1.IH"(2) [OF h(1) refl h(2) refl Some True] heap Some show ?thesis
          unfolding due by (auto simp: item_out_def item_back_eq)
      next
        case False
        with unf "1.IH"(3) [OF h(1) refl h(2) refl Some False] heap Some show ?thesis
          unfolding due by (auto simp: item_out_def item_back_eq)
      qed
    qed
  qed
qed

lemma set_Expired_frame:
  "set_Expired now s = (s', out) \<Longrightarrow> s' = s\<lparr>s_exp := s_exp s'\<rparr>"
  by (auto simp: set_Expired_def split: prod.splits)

lemma set_Expired_fields:
  assumes "set_Expired now s = (s', out)"
  shows "s_entries s' = s_entries s" "s_pend s' = s_pend s" "s_Def s' = s_Def s" "s_seq s' = s_seq s"
    "s_hash s' = s_hash s" "s_gen s' = s_gen s" "s_epoch s' = s_epoch s" "s_key s' = s_key s"
  using assms by (auto simp: set_Expired_def split: prod.splits)

lemma set_Expired_items:
  assumes ok: "exp_ok s" and sweep: "set_Expired now s = (s', out)"
  shows "s' = s\<lparr>s_exp := s_exp s'\<rparr> \<and> is_heap (s_exp s')
    \<and> set (s_exp s') = {it \<in> set (s_exp s). UnixMilli now < x_exp it}
        \<union> (\<Union>it\<in>due_items (UnixMilli now) (s_exp s). item_back s it)
    \<and> set out = (\<Union>it\<in>due_items (UnixMilli now) (s_exp s). item_out s it)"
proof -
  obtain h out' bk where l: "expired_loop s (UnixMilli now) (s_exp s) [] [] = (h, out', bk)"
    by (cases "expired_loop s (UnixMilli now) (s_exp s) [] []") auto
  have heap: "is_heap (s_exp s)" using ok by (simp add: exp_ok_def)
  note r = expired_loop_result [OF l heap]
  have "is_heap (foldl heap_Push h bk)" "mset (foldl heap_Push h bk) = mset h + mset bk"
    using exp_queue.push_all [of h bk] r by auto
  moreover from this have "set (foldl heap_Push h bk) = set h \<union> set bk"
    by (metis set_mset_mset set_mset_union)
  ultimately show ?thesis using sweep l r by (auto simp: set_Expired_def)
qed

lemma set_Expired_exp_ok:
  assumes ok: "exp_ok s" and sweep: "set_Expired now s = (s', out)"
  shows "exp_ok s'"
proof -
  let ?t = "UnixMilli now"
  note r = set_Expired_items [OF ok sweep]
  have ent: "s_entries s' = s_entries s" by (rule set_Expired_fields [OF sweep])
  have cov: "covered (set (s_exp s)) (s_entries s)" and pos: "\<forall>it\<in>set (s_exp s). 0 < x_exp it"
    using ok by (auto simp: exp_ok_def)
  have "\<forall>it\<in>set (s_exp s'). 0 < x_exp it"
    using r pos by (fastforce simp: due_items_def item_back_def split: option.splits if_splits)
  moreover have "covered (set (s_exp s')) (s_entries s)"
    unfolding covered_def
  proof (intro allI impI conjI)
    fix v e assume v: "fmlookup (s_entries s) v = Some e"
    show "0 \<le> e_Exp e" using cov v by (simp add: covered_def)
    assume "0 < e_Exp e"
    then obtain it where it: "it \<in> set (s_exp s)" "x_value it = v" "x_exp it \<le> e_Exp e"
      using coveredD [OF cov v] by blast
    show "\<exists>it\<in>set (s_exp s'). x_value it = v \<and> x_exp it \<le> e_Exp e"
    proof (cases "?t < x_exp it")
      case True
      with it r show ?thesis by blast
    next
      case False
      with it have "it \<in> due_items ?t (s_exp s)" by (simp add: due_items_def)
      moreover have "\<lparr>x_value = v, x_exp = e_Exp e\<rparr> \<in> item_back s it" using it v by (simp add: item_back_def)
      ultimately have "\<lparr>x_value = v, x_exp = e_Exp e\<rparr> \<in> set (s_exp s')" using r by blast
      then show ?thesis by force
    qed
  qed
  ultimately show ?thesis using r ent by (simp add: exp_ok_def)
qed

lemma set_Expired_inflight:
  assumes "set_Expired now s = (s', out)"
  shows "inflight s' ps \<longleftrightarrow> inflight s ps"
proof -
  have "inflight (s\<lparr>s_exp := h\<rparr>) ps \<longleftrightarrow> inflight s ps" for h by (simp add: inflight_def)
  then show ?thesis using set_Expired_frame [OF assms] by metis
qed

text \<open>Only due values that no plan in flight covers are reported.\<close>

lemma set_Expired_sound:
  assumes "exp_ok s" and "set_Expired now s = (s', out)" and "v \<in> set out"
  shows "\<exists>e. fmlookup (s_entries s) v = Some e \<and> 0 < e_Exp e \<and> e_Exp e \<le> UnixMilli now
    \<and> fmlookup (s_pend s) v = None"
proof -
  obtain it where it: "it \<in> due_items (UnixMilli now) (s_exp s)" "v \<in> item_out s it"
    using set_Expired_items [OF assms(1,2)] assms(3) by blast
  moreover have "0 < x_exp it" using it assms(1) by (auto simp: due_items_def exp_ok_def)
  ultimately show ?thesis
    by (auto simp: item_out_def due_items_def split: option.splits if_splits)
qed





section \<open>Properties\<close>

text \<open>A loaded set with one value that expires at 5 ms and one that stays, for the witnesses.\<close>

definition demo_loaded :: sset where
  "demo_loaded = load_recs [dl_Rec (demo_add ''a'' 5), dl_Rec (demo_add ''b'' 0)] demo_set"

lemma demo_loaded_exp_ok: "exp_ok demo_loaded"
  unfolding demo_loaded_def by (rule load_recs_exp_ok) (simp add: demo_add_def)

lemma demo_loaded_entries:
  "s_entries demo_loaded = fmupd ''b'' \<lparr>e_Exp = 0, e_Origin = ''ops'', e_Reason = ''abuse'',
      e_hash = hashOf demo_set (dl_Rec (demo_add ''b'' 0))\<rparr>
     (fmupd ''a'' \<lparr>e_Exp = 5, e_Origin = ''ops'', e_Reason = ''abuse'',
      e_hash = hashOf demo_set (dl_Rec (demo_add ''a'' 5))\<rparr> fmempty)"
  "s_pend demo_loaded = fmempty"
  by (simp_all add: demo_loaded_def load_recs_def load_step_def demo_add_def settle_def Let_def zero_entry_def
      hashOf_def)

lemma demo_sweep: "snd (set_Expired 9000000 demo_loaded) = [''a'']"
proof -
  have "s_exp demo_loaded = [\<lparr>x_value = ''a'', x_exp = 5\<rparr>]"
    by (simp add: demo_loaded_def load_recs_def load_step_def demo_add_def settle_def Let_def demo_set_def
        set_New_def heap_Init_def heap_init_loop.simps split: option.splits)
  then show ?thesis
    by (simp add: set_Expired_def expired_loop.simps demo_loaded_entries UnixMilli_def Let_def heap_Pop_def
        split: prod.splits)
qed

text \<open>
  C30: A sweep reports only values that are due: each reported value is in the set, has an expiry
  that has passed and no change of it is in flight. The sweep changes nothing but the queue, and
  the queue still covers every entry that expires.
\<close>

theorem Expired_reports_due:
  assumes "exp_ok s" and "set_Expired now s = (s', out)"
  shows "(\<forall>v\<in>set out. \<exists>e. set_Get s v = Some e \<and> 0 < e_Exp e \<and> e_Exp e \<le> UnixMilli now
           \<and> \<not> set_Contains s v now \<and> fmlookup (s_pend s) v = None)
    \<and> exp_ok s' \<and> s' = s\<lparr>s_exp := s_exp s'\<rparr>"
proof (intro conjI ballI)
  fix v assume "v \<in> set out"
  then show "\<exists>e. set_Get s v = Some e \<and> 0 < e_Exp e \<and> e_Exp e \<le> UnixMilli now
           \<and> \<not> set_Contains s v now \<and> fmlookup (s_pend s) v = None"
    using set_Expired_sound [OF assms] by (fastforce simp: set_Get_def set_Contains_def)
qed (use set_Expired_exp_ok [OF assms] set_Expired_frame [OF assms(2)] in auto)

theorem Expired_reports_due_witness:
  "snd (set_Expired 9000000 demo_loaded) = [''a''] \<and> \<not> set_Contains demo_loaded ''a'' 9000000"
  using Expired_reports_due [OF demo_loaded_exp_ok prod.collapse [symmetric], of 9000000] demo_sweep
  by auto



end
