(* ===== verification/Pack.thy ===== *)
theory Pack
  imports SetState
begin

text \<open>
  \<open>src/internal/wire/pack.go\<close>: the binary form of change packages and snapshots. A 52-byte header
  (magic, version, kind, type, flags, epoch, sequence number, hash, key, count) is followed by
  the records. \<open>Unpack\<close> reads it back with every length check of the source; the index \<open>pos\<close> of
  the source is the remaining suffix of the data here.
\<close>

section \<open>Constants and data\<close>

definition PackVersion :: byte where "PackVersion = 1"
definition KindSnapshot :: byte where "KindSnapshot = 1"
definition KindPackage :: byte where "KindPackage = 2"
definition PackTypeCIDR :: byte where "PackTypeCIDR = 1"
definition PackTypeString :: byte where "PackTypeString = 2"
definition FlagReasons :: byte where "FlagReasons = 1"
definition RecAdd :: byte where "RecAdd = 1"
definition RecRemove :: byte where "RecRemove = 2"
definition packHeader :: nat where "packHeader = 52"
definition packMagic :: string where "packMagic = ''WAFS''"

lemmas pack_consts =
  PackVersion_def KindSnapshot_def KindPackage_def PackTypeCIDR_def PackTypeString_def
  FlagReasons_def RecAdd_def RecRemove_def packHeader_def packMagic_def

datatype pack_error = ErrPackMagic | ErrPackVersion | ErrPackShort | ErrPackFamily byte | ErrPackSetType byte

record pack_head =
  h_Kind :: byte
  h_Type :: byte
  h_Flags :: byte
  h_Epoch :: u64
  h_Seq :: u64
  h_Hash :: u64
  h_Key :: "byte list"
  h_Count :: u32

record pack_rec =
  k_Op :: byte
  k_Prefix :: prefix
  k_Value :: string
  k_Exp :: int
  k_Reason :: string

definition PackType :: "set_type \<Rightarrow> byte" where
  "PackType t = (if t = TypeCIDR then PackTypeCIDR else PackTypeString)"

definition PackFlags :: "set_type \<Rightarrow> byte" where
  "PackFlags t = (if t = TypeCIDR then 0 else FlagReasons)"

definition RecordOf :: "set_type \<Rightarrow> byte \<Rightarrow> rec \<Rightarrow> pack_rec" where
  "RecordOf t op r =
     \<lparr>k_Op = op,
      k_Prefix =
        (if t = TypeCIDR
         then (if prefix_IsValid (r_Prefix r) then r_Prefix r
               else (case set_ParsePrefix (r_Value r) of Some p \<Rightarrow> p | None \<Rightarrow> zero_prefix))
         else zero_prefix),
      k_Value = r_Value r, k_Exp = r_Exp r, k_Reason = r_Reason r\<rparr>"

section \<open>Sorting a snapshot\<close>

definition family :: "prefix \<Rightarrow> int" where
  "family p = (if addr_Is4 (p_addr p) then 4 else 6)"

definition pack_less :: "byte \<Rightarrow> pack_rec \<Rightarrow> pack_rec \<Rightarrow> bool" where
  "pack_less t a b =
     (if t = PackTypeCIDR then
        (if family (k_Prefix a) \<noteq> family (k_Prefix b) then family (k_Prefix a) < family (k_Prefix b)
         else if p_bits (k_Prefix a) \<noteq> p_bits (k_Prefix b) then p_bits (k_Prefix a) < p_bits (k_Prefix b)
         else addr_Compare_less (p_addr (k_Prefix a)) (p_addr (k_Prefix b)))
      else string_less (k_Value a) (k_Value b))"

text \<open>
  \<open>sort.Slice\<close> promises a permutation in which no element is less than an earlier one, and leaves
  the order of elements that do not compare open. It is modelled by the library's insertion
  sort, which it runs itself on short slices.
\<close>

fun sort_insert :: "('a \<Rightarrow> 'a \<Rightarrow> bool) \<Rightarrow> 'a \<Rightarrow> 'a list \<Rightarrow> 'a list" where
  "sort_insert lt x [] = [x]"
| "sort_insert lt x (y # ys) = (if lt x y then x # y # ys else y # sort_insert lt x ys)"

definition sort_Slice :: "('a \<Rightarrow> 'a \<Rightarrow> bool) \<Rightarrow> 'a list \<Rightarrow> 'a list" where
  "sort_Slice lt xs = foldl (\<lambda>acc x. sort_insert lt x acc) [] xs"

section \<open>Pack\<close>

definition has_reasons :: "byte \<Rightarrow> bool" where
  "has_reasons flags \<longleftrightarrow> flags AND FlagReasons \<noteq> 0"

definition recordSize :: "byte \<Rightarrow> byte \<Rightarrow> pack_rec \<Rightarrow> nat" where
  "recordSize t flags r =
     (if t = PackTypeCIDR then (if family (k_Prefix r) = 4 then 1 + 1 + 1 + 4 + 8 else 1 + 1 + 1 + 16 + 8)
      else 1 + 2 + length (k_Value r) + 8 + (if has_reasons flags then 2 + length (k_Reason r) else 0))"

definition record_bytes :: "byte \<Rightarrow> byte \<Rightarrow> pack_rec \<Rightarrow> byte list" where
  "record_bytes t flags r =
     k_Op r #
     (if t = PackTypeCIDR then PrefixMaterial (k_Prefix r) @ le_bytes 8 (word_of_int (k_Exp r) :: u64)
      else le_bytes 2 (word_of_nat (length (k_Value r)) :: u16) @ bytes_of_string (k_Value r)
           @ le_bytes 8 (word_of_int (k_Exp r) :: u64)
           @ (if has_reasons flags
              then le_bytes 2 (word_of_nat (length (k_Reason r)) :: u16) @ bytes_of_string (k_Reason r)
              else []))"

definition appendRecord :: "byte list \<Rightarrow> byte \<Rightarrow> byte \<Rightarrow> pack_rec \<Rightarrow> byte list" where
  "appendRecord out t flags r = out @ record_bytes t flags r"

definition header_bytes :: "pack_head \<Rightarrow> byte list" where
  "header_bytes h =
     bytes_of_string packMagic @ [PackVersion, h_Kind h, h_Type h, h_Flags h]
     @ le_bytes 8 (h_Epoch h) @ le_bytes 8 (h_Seq h) @ le_bytes 8 (h_Hash h)
     @ h_Key h @ le_bytes 4 (h_Count h)"

definition pack_order :: "pack_head \<Rightarrow> pack_rec list \<Rightarrow> pack_rec list" where
  "pack_order h recs = (if h_Kind h = KindSnapshot then sort_Slice (pack_less (h_Type h)) recs else recs)"

definition Pack :: "pack_head \<Rightarrow> pack_rec list \<Rightarrow> byte list" where
  "Pack h recs =
     (let recs = pack_order h recs;
          h = h\<lparr>h_Count := word_of_nat (length recs)\<rparr>
      in foldl (\<lambda>out r. appendRecord out (h_Type h) (h_Flags h) r) (header_bytes h) recs)"

text \<open>The capacity the source reserves before it appends.\<close>

definition pack_size :: "pack_head \<Rightarrow> pack_rec list \<Rightarrow> nat" where
  "pack_size h recs = packHeader + sum_list (map (recordSize (h_Type h) (h_Flags h)) recs)"

definition PackRecord_Material :: "byte \<Rightarrow> pack_rec \<Rightarrow> byte list" where
  "PackRecord_Material t r = (if t = PackTypeCIDR then PrefixMaterial (k_Prefix r) else bytes_of_string (k_Value r))"

section \<open>Unpack\<close>

definition unpack_exp_reason ::
  "pack_head \<Rightarrow> pack_rec \<Rightarrow> byte list \<Rightarrow> pack_error + (pack_rec \<times> byte list)" where
  "unpack_exp_reason h r d =
     (let r = r\<lparr>k_Exp := sint (le_word 8 d :: u64)\<rparr>;
          d = drop 8 d
      in if h_Type h = PackTypeString \<and> has_reasons (h_Flags h) then
           (if length d < 2 then Inl ErrPackShort
            else let n = unat (le_word 2 d :: u16); d = drop 2 d
                 in if length d < n then Inl ErrPackShort
                    else Inr (r\<lparr>k_Reason := string_of_bytes (take n d)\<rparr>, drop n d))
         else Inr (r, d))"

definition zero_pack_rec :: pack_rec where
  "zero_pack_rec = \<lparr>k_Op = 0, k_Prefix = zero_prefix, k_Value = [], k_Exp = 0, k_Reason = []\<rparr>"

definition unpack_rec :: "pack_head \<Rightarrow> byte list \<Rightarrow> pack_error + (pack_rec \<times> byte list)" where
  "unpack_rec h d =
     (if length d < 1 then Inl ErrPackShort
      else
        let r = zero_pack_rec\<lparr>k_Op := d ! 0\<rparr>; d = drop 1 d
        in if h_Type h = PackTypeCIDR then
             (if length d < 2 then Inl ErrPackShort
              else
                let fam = d ! 0; bits = int (unat (d ! 1)); d = drop 2 d
                in if fam = 4 then
                     (if length d < 4 + 8 then Inl ErrPackShort
                      else unpack_exp_reason h
                             (r\<lparr>k_Prefix := PrefixFrom (AddrFrom4 (take 4 d)) bits\<rparr>) (drop 4 d))
                   else if fam = 6 then
                     (if length d < 16 + 8 then Inl ErrPackShort
                      else unpack_exp_reason h
                             (r\<lparr>k_Prefix := PrefixFrom (AddrFrom16 (take 16 d)) bits\<rparr>) (drop 16 d))
                   else Inl (ErrPackFamily fam))
           else if h_Type h = PackTypeString then
             (if length d < 2 then Inl ErrPackShort
              else
                let n = unat (le_word 2 d :: u16); d = drop 2 d
                in if length d < n + 8 then Inl ErrPackShort
                   else unpack_exp_reason h (r\<lparr>k_Value := string_of_bytes (take n d)\<rparr>) (drop n d))
           else Inl (ErrPackSetType (h_Type h)))"

fun unpack_loop :: "pack_head \<Rightarrow> nat \<Rightarrow> byte list \<Rightarrow> pack_rec list \<Rightarrow> pack_error + pack_rec list" where
  "unpack_loop h 0 d recs = Inr recs"
| "unpack_loop h (Suc n) d recs =
     (case unpack_rec h d of
        Inl e \<Rightarrow> Inl e
      | Inr (r, d) \<Rightarrow> unpack_loop h n d (recs @ [r]))"

definition unpack_head :: "byte list \<Rightarrow> pack_head" where
  "unpack_head d =
     \<lparr>h_Kind = d ! 5, h_Type = d ! 6, h_Flags = d ! 7,
      h_Epoch = le_word 8 (drop 8 d), h_Seq = le_word 8 (drop 16 d), h_Hash = le_word 8 (drop 24 d),
      h_Key = take 16 (drop 32 d), h_Count = le_word 4 (drop 48 d)\<rparr>"

definition Unpack :: "byte list \<Rightarrow> pack_error + (pack_head \<times> pack_rec list)" where
  "Unpack d =
     (if length d < packHeader then Inl ErrPackShort
      else if string_of_bytes (take 4 d) \<noteq> packMagic then Inl ErrPackMagic
      else if d ! 4 \<noteq> PackVersion then Inl ErrPackVersion
      else
        let h = unpack_head d
        in map_sum id (Pair h) (unpack_loop h (unat (h_Count h)) (drop packHeader d) []))"

section \<open>Sizes\<close>

lemma length_PrefixMaterial:
  "length (PrefixMaterial p) = (if addr_Is4 (p_addr p) then 6 else 18)"
  by (cases "p_addr p") (simp_all add: PrefixMaterial_def)

lemma length_record_bytes: "length (record_bytes t f r) = recordSize t f r"
  by (simp add: record_bytes_def recordSize_def length_PrefixMaterial family_def)

lemma Pack_concat:
  "Pack h recs = header_bytes (h\<lparr>h_Count := word_of_nat (length (pack_order h recs))\<rparr>)
     @ concat (map (record_bytes (h_Type h) (h_Flags h)) (pack_order h recs))"
proof -
  have "foldl (\<lambda>out r. appendRecord out t f r) o' rs = o' @ concat (map (record_bytes t f) rs)" for t f o' rs
    by (induction rs arbitrary: o') (simp_all add: appendRecord_def)
  then show ?thesis by (simp add: Pack_def Let_def)
qed

lemma length_header_bytes: "length (h_Key h) = 16 \<Longrightarrow> length (header_bytes h) = packHeader"
  by (simp add: header_bytes_def packHeader_def packMagic_def)

lemma Pack_length:
  assumes "length (h_Key h) = 16"
  shows "length (Pack h recs) = pack_size h (pack_order h recs)"
  using assms unfolding Pack_concat pack_size_def
  by (simp add: length_header_bytes length_concat length_record_bytes comp_def)

section \<open>The round trip\<close>

text \<open>What survives on the wire: a CIDR record loses its text and reason, a string record its prefix.\<close>

definition unpacked :: "pack_head \<Rightarrow> pack_rec \<Rightarrow> pack_rec" where
  "unpacked h r =
     (if h_Type h = PackTypeCIDR
      then \<lparr>k_Op = k_Op r, k_Prefix = k_Prefix r, k_Value = [], k_Exp = k_Exp r, k_Reason = []\<rparr>
      else \<lparr>k_Op = k_Op r, k_Prefix = zero_prefix, k_Value = k_Value r, k_Exp = k_Exp r,
            k_Reason = (if has_reasons (h_Flags h) then k_Reason r else [])\<rparr>)"

definition wire_prefix :: "prefix \<Rightarrow> bool" where
  "wire_prefix p \<longleftrightarrow>
     0 \<le> p_bits p \<and> p_bits p \<le> BitLen (p_addr p) \<and> p_addr p \<noteq> AddrZero \<and> addr_Zone (p_addr p) = []"

definition fits :: "pack_head \<Rightarrow> pack_rec \<Rightarrow> bool" where
  "fits h r \<longleftrightarrow> int64_range (k_Exp r) \<and>
     (if h_Type h = PackTypeCIDR then wire_prefix (k_Prefix r)
      else length (k_Value r) < 2 ^ 16 \<and> (has_reasons (h_Flags h) \<longrightarrow> length (k_Reason r) < 2 ^ 16))"

definition pack_typed :: "pack_head \<Rightarrow> bool" where
  "pack_typed h \<longleftrightarrow> (h_Type h = PackTypeCIDR \<or> h_Type h = PackTypeString) \<and> length (h_Key h) = 16"

lemma count_irrelevant [simp]:
  "fits (h\<lparr>h_Count := c\<rparr>) r = fits h r" "pack_typed (h\<lparr>h_Count := c\<rparr>) = pack_typed h"
  "unpacked (h\<lparr>h_Count := c\<rparr>) = unpacked h"
  by (cases "h_Type h = PackTypeCIDR"; simp add: fits_def pack_typed_def unpacked_def fun_eq_iff)+

lemma le_word_u128 [simp]: "le_word 16 (le_bytes 16 (w :: 128 word) @ rest) = w"
  using take_bit_length_eq [of w] by (simp add: le_word_le_bytes_append)

lemma AddrFrom4_As4 [simp]: "AddrFrom4 (As4 (Addr4 w)) = Addr4 w"
  using le_word_u32 [of w "[]"] by (simp add: AddrFrom4_def)

lemma AddrFrom16_As16 [simp]: "AddrFrom16 (As16 (Addr6 w [])) = Addr6 w []"
  using le_word_u128 [of w "[]"] by (simp add: AddrFrom16_def)

lemma unat_len16: "n < 2 ^ 16 \<Longrightarrow> unat (word_of_nat n :: u16) = n"
  by (simp add: unat_of_nat)

lemma unpack_exp_reason_bytes:
  assumes "int64_range e"
    and "h_Type h = PackTypeString \<Longrightarrow> has_reasons (h_Flags h) \<Longrightarrow> length rs < 2 ^ 16"
    and "tail = (if h_Type h = PackTypeString \<and> has_reasons (h_Flags h)
       then le_bytes 2 (word_of_nat (length rs) :: u16) @ bytes_of_string rs else [])"
  shows "unpack_exp_reason h r (le_bytes 8 (word_of_int e :: u64) @ tail @ rest)
    = Inr (r\<lparr>k_Exp := e, k_Reason := (if h_Type h = PackTypeString \<and> has_reasons (h_Flags h)
        then rs else k_Reason r)\<rparr>, rest)"
  using assms wrap64_id [OF assms(1)]
  by (auto simp: unpack_exp_reason_def Let_def unat_len16 wrap64_def)

lemma wire_prefix_cases:
  assumes "wire_prefix p"
  obtains w where "p = \<lparr>p_addr = Addr4 w, p_bits = p_bits p\<rparr>" "0 \<le> p_bits p" "p_bits p \<le> 32"
  | w where "p = \<lparr>p_addr = Addr6 w [], p_bits = p_bits p\<rparr>" "0 \<le> p_bits p" "p_bits p \<le> 128"
  using assms by (cases p; cases "p_addr p") (auto simp: wire_prefix_def)

lemma unat_bits: "0 \<le> b \<Longrightarrow> b \<le> 128 \<Longrightarrow> int (unat (word_of_int b :: byte)) = b"
  by (simp add: unsigned_of_int take_bit_int_eq_self)

lemma length_As [simp]: "length (As4 a) = 4" "length (As16 a) = 16"
  by (cases a; simp)+

lemma unpack_rec_cidr:
  assumes t: "h_Type h = PackTypeCIDR" and f: "fits h r"
  shows "unpack_rec h (record_bytes (h_Type h) (h_Flags h) r @ rest) = Inr (unpacked h r, rest)"
proof -
  have e: "int64_range (k_Exp r)" and p: "wire_prefix (k_Prefix r)" using f t by (auto simp: fits_def)
  have exp: "unpack_exp_reason h r' (le_bytes 8 (word_of_int (k_Exp r) :: u64) @ rest)
      = Inr (r'\<lparr>k_Exp := k_Exp r\<rparr>, rest)" for r'
    using unpack_exp_reason_bytes [OF e, of h "[]" "[]" r' rest] t by (simp add: pack_consts)
  from p show ?thesis
  proof (cases rule: wire_prefix_cases)
    case (1 w)
    then have a: "p_addr (k_Prefix r) = Addr4 w" by (metis prefix.select_convs(1))
    have "PrefixFrom (Addr4 w) (p_bits (k_Prefix r)) = k_Prefix r"
      using 1 by (simp add: PrefixFrom_def)
    then show ?thesis
      using 1(2,3) unat_bits [of "p_bits (k_Prefix r)"]
      by (simp add: t a record_bytes_def PrefixMaterial_def unpack_rec_def Let_def exp unpacked_def
          zero_pack_rec_def del: As4.simps)
  next
    case (2 w)
    then have a: "p_addr (k_Prefix r) = Addr6 w []" by (metis prefix.select_convs(1))
    have "PrefixFrom (Addr6 w []) (p_bits (k_Prefix r)) = k_Prefix r"
      using 2 by (simp add: PrefixFrom_def)
    then show ?thesis
      using 2(2,3) unat_bits [of "p_bits (k_Prefix r)"]
      by (simp add: t a record_bytes_def PrefixMaterial_def unpack_rec_def Let_def exp unpacked_def
          zero_pack_rec_def del: As16.simps)
  qed
qed

lemma unpack_rec_string:
  assumes t: "h_Type h = PackTypeString" and f: "fits h r"
  shows "unpack_rec h (record_bytes (h_Type h) (h_Flags h) r @ rest) = Inr (unpacked h r, rest)"
proof -
  have ne: "PackTypeString \<noteq> PackTypeCIDR" by (simp add: pack_consts)
  have e: "int64_range (k_Exp r)" and v: "length (k_Value r) < 2 ^ 16"
    and rs: "has_reasons (h_Flags h) \<Longrightarrow> length (k_Reason r) < 2 ^ 16"
    using f t ne by (auto simp: fits_def)
  let ?tail = "if has_reasons (h_Flags h)
    then le_bytes 2 (word_of_nat (length (k_Reason r)) :: u16) @ bytes_of_string (k_Reason r) else []"
  have exp: "unpack_exp_reason h r' (le_bytes 8 (word_of_int (k_Exp r) :: u64) @ ?tail @ rest)
      = Inr (r'\<lparr>k_Exp := k_Exp r, k_Reason := (if has_reasons (h_Flags h) then k_Reason r else k_Reason r')\<rparr>, rest)" for r'
    using unpack_exp_reason_bytes [OF e, of h "k_Reason r" ?tail r' rest] t rs by simp
  have u: "unat (word_of_nat (length (k_Value r)) :: u16) = length (k_Value r)" by (rule unat_len16 [OF v])
  show ?thesis
    using ne exp
    by (simp add: t record_bytes_def unpack_rec_def Let_def unpacked_def zero_pack_rec_def u)
qed

lemma unpack_rec_bytes:
  "pack_typed h \<Longrightarrow> fits h r \<Longrightarrow>
   unpack_rec h (record_bytes (h_Type h) (h_Flags h) r @ rest) = Inr (unpacked h r, rest)"
  using unpack_rec_cidr unpack_rec_string by (auto simp: pack_typed_def)

lemma unpack_loop_bytes:
  assumes "pack_typed h" and "\<forall>r\<in>set recs. fits h r"
  shows "unpack_loop h (length recs) (concat (map (record_bytes (h_Type h) (h_Flags h)) recs) @ rest) acc
    = Inr (acc @ map (unpacked h) recs)"
  using assms(2)
  by (induction recs arbitrary: acc) (simp_all add: unpack_rec_bytes [OF assms(1)])

lemma unpack_head_header:
  assumes "length (h_Key h) = 16"
  shows "unpack_head (header_bytes h @ rest) = h"
proof -
  obtain m0 m1 m2 m3 where m: "bytes_of_string packMagic = [m0, m1, m2, m3]"
    by (simp add: packMagic_def bytes_of_string_def)
  show ?thesis using assms by (simp add: unpack_head_def header_bytes_def m)
qed

lemma Unpack_Pack_order:
  assumes typed: "pack_typed h" and fit: "\<forall>r\<in>set recs. fits h r" and len: "length (pack_order h recs) < 2 ^ 32"
    and ord: "set (pack_order h recs) = set recs"
  shows "Unpack (Pack h recs)
    = Inr (h\<lparr>h_Count := word_of_nat (length (pack_order h recs))\<rparr>, map (unpacked h) (pack_order h recs))"
proof -
  let ?rs = "pack_order h recs"
  let ?h = "h\<lparr>h_Count := word_of_nat (length ?rs)\<rparr>"
  let ?body = "concat (map (record_bytes (h_Type h) (h_Flags h)) ?rs)"
  have k: "length (h_Key ?h) = 16" using typed by (simp add: pack_typed_def)
  have hl: "length (header_bytes ?h) = packHeader" using length_header_bytes [OF k] .
  have body: "unpack_loop ?h (length ?rs) ?body [] = Inr (map (unpacked ?h) ?rs)"
    using unpack_loop_bytes [of ?h ?rs "[]" "[]"] typed fit ord by simp
  have magic: "string_of_bytes (take 4 (header_bytes ?h @ ?body)) = packMagic"
    and ver: "(header_bytes ?h @ ?body) ! 4 = PackVersion"
    by (simp_all add: header_bytes_def packMagic_def bytes_of_string_def string_of_bytes_def)
  have cnt: "unat (h_Count ?h) = length ?rs" using len by (simp add: unat_of_nat)
  show ?thesis
    unfolding Pack_concat Unpack_def Let_def unpack_head_header [OF k] cnt
    using magic ver hl body by simp
qed

section \<open>The snapshot order\<close>

text \<open>
  The contract of a slice sorter, and what a client may rely on: two sorters agree on a list
  whose elements are pairwise comparable. The snapshot bytes then do not depend on how
  \<open>sort.Slice\<close> works or in which order the map was read.
\<close>

locale slice_sorter =
  fixes lt :: "'a \<Rightarrow> 'a \<Rightarrow> bool"
    and sorter :: "'a list \<Rightarrow> 'a list"
  assumes sorter_mset: "mset (sorter xs) = mset xs"
    and sorter_sorted: "sorted_wrt (\<lambda>a b. \<not> lt b a) (sorter xs)"
begin

lemma sorter_set: "set (sorter xs) = set xs"
  by (metis sorter_mset set_mset_mset)

lemma sorter_length: "length (sorter xs) = length xs"
  by (metis sorter_mset size_mset)

text \<open>With a total order on the elements there is only one sorted permutation.\<close>

lemma sorted_unique:
  assumes "sorted_wrt (\<lambda>a b. \<not> lt b a) xs" and "sorted_wrt (\<lambda>a b. \<not> lt b a) ys"
    and "mset xs = mset ys" and "distinct xs"
    and "\<And>a b. a \<in> set xs \<Longrightarrow> b \<in> set xs \<Longrightarrow> a \<noteq> b \<Longrightarrow> lt a b \<or> lt b a"
  shows "xs = ys"
  using assms
proof (induction xs arbitrary: ys)
  case (Cons x xs)
  then obtain y ys' where ys: "ys = y # ys'" by (cases ys) auto
  have sets: "set (x # xs) = set (y # ys')" using Cons.prems(3) ys by (metis set_mset_mset)
  have "x = y"
  proof (rule ccontr)
    assume ne: "x \<noteq> y"
    then have m: "y \<in> set xs" "x \<in> set ys'" using sets by auto
    then have "\<not> lt y x" "\<not> lt x y" using Cons.prems(1,2) ys by auto
    with Cons.prems(5) [of x y] ne m show False by auto
  qed
  moreover from this have "xs = ys'"
    using Cons.prems ys by (intro Cons.IH) auto
  ultimately show ?case using ys by simp
qed simp

lemma sorter_canonical:
  assumes "distinct xs" and "mset xs = mset ys"
    and "\<And>a b. a \<in> set xs \<Longrightarrow> b \<in> set xs \<Longrightarrow> a \<noteq> b \<Longrightarrow> lt a b \<or> lt b a"
  shows "sorter xs = sorter ys"
proof (rule sorted_unique)
  show "mset (sorter xs) = mset (sorter ys)" by (simp add: sorter_mset assms(2))
  show "distinct (sorter xs)" using assms(1) by (metis mset_eq_imp_distinct_iff sorter_mset)
qed (use assms(3) sorter_set sorter_sorted in auto)

end

lemma sort_insert_mset: "mset (sort_insert lt x ys) = add_mset x (mset ys)"
  by (induction ys) auto

lemma sort_insert_sorted:
  assumes nt: "\<And>a b c. \<not> lt b a \<Longrightarrow> \<not> lt c b \<Longrightarrow> \<not> lt c a" and as: "\<And>a b. lt a b \<Longrightarrow> \<not> lt b a"
    and "sorted_wrt (\<lambda>a b. \<not> lt b a) ys"
  shows "sorted_wrt (\<lambda>a b. \<not> lt b a) (sort_insert lt x ys)"
  using assms(3)
proof (induction ys)
  case (Cons y ys)
  have set: "set (sort_insert lt x ys) = insert x (set ys)"
    by (metis set_mset_add_mset_insert set_mset_mset sort_insert_mset)
  have y: "\<forall>z\<in>set ys. \<not> lt z y" and ys: "sorted_wrt (\<lambda>a b. \<not> lt b a) ys" using Cons.prems by auto
  show ?case
  proof (cases "lt x y")
    case True
    then have "\<not> lt y x" by (rule as)
    moreover have "\<forall>z\<in>set ys. \<not> lt z x" using y nt \<open>\<not> lt y x\<close> by blast
    ultimately show ?thesis using True y ys by simp
  next
    case False
    with Cons.IH [OF ys] y show ?thesis by (simp add: set)
  qed
qed simp

lemma sort_Slice_correct:
  assumes nt: "\<And>a b c. \<not> lt b a \<Longrightarrow> \<not> lt c b \<Longrightarrow> \<not> lt c a" and as: "\<And>a b. lt a b \<Longrightarrow> \<not> lt b a"
  shows "mset (sort_Slice lt xs) = mset xs \<and> sorted_wrt (\<lambda>a b. \<not> lt b a) (sort_Slice lt xs)"
proof -
  have "sorted_wrt (\<lambda>a b. \<not> lt b a) acc \<Longrightarrow>
      mset (foldl (\<lambda>acc x. sort_insert lt x acc) acc xs) = mset acc + mset xs
      \<and> sorted_wrt (\<lambda>a b. \<not> lt b a) (foldl (\<lambda>acc x. sort_insert lt x acc) acc xs)" for acc
  proof (induction xs arbitrary: acc)
    case (Cons x xs)
    then show ?case using sort_insert_sorted [where lt = lt and ys = acc and x = x, OF nt as] by (simp add: sort_insert_mset)
  qed simp
  from this [of "[]"] show ?thesis by (simp add: sort_Slice_def)
qed

lemma string_less_asym: "string_less a b \<Longrightarrow> \<not> string_less b a"
  using string_less_trans string_less_irrefl by blast

lemma string_less_neg_trans: "\<not> string_less b a \<Longrightarrow> \<not> string_less c b \<Longrightarrow> \<not> string_less c a"
  using string_less_linear string_less_trans by metis

lemma addr_Is6_BitLen: "addr_Is6 a \<longleftrightarrow> BitLen a = 128"
  by (cases a) auto

lemma addr_Compare_asym: "addr_Compare_less a b \<Longrightarrow> \<not> addr_Compare_less b a"
  by (auto simp: addr_Compare_less_def split: if_splits dest: string_less_asym)

lemma addr_Compare_neg_trans:
  "\<not> addr_Compare_less b a \<Longrightarrow> \<not> addr_Compare_less c b \<Longrightarrow> \<not> addr_Compare_less c a"
  unfolding addr_Compare_less_def addr_Is6_BitLen
  by (auto split: if_splits dest: string_less_neg_trans)

lemma pack_less_asym: "pack_less t a b \<Longrightarrow> \<not> pack_less t b a"
  by (auto simp: pack_less_def split: if_splits dest: string_less_asym addr_Compare_asym)

lemma pack_less_neg_trans: "\<not> pack_less t b a \<Longrightarrow> \<not> pack_less t c b \<Longrightarrow> \<not> pack_less t c a"
  unfolding pack_less_def
  by (auto split: if_splits dest: string_less_neg_trans addr_Compare_neg_trans)

interpretation snap_sort: slice_sorter "pack_less t" "sort_Slice (pack_less t)" for t
  using sort_Slice_correct [of "pack_less t", OF pack_less_neg_trans pack_less_asym]
  by unfold_locales auto

lemma pack_order_set [simp]: "set (pack_order h recs) = set recs" "length (pack_order h recs) = length recs"
  by (simp_all add: pack_order_def snap_sort.sorter_set snap_sort.sorter_length)

section \<open>Properties\<close>

text \<open>
  C33: \<open>Unpack\<close> reads back what \<open>Pack\<close> wrote: for records that fit the format (prefixes without a
  zone, texts below 64 KiB, expiries in \<open>int64\<close>) and fewer than 2^32 of them, the header comes back
  with the record count filled in and the records come back in the packed order, less the fields
  the type of the set does not carry.
\<close>

theorem Unpack_Pack:
  assumes "pack_typed h" and "\<forall>r\<in>set recs. fits h r" and "length recs < 2 ^ 32"
  shows "Unpack (Pack h recs)
    = Inr (h\<lparr>h_Count := word_of_nat (length recs)\<rparr>, map (unpacked h) (pack_order h recs))"
  using Unpack_Pack_order [OF assms(1,2)] assms(3) by simp

definition demo_head :: "byte \<Rightarrow> set_type \<Rightarrow> pack_head" where
  "demo_head kind t =
     \<lparr>h_Kind = kind, h_Type = PackType t, h_Flags = PackFlags t, h_Epoch = 7, h_Seq = 17, h_Hash = 9,
      h_Key = replicate 16 0, h_Count = 0\<rparr>"

definition demo_recs :: "pack_rec list" where
  "demo_recs =
     [\<lparr>k_Op = RecAdd, k_Prefix = \<lparr>p_addr = Addr4 0x0a000000, p_bits = 8\<rparr>, k_Value = ''10.0.0.0/8'', k_Exp = 5,
       k_Reason = ''abuse''\<rparr>,
      \<lparr>k_Op = RecRemove, k_Prefix = \<lparr>p_addr = Addr6 1 [], p_bits = 128\<rparr>, k_Value = ''::1/128'', k_Exp = 0,
       k_Reason = []\<rparr>]"

lemmas demo_pack = demo_head_def demo_recs_def pack_typed_def fits_def wire_prefix_def pack_consts
  PackType_def PackFlags_def int64_range_def unpacked_def pack_order_def has_reasons_def

theorem Unpack_Pack_witness:
  "Unpack (Pack (demo_head KindPackage TypeCIDR) demo_recs)
     = Inr ((demo_head KindPackage TypeCIDR)\<lparr>h_Count := 2\<rparr>,
         map (\<lambda>r. r\<lparr>k_Value := [], k_Reason := []\<rparr>) demo_recs)"
  using Unpack_Pack [of "demo_head KindPackage TypeCIDR" demo_recs]
  by (simp add: demo_pack)

text \<open>
  The bytes of a snapshot are determined by its content: two listings of the same records in
  different orders, as a Go map yields them, pack to the same bytes whenever any two records differ
  in the sort key.
\<close>

theorem snapshot_bytes_canonical:
  assumes "h_Kind h = KindSnapshot" and "mset recs = mset recs'" and "distinct recs"
    and "\<forall>a\<in>set recs. \<forall>b\<in>set recs. a \<noteq> b \<longrightarrow> pack_less (h_Type h) a b \<or> pack_less (h_Type h) b a"
  shows "Pack h recs = Pack h recs'"
proof -
  have "pack_order h recs = pack_order h recs'"
    using snap_sort.sorter_canonical [OF assms(3,2), of "h_Type h"] assms(1,4) by (auto simp: pack_order_def)
  then show ?thesis by (simp only: Pack_concat)
qed

theorem snapshot_bytes_canonical_witness:
  "Pack (demo_head KindSnapshot TypeCIDR) demo_recs = Pack (demo_head KindSnapshot TypeCIDR) (rev demo_recs)"
  by (rule snapshot_bytes_canonical)
    (simp_all add: demo_head_def demo_recs_def pack_less_def PackType_def family_def)

text \<open>
  \<open>Pack\<close> writes exactly as many bytes as it reserves: the size computed from \<open>recordSize\<close> is the
  length of the result, for every list of records.
\<close>

theorem Pack_exact_size:
  assumes "length (h_Key h) = 16"
  shows "length (Pack h recs) = pack_size h recs"
proof -
  have "mset (pack_order h recs) = mset recs" by (simp add: pack_order_def snap_sort.sorter_mset)
  then have "sum_list (map f (pack_order h recs)) = sum_list (map f recs)" for f :: "pack_rec \<Rightarrow> nat"
    by (metis mset_map sum_mset_sum_list)
  then show ?thesis using Pack_length [OF assms] by (simp add: pack_size_def)
qed

theorem Pack_exact_size_witness:
  "length (Pack (demo_head KindSnapshot TypeCIDR) demo_recs) = 94"
  using Pack_exact_size [of "demo_head KindSnapshot TypeCIDR" demo_recs]
  by (simp add: demo_head_def demo_recs_def pack_size_def packHeader_def recordSize_def PackType_def family_def)

end
