(* ===== verification/Wire.thy ===== *)
theory Wire
  imports Pack
begin

text \<open>
  \<open>src/internal/wire/wire.go\<close>: frames, requests and replies as records with the source's fields,
  the operation names and error codes, and the base64 text (\<open>encoding/base64\<close>) in which a small
  package rides inside a frame.
\<close>

section \<open>Names and codes\<close>

definition V3 :: int where "V3 = 3"

definition OpDiff :: string where "OpDiff = ''diff''"
definition OpSnapshot :: string where "OpSnapshot = ''snapshot''"
definition OpTick :: string where "OpTick = ''tick''"
definition OpNotReady :: string where "OpNotReady = ''not_ready''"
definition OpUnknownSet :: string where "OpUnknownSet = ''unknown_set''"
definition OpStoreUnavailable :: string where "OpStoreUnavailable = ''store_unavailable''"

definition ErrUnknownSet :: string where "ErrUnknownSet = ''unknown_set''"
definition ErrFull :: string where "ErrFull = ''full''"
definition ErrWrongType :: string where "ErrWrongType = ''wrong_type''"
definition ErrValueTooLong :: string where "ErrValueTooLong = ''too_long''"
definition ErrNoOrigin :: string where "ErrNoOrigin = ''no_origin''"
definition ErrNoTTL :: string where "ErrNoTTL = ''no_ttl''"
definition ErrBadOp :: string where "ErrBadOp = ''bad_op''"
definition ErrBadRequest :: string where "ErrBadRequest = ''bad_request''"
definition ErrStoreUnavailable :: string where "ErrStoreUnavailable = ''store_unavailable''"
definition ErrNotReady :: string where "ErrNotReady = ''not_ready''"
definition ErrOverloaded :: string where "ErrOverloaded = ''overloaded''"
definition ErrForever :: string where "ErrForever = ''forever''"

lemmas wire_codes =
  ErrUnknownSet_def ErrFull_def ErrWrongType_def ErrValueTooLong_def ErrNoOrigin_def ErrNoTTL_def
  ErrBadOp_def ErrBadRequest_def ErrStoreUnavailable_def ErrNotReady_def ErrOverloaded_def ErrForever_def

section \<open>Messages\<close>

record frame =
  f_V :: int
  f_Set :: string
  f_Epoch :: string
  f_Seq :: u64
  f_Op :: string
  f_Hash :: string
  f_Key :: string
  f_Package :: string
  f_Inline :: string
  f_Object :: string
  f_Count :: int
  f_Bytes :: int
  f_TTL :: int

definition zero_frame :: frame where
  "zero_frame =
     \<lparr>f_V = 0, f_Set = [], f_Epoch = [], f_Seq = 0, f_Op = [], f_Hash = [], f_Key = [], f_Package = [],
      f_Inline = [], f_Object = [], f_Count = 0, f_Bytes = 0, f_TTL = 0\<rparr>"

record event =
  ev_V :: int
  ev_Set :: string
  ev_Op :: string
  ev_Value :: string
  ev_Values :: "string list"
  ev_TTL :: int
  ev_Origin :: string
  ev_Reason :: string
  ev_Forever :: bool
  ev_Hashed :: bool

record event_reply =
  er_OK :: bool
  er_Seq :: u64
  er_Epoch :: string
  er_Error :: string
  er_Limit :: int

definition event_error :: "string \<Rightarrow> event_reply" where
  "event_error code = \<lparr>er_OK = False, er_Seq = 0, er_Epoch = [], er_Error = code, er_Limit = 0\<rparr>"

record define_reply =
  dr_OK :: bool
  dr_Epoch :: string
  dr_Error :: string

record lookup_reply =
  lr_OK :: bool
  lr_Found :: bool
  lr_Exp :: int
  lr_Error :: string

definition KeyHex :: "byte list \<Rightarrow> string" where
  "KeyHex k = hex_encode k"

section \<open>Base64\<close>

definition b64_alphabet :: string where
  "b64_alphabet = ''ABCDEFGHIJKLMNOPQRSTUVWXYZabcdefghijklmnopqrstuvwxyz0123456789+/''"

definition b64_char :: "nat \<Rightarrow> char" where
  "b64_char i = b64_alphabet ! i"

text \<open>\<open>base64.StdEncoding.EncodeToString\<close>: three bytes to four characters, padded with \<open>=\<close>.\<close>

fun b64_encode :: "byte list \<Rightarrow> string" where
  "b64_encode [] = []"
| "b64_encode [a] =
     [b64_char (unat a div 4), b64_char (unat a mod 4 * 16), CHR ''='', CHR ''='']"
| "b64_encode [a, b] =
     [b64_char (unat a div 4), b64_char (unat a mod 4 * 16 + unat b div 16),
      b64_char (unat b mod 16 * 4), CHR ''='']"
| "b64_encode (a # b # c # bs) =
     b64_char (unat a div 4) # b64_char (unat a mod 4 * 16 + unat b div 16)
     # b64_char (unat b mod 16 * 4 + unat c div 64) # b64_char (unat c mod 64) # b64_encode bs"

text \<open>What a receiver reads back: the standard decoder, four characters to three bytes.\<close>

definition b64_value :: "char \<Rightarrow> nat option" where
  "b64_value c =
     (let n = of_char c
      in if 65 \<le> n \<and> n \<le> 90 then Some (n - 65)
         else if 97 \<le> n \<and> n \<le> 122 then Some (n - 97 + 26)
         else if 48 \<le> n \<and> n \<le> 57 then Some (n - 48 + 52)
         else if c = CHR ''+'' then Some 62
         else if c = CHR ''/'' then Some 63
         else None)"

fun b64_decode :: "string \<Rightarrow> byte list option" where
  "b64_decode [] = Some []"
| "b64_decode (w # x # y # z # cs) =
     (case (b64_value w, b64_value x) of
        (Some p, Some q) \<Rightarrow>
          (if y = CHR ''='' then
             (if z = CHR ''='' \<and> cs = [] then Some [word_of_nat (p * 4 + q div 16)] else None)
           else (case b64_value y of
              None \<Rightarrow> None
            | Some r \<Rightarrow>
                if z = CHR ''='' then
                  (if cs = [] then Some [word_of_nat (p * 4 + q div 16), word_of_nat (q mod 16 * 16 + r div 4)]
                   else None)
                else (case b64_value z of
                   None \<Rightarrow> None
                 | Some s \<Rightarrow>
                     map_option (\<lambda>bs. word_of_nat (p * 4 + q div 16) # word_of_nat (q mod 16 * 16 + r div 4)
                       # word_of_nat (r mod 4 * 64 + s) # bs) (b64_decode cs))))
      | _ \<Rightarrow> None)"
| "b64_decode _ = None"

lemma b64_table: "map b64_value b64_alphabet = map Some [0..<64]" "length b64_alphabet = 64"
  by (simp_all add: b64_alphabet_def b64_value_def Let_def upt_rec)

lemma b64_value_char [simp]: "i < 64 \<Longrightarrow> b64_value (b64_char i) = Some i"
  using arg_cong [OF b64_table(1), of "\<lambda>xs. xs ! i"] by (simp add: b64_char_def b64_table(2))

lemma b64_char_not_pad [simp]: "i < 64 \<Longrightarrow> b64_char i \<noteq> CHR ''=''"
proof
  assume "i < 64" "b64_char i = CHR ''=''"
  then have "b64_value (CHR ''='') = Some i" using b64_value_char by metis
  then show False by (simp add: b64_value_def)
qed

lemma unat_byte_less: "unat (b :: byte) < 256"
  using unsigned_less [of b, where ?'a = nat] by simp

lemma b64_parts:
  fixes a :: byte
  shows "unat a div 4 < 64" and "unat a div 16 < 16" and "unat a div 64 < 4"
    and "unat a mod 4 < 4" and "unat a mod 16 < 16" and "unat a mod 64 < 64"
  using less_mult_imp_div_less [of "unat a" 64 4] less_mult_imp_div_less [of "unat a" 16 16]
    less_mult_imp_div_less [of "unat a" 4 64] unat_byte_less [of a] by simp_all

lemma b64_index:
  fixes a b :: byte
  shows "unat a mod 4 * 16 < 64" and "unat a mod 4 * 16 + unat b div 16 < 64"
    and "unat a mod 16 * 4 < 64" and "unat a mod 16 * 4 + unat b div 64 < 64"
  using b64_parts [of a] b64_parts [of b] by linarith+

lemma b64_join:
  fixes a b :: nat
  shows "b < 16 \<Longrightarrow> (a * 16 + b) div 16 = a" and "b < 16 \<Longrightarrow> (a * 16 + b) mod 16 = b"
    and "b < 4 \<Longrightarrow> (a * 4 + b) div 4 = a" and "b < 4 \<Longrightarrow> (a * 4 + b) mod 4 = b"
  by simp_all

lemma b64_decode_encode: "b64_decode (b64_encode bs) = Some bs"
  by (induction bs rule: b64_encode.induct) (simp_all add: b64_parts b64_index b64_join)

end
