(* ===== verification/RedisState.thy ===== *)
theory RedisState
  imports SetInv Wire
begin

text \<open>
  \<open>src/internal/state/state.go\<close>: the state of the sets in Redis. \<open>Load\<close>, \<open>Reset\<close>, \<open>Commit\<close>, \<open>Put\<close> and
  \<open>Drop\<close> are modelled by the commands they send and the answers they read; the Redis service
  itself is an argument (\<open>redis_api\<close>), and what its documentation promises of the commands is the
  predicate \<open>redis_ok\<close>. A committed transaction makes the stored records and the meta those of
  the new state of the set.
\<close>

section \<open>Keys and meta\<close>

record meta =
  m_ID :: string
  m_Type :: set_type
  m_Epoch :: u64
  m_Key :: "byte list"
  m_Seq :: u64
  m_Hash :: u64

definition SetKey :: "string \<Rightarrow> string" where "SetKey name = ''waf:set:'' @ name"
definition WhyKey :: "string \<Rightarrow> string" where "WhyKey name = ''waf:set:'' @ name @ '':why''"
definition MetaKey :: "string \<Rightarrow> string" where "MetaKey name = ''waf:set:'' @ name @ '':meta''"

definition DiffKey :: "string \<Rightarrow> u64 \<Rightarrow> string" where
  "DiffKey name seq = ''waf:diff:'' @ name @ '':'' @ FormatUint seq"

definition SnapKey :: "string \<Rightarrow> u64 \<Rightarrow> u64 \<Rightarrow> string" where
  "SnapKey name epoch seq = ''waf:snap:'' @ name @ '':'' @ Hex epoch @ '':'' @ FormatUint seq"

definition whySep :: char where "whySep = CHR 0x1F"

definition metaFields :: "meta \<Rightarrow> (string \<times> string) list" where
  "metaFields m =
     [(''id'', m_ID m), (''type'', Itoa (m_Type m)), (''epoch'', Hex (m_Epoch m)),
      (''key'', hex_encode (m_Key m)), (''seq'', FormatUint (m_Seq m)), (''hash'', Hex (m_Hash m))]"

text \<open>A missing field of a Go map reads as the empty string.\<close>

definition field :: "(string, string) fmap \<Rightarrow> string \<Rightarrow> string" where
  "field f k = (case fmlookup f k of None \<Rightarrow> [] | Some v \<Rightarrow> v)"

definition parseMeta :: "(string, string) fmap \<Rightarrow> meta option" where
  "parseMeta f =
     (case Atoi (field f ''type'') of
        None \<Rightarrow> None
      | Some t \<Rightarrow>
     (case ParseUint 16 (field f ''epoch'') of
        None \<Rightarrow> None
      | Some epoch \<Rightarrow>
     (case hex_decode (field f ''key'') of
        None \<Rightarrow> None
      | Some key \<Rightarrow>
          if length key \<noteq> 16 then None
          else
     (case ParseUint 10 (field f ''seq'') of
        None \<Rightarrow> None
      | Some seq \<Rightarrow>
     (case ParseUint 16 (field f ''hash'') of
        None \<Rightarrow> None
      | Some hash \<Rightarrow>
          Some \<lparr>m_ID = field f ''id'', m_Type = t, m_Epoch = word_of_nat epoch, m_Key = key,
                m_Seq = word_of_nat seq, m_Hash = word_of_nat hash\<rparr>)))))"

section \<open>Scores\<close>

text \<open>
  A sorted-set score is a \<open>float64\<close>: \<open>float64(exp)\<close> rounds to 53 significant bits, to even on a tie.
  \<open>int64(score)\<close> of a value out of range is the least \<open>int64\<close>, as the amd64 instruction gives it.
\<close>

function f64_shift :: "int \<Rightarrow> nat" where
  "f64_shift a = (if a < 2 ^ 53 then 0 else Suc (f64_shift (a div 2)))"
  by pat_completeness auto
termination
  by (relation "measure nat") auto

declare f64_shift.simps [simp del]

definition float64_of_int :: "int \<Rightarrow> int" where
  "float64_of_int x =
     (let a = \<bar>x\<bar>; k = f64_shift a; q = a div 2 ^ k; rm = a mod 2 ^ k;
          q = (if 2 * rm > 2 ^ k \<or> 2 * rm = 2 ^ k \<and> odd q then q + 1 else q)
      in sgn x * q * 2 ^ k)"

definition int64_of_float :: "int \<Rightarrow> int" where
  "int64_of_float x = (if int64_range x then x else - (2 ^ 63))"

section \<open>The Redis interface\<close>

datatype redis_cmd =
    ZAdd string "(string \<times> int) list"
  | ZRem string "string list"
  | HSet string "(string \<times> string) list"
  | HDel string "string list"
  | SetEx string "byte list" int
  | Del "string list"

text \<open>
  The client calls the code makes: a hash read, a sorted-set read and a transaction, with \<open>None\<close>
  or \<open>False\<close> for an error. A transaction that reports an error may or may not have been applied.
\<close>

record 'r redis_api =
  api_HGetAll :: "string \<Rightarrow> 'r \<Rightarrow> (string, string) fmap option"
  api_ZRange :: "string \<Rightarrow> 'r \<Rightarrow> (string \<times> int) list option"
  api_Tx :: "redis_cmd list \<Rightarrow> 'r \<Rightarrow> 'r \<times> bool"

section \<open>The store operations\<close>

definition load_record :: "(string, string) fmap \<Rightarrow> string \<times> int \<Rightarrow> rec" where
  "load_record whys z =
     (let v = fst z;
          (origin, reason) = (case fmlookup whys v of None \<Rightarrow> ([], []) | Some w \<Rightarrow> Cut whySep w)
      in \<lparr>r_Value = v, r_Exp = int64_of_float (snd z), r_Origin = origin, r_Reason = reason,
          r_Prefix = zero_prefix\<rparr>)"

text \<open>The result: \<open>None\<close> on a Redis error, else the meta, the records and whether \<open>ErrBadMeta\<close> is set.\<close>

definition state_Load :: "'r redis_api \<Rightarrow> string \<Rightarrow> 'r \<Rightarrow> (meta option \<times> rec list \<times> bool) option" where
  "state_Load api name r =
     (case api_HGetAll api (MetaKey name) r of
        None \<Rightarrow> None
      | Some flds \<Rightarrow>
          if flds = fmempty then Some (None, [], False)
          else
            let meta = parseMeta flds; badMeta = (meta = None)
            in case api_ZRange api (SetKey name) r of
                 None \<Rightarrow> None
               | Some zs \<Rightarrow>
                   (case api_HGetAll api (WhyKey name) r of
                      None \<Rightarrow> None
                    | Some whys \<Rightarrow> Some (meta, map (load_record whys) zs, badMeta)))"

definition reset_cmds :: "string \<Rightarrow> meta \<Rightarrow> bool \<Rightarrow> redis_cmd list" where
  "reset_cmds name m keep =
     (if keep then [] else [Del [SetKey name, WhyKey name]]) @ [HSet (MetaKey name) (metaFields m)]"

definition state_Reset :: "'r redis_api \<Rightarrow> string \<Rightarrow> meta \<Rightarrow> bool \<Rightarrow> 'r \<Rightarrow> 'r \<times> bool" where
  "state_Reset api name m keep r = api_Tx api (reset_cmds name m keep) r"

definition run_cmds :: "string \<Rightarrow> delta list \<Rightarrow> redis_cmd list" where
  "run_cmds name run =
     (if dl_Op (hd run) = OpAdd then
        [ZAdd (SetKey name) (map (\<lambda>d. (r_Value (dl_Rec d), float64_of_int (r_Exp (dl_Rec d)))) run),
         HSet (WhyKey name)
           (map (\<lambda>d. (r_Value (dl_Rec d), r_Origin (dl_Rec d) @ whySep # r_Reason (dl_Rec d))) run)]
      else
        [ZRem (SetKey name) (map (\<lambda>d. r_Value (dl_Rec d)) run),
         HDel (WhyKey name) (map (\<lambda>d. r_Value (dl_Rec d)) run)])"

function commit_runs :: "string \<Rightarrow> delta list \<Rightarrow> redis_cmd list" where
  "commit_runs name [] = []"
| "commit_runs name (d # ds) =
     run_cmds name (d # takeWhile (\<lambda>e. dl_Op e = dl_Op d) ds)
     @ commit_runs name (dropWhile (\<lambda>e. dl_Op e = dl_Op d) ds)"
  by pat_completeness auto
termination
  by (relation "measure (\<lambda>(name, ds). length ds)") (auto simp: length_dropWhile_le less_Suc_eq_le)

definition commit_cmds ::
  "string \<Rightarrow> delta list \<Rightarrow> u64 \<Rightarrow> u64 \<Rightarrow> string \<Rightarrow> byte list \<Rightarrow> int \<Rightarrow> redis_cmd list" where
  "commit_cmds name ds seq hash pkgKey pkg ttl =
     commit_runs name ds @ [SetEx pkgKey pkg ttl,
       HSet (MetaKey name) [(''seq'', FormatUint seq), (''hash'', Hex hash)]]"

definition state_Commit ::
  "'r redis_api \<Rightarrow> string \<Rightarrow> delta list \<Rightarrow> u64 \<Rightarrow> u64 \<Rightarrow> string \<Rightarrow> byte list \<Rightarrow> int \<Rightarrow> 'r \<Rightarrow> 'r \<times> bool" where
  "state_Commit api name ds seq hash pkgKey pkg ttl r =
     api_Tx api (commit_cmds name ds seq hash pkgKey pkg ttl) r"

definition state_Put :: "'r redis_api \<Rightarrow> string \<Rightarrow> byte list \<Rightarrow> int \<Rightarrow> 'r \<Rightarrow> 'r \<times> bool" where
  "state_Put api key data ttl r = api_Tx api [SetEx key data ttl] r"

definition state_Drop :: "'r redis_api \<Rightarrow> string \<Rightarrow> 'r \<Rightarrow> 'r \<times> bool" where
  "state_Drop api name r = api_Tx api [Del [SetKey name, WhyKey name, MetaKey name]] r"

section \<open>What Redis documents\<close>

record redis_db =
  db_zset :: "string \<Rightarrow> (string, int) fmap"
  db_hash :: "string \<Rightarrow> (string, string) fmap"
  db_str :: "string \<Rightarrow> byte list option"

definition fmupds :: "('k \<times> 'v) list \<Rightarrow> ('k, 'v) fmap \<Rightarrow> ('k, 'v) fmap" where
  "fmupds kvs m = fold (\<lambda>(k, v). fmupd k v) kvs m"

fun cmd_effect :: "redis_cmd \<Rightarrow> redis_db \<Rightarrow> redis_db" where
  "cmd_effect (ZAdd k zs) db = db\<lparr>db_zset := (db_zset db)(k := fmupds zs (db_zset db k))\<rparr>"
| "cmd_effect (ZRem k vs) db = db\<lparr>db_zset := (db_zset db)(k := fold fmdrop vs (db_zset db k))\<rparr>"
| "cmd_effect (HSet k fs) db = db\<lparr>db_hash := (db_hash db)(k := fmupds fs (db_hash db k))\<rparr>"
| "cmd_effect (HDel k vs) db = db\<lparr>db_hash := (db_hash db)(k := fold fmdrop vs (db_hash db k))\<rparr>"
| "cmd_effect (SetEx k data ttl) db =
     \<lparr>db_zset = (db_zset db)(k := fmempty), db_hash = (db_hash db)(k := fmempty),
      db_str = (db_str db)(k := Some data)\<rparr>"
| "cmd_effect (Del ks) db =
     \<lparr>db_zset = (\<lambda>k. if k \<in> set ks then fmempty else db_zset db k),
      db_hash = (\<lambda>k. if k \<in> set ks then fmempty else db_hash db k),
      db_str = (\<lambda>k. if k \<in> set ks then None else db_str db k)\<rparr>"

text \<open>
  \<open>SET\<close> replaces a value of any type. A successful transaction applies its commands in order; a single
  command that reports an error was either applied or not; a successful read returns what is
  stored. \<open>view\<close> reads the contents of a server state.
\<close>

definition redis_ok :: "'r redis_api \<Rightarrow> ('r \<Rightarrow> redis_db) \<Rightarrow> bool" where
  "redis_ok api view \<longleftrightarrow>
     (\<forall>cmds r r'. api_Tx api cmds r = (r', True) \<longrightarrow> view r' = fold cmd_effect cmds (view r))
     \<and> (\<forall>c r r'. api_Tx api [c] r = (r', False) \<longrightarrow> view r' = view r \<or> view r' = cmd_effect c (view r))
     \<and> (\<forall>k r m. api_HGetAll api k r = Some m \<longrightarrow> m = db_hash (view r) k)
     \<and> (\<forall>k r zs. api_ZRange api k r = Some zs \<longrightarrow>
           distinct (map fst zs) \<and> map_of zs = fmlookup (db_zset (view r) k))"

end
