(* ===== verification/Keeper.thy ===== *)
theory Keeper
  imports SetExpiry RedisState
begin

text \<open>
  \<open>src/internal/keeper/keeper.go\<close>, the operations on one holder: a set with its queue of jobs, its
  queue of planned batches, its counters and its cached snapshot. \<open>Submit\<close> turns an event into a
  job, \<open>gather\<close> collects jobs into a batch, \<open>plan\<close> decides them and plans the accepted ones,
  \<open>commit\<close> writes a batch to the store and publishes it, \<open>Snapshot\<close> and \<open>Lookup\<close> read. The answers
  given on the reply channels and the frames handed to the bus are kept as output lists of the
  holder; the store is an argument.
\<close>

section \<open>Options and data\<close>

record options =
  o_Name :: string
  o_Tick :: int
  o_Sweep :: int
  o_BatchMax :: int
  o_Coalesce :: int
  o_QueueMax :: int
  o_Pipeline :: int
  o_DiffTTL :: int
  o_SnapshotTTL :: int
  o_InlineMax :: int

definition Second :: int where "Second = 1000000000"

text \<open>The defaults \<open>New\<close> fills in.\<close>

definition keeper_New_opts :: "options \<Rightarrow> options" where
  "keeper_New_opts op =
     (let op = (if o_BatchMax op \<le> 0 then op\<lparr>o_BatchMax := 10000\<rparr> else op);
          op = (if o_QueueMax op \<le> 0 then op\<lparr>o_QueueMax := 50000\<rparr> else op);
          op = (if o_Pipeline op \<le> 0 then op\<lparr>o_Pipeline := 4\<rparr> else op);
          op = (if o_Sweep op \<le> 0 then op\<lparr>o_Sweep := Second\<rparr> else op);
          op = (if o_SnapshotTTL op \<le> 0 then op\<lparr>o_SnapshotTTL := 30 * Second\<rparr> else op);
          op = (if o_DiffTTL op < wrap64 (2 * o_SnapshotTTL op)
                then op\<lparr>o_DiffTTL := wrap64 (2 * o_SnapshotTTL op)\<rparr> else op)
      in op)"

text \<open>A reply channel is named by a number; \<open>None\<close> is the nil channel. A zero deadline is \<open>None\<close>.\<close>

record job =
  j_op :: string
  j_recs :: "rec list"
  j_reply :: "nat option"
  j_deadline :: "int option"

record jobResult =
  q_code :: string
  q_seq :: u64
  q_epoch :: u64

definition zero_result :: jobResult where
  "zero_result = \<lparr>q_code = [], q_seq = 0, q_epoch = 0\<rparr>"

definition codeStale :: string where "codeStale = CHR 0x00 # ''stale''"

record stats =
  t_Writes :: int
  t_Rejects :: int
  t_Diffs :: int
  t_Inline :: int
  t_Expired :: int
  t_Snapshots :: int
  t_Packs :: int
  t_StoreErr :: int
  t_StoreMs :: int
  t_Overloaded :: int
  t_Stale :: int

definition zero_stats :: stats where
  "zero_stats = \<lparr>t_Writes = 0, t_Rejects = 0, t_Diffs = 0, t_Inline = 0, t_Expired = 0, t_Snapshots = 0,
     t_Packs = 0, t_StoreErr = 0, t_StoreMs = 0, t_Overloaded = 0, t_Stale = 0\<rparr>"

record batch =
  b_at :: int
  b_jobs :: "job list"
  b_results :: "jobResult list"
  b_plan :: plan
  b_pkgKey :: string
  b_pkg :: "byte list"

record snapObj =
  n_key :: string
  n_epoch :: u64
  n_seq :: u64
  n_hash :: u64
  n_count :: int
  n_bytes :: int
  n_at :: int

record holder =
  h_s :: sset
  h_jobs :: "job list"
  h_queued :: int
  h_batches :: "batch list"
  h_stop :: bool
  h_stats :: stats
  h_snap :: "snapObj option"
  h_answers :: "(nat \<times> jobResult) list"
  h_published :: "frame list"

abbreviation h_Def :: "holder \<Rightarrow> set_def" where "h_Def h \<equiv> s_Def (h_s h)"

text \<open>The interface \<open>state.Store\<close>; \<open>False\<close> is an error.\<close>

record 'r store =
  st_Load :: "string \<Rightarrow> 'r \<Rightarrow> (meta option \<times> rec list \<times> bool) option"
  st_Reset :: "string \<Rightarrow> meta \<Rightarrow> bool \<Rightarrow> 'r \<Rightarrow> 'r \<times> bool"
  st_Commit :: "string \<Rightarrow> delta list \<Rightarrow> u64 \<Rightarrow> u64 \<Rightarrow> string \<Rightarrow> byte list \<Rightarrow> int \<Rightarrow> 'r \<Rightarrow> 'r \<times> bool"
  st_Put :: "string \<Rightarrow> byte list \<Rightarrow> int \<Rightarrow> 'r \<Rightarrow> 'r \<times> bool"
  st_Drop :: "string \<Rightarrow> 'r \<Rightarrow> 'r \<times> bool"

definition redis_store :: "'r redis_api \<Rightarrow> 'r store" where
  "redis_store api =
     \<lparr>st_Load = state_Load api, st_Reset = state_Reset api, st_Commit = state_Commit api,
      st_Put = state_Put api, st_Drop = state_Drop api\<rparr>"

section \<open>Submit\<close>

definition submit_values :: "event \<Rightarrow> string list" where
  "submit_values ev = (if ev_Value ev \<noteq> [] then ev_Value ev # ev_Values ev else ev_Values ev)"

definition submit_code :: "canon_error \<Rightarrow> string" where
  "submit_code err = (if err = ErrTooLong then ErrValueTooLong else ErrWrongType)"

fun submit_loop :: "set_def \<Rightarrow> event \<Rightarrow> string list \<Rightarrow> string fset \<Rightarrow> rec list \<Rightarrow> string + rec list" where
  "submit_loop d ev [] seen recs = Inr recs"
| "submit_loop d ev (raw # raws) seen recs =
     (case CanonPrefix (d_Type d) raw of
        Inl err \<Rightarrow> Inl (submit_code err)
      | Inr (value, prefix) \<Rightarrow>
          let value = (if d_Hash d \<and> \<not> ev_Hashed ev then MD5Hex value else value)
          in if value |\<in>| seen then submit_loop d ev raws seen recs
             else submit_loop d ev raws (finsert value seen)
                    (recs @ [\<lparr>r_Value = value, r_Exp = 0, r_Origin = ev_Origin ev, r_Reason = ev_Reason ev,
                              r_Prefix = prefix\<rparr>]))"

text \<open>\<open>time.Duration(ttl) * time.Second\<close> wraps at 64 bits; the sum with the time does not.\<close>

definition submit_exp :: "int \<Rightarrow> int \<Rightarrow> int" where
  "submit_exp now ttl = UnixMilli (now + wrap64 (ttl * Second))"

text \<open>The part of \<open>Submit\<close> between finding the set and queueing the job.\<close>

definition submit_prepare :: "set_def \<Rightarrow> event \<Rightarrow> int \<Rightarrow> string + (string \<times> rec list)" where
  "submit_prepare d ev now =
     (let op = (if ev_Op ev = [] then OpAdd else ev_Op ev)
      in if op \<noteq> OpAdd \<and> op \<noteq> OpRemove then Inl ErrBadOp
         else if TrimSpace (ev_Origin ev) = [] then Inl ErrNoOrigin
         else if submit_values ev = [] then Inl ErrWrongType
         else case submit_loop d ev (submit_values ev) {||} [] of
                Inl code \<Rightarrow> Inl code
              | Inr recs \<Rightarrow>
                  if op = OpAdd then
                    let ttl = (if ev_TTL ev \<le> 0 then d_TTL d else ev_TTL ev)
                    in if ev_Forever ev then Inl ErrForever
                       else if ttl \<le> 0 then Inl ErrNoTTL
                       else Inr (op, map (\<lambda>r. r\<lparr>r_Exp := submit_exp now ttl\<rparr>) recs)
                  else Inr (op, recs))"

text \<open>
  The outcome of the first \<open>select\<close>: the job was queued, the deadline passed or the set was stopped. The code reads the number of
  queued records, adds to it and sends in separate steps, so that concurrent calls can pass the check together and exceed the
  limit of the queue for a moment; here a call runs in one step, and no theorem relies on that limit.
\<close>

datatype queue_select = JobSent | CtxDone | HolderStopped

definition submit_queue ::
  "options \<Rightarrow> string \<times> rec list \<Rightarrow> nat \<Rightarrow> int option \<Rightarrow> queue_select \<Rightarrow> holder \<Rightarrow> holder \<times> event_reply option" where
  "submit_queue opts w rid deadline sel h =
     (let (op, recs) = w; n = int (length recs)
      in if h_queued h + n > o_QueueMax opts
         then (h\<lparr>h_stats := (h_stats h)\<lparr>t_Overloaded := t_Overloaded (h_stats h) + 1\<rparr>\<rparr>,
               Some (event_error ErrOverloaded))
         else
           (case sel of
              JobSent \<Rightarrow>
                (h\<lparr>h_queued := h_queued h + n,
                   h_jobs := h_jobs h @ [\<lparr>j_op = op, j_recs = recs, j_reply = Some rid, j_deadline = deadline\<rparr>]\<rparr>,
                 None)
            | CtxDone \<Rightarrow> (h, Some (event_error ErrStoreUnavailable))
            | HolderStopped \<Rightarrow> (h, Some (event_error ErrUnknownSet))))"

text \<open>The second \<open>select\<close>: the result of the job, or \<open>None\<close> when the deadline passes first.\<close>

definition submit_reply :: "set_def \<Rightarrow> jobResult option \<Rightarrow> event_reply" where
  "submit_reply d q =
     (case q of
        None \<Rightarrow> event_error ErrStoreUnavailable
      | Some r \<Rightarrow>
          if q_code r \<noteq> []
          then (event_error (q_code r))\<lparr>er_Limit := (if q_code r = ErrFull then d_Limit d else 0)\<rparr>
          else \<lparr>er_OK = True, er_Seq = q_seq r, er_Epoch = Hex (q_epoch r), er_Error = [], er_Limit = 0\<rparr>)"

section \<open>gather\<close>

definition take_job :: "job \<Rightarrow> holder \<Rightarrow> holder" where
  "take_job j h = h\<lparr>h_queued := h_queued h - int (length (j_recs j))\<rparr>"

text \<open>What the blocking \<open>select\<close> sees next once the queue is empty: a new job, the end of the window or of the set.\<close>

datatype gather_event = Arrive job | WindowEnd | GatherStop

function gather_loop ::
  "options \<Rightarrow> gather_event list \<Rightarrow> holder \<Rightarrow> job list \<Rightarrow> int \<Rightarrow> holder \<times> job list" where
  "gather_loop opts evs h batch n =
     (if \<not> n < o_BatchMax opts then (h, batch)
      else case h_jobs h of
             j # js \<Rightarrow> gather_loop opts evs (take_job j (h\<lparr>h_jobs := js\<rparr>)) (batch @ [j]) (n + int (length (j_recs j)))
           | [] \<Rightarrow>
               if o_Coalesce opts \<le> 0 then (h, batch)
               else (case evs of
                       Arrive j # evs' \<Rightarrow>
                         gather_loop opts evs' (take_job j h) (batch @ [j]) (n + int (length (j_recs j)))
                     | _ \<Rightarrow> (h, batch)))"
  by pat_completeness auto
termination
  by (relation "measure (\<lambda>(opts, evs, h, batch, n). length evs + length (h_jobs h))") (auto simp: take_job_def)

declare gather_loop.simps [simp del]

definition gather :: "options \<Rightarrow> gather_event list \<Rightarrow> job \<Rightarrow> holder \<Rightarrow> holder \<times> job list" where
  "gather opts evs j1 h = gather_loop opts evs (take_job j1 h) [j1] (int (length (j_recs j1)))"

section \<open>plan\<close>

record collect =
  g_results :: "jobResult list"
  g_deltas :: "delta list"
  g_accepted :: "nat list"
  g_seen :: "string fset"
  g_size :: int
  g_stale :: int

definition collect_init :: "sset \<Rightarrow> collect" where
  "collect_init s =
     \<lparr>g_results = [], g_deltas = [], g_accepted = [], g_seen = {||}, g_size = set_Size s, g_stale = 0\<rparr>"

definition collect_refuse :: "string \<Rightarrow> collect \<Rightarrow> collect" where
  "collect_refuse code c = c\<lparr>g_results := g_results c @ [zero_result\<lparr>q_code := code\<rparr>]\<rparr>"

definition job_deltas :: "job \<Rightarrow> delta list" where
  "job_deltas j = map (\<lambda>r. \<lparr>dl_Op = j_op j, dl_Rec = r, dl_hash = 0\<rparr>) (j_recs j)"

definition collect_accept :: "job \<Rightarrow> collect \<Rightarrow> collect" where
  "collect_accept j c =
     c\<lparr>g_deltas := g_deltas c @ job_deltas j,
       g_accepted := g_accepted c @ [length (g_results c)],
       g_results := g_results c @ [zero_result]\<rparr>"

definition job_stale :: "int \<Rightarrow> job \<Rightarrow> bool" where
  "job_stale now j = (case j_deadline j of None \<Rightarrow> False | Some dl \<Rightarrow> now > dl)"

definition collect_job :: "int \<Rightarrow> sset \<Rightarrow> job \<Rightarrow> collect \<Rightarrow> collect" where
  "collect_job now s j c =
     (if job_stale now j then (collect_refuse codeStale c)\<lparr>g_stale := g_stale c + 1\<rparr>
      else if j_recs j = [] then collect_refuse ErrBadRequest c
      else if j_op j = OpAdd \<and> d_Limit (s_Def s) > 0 then
        let values = map r_Value (j_recs j);
            fresh = set_Fresh s values (g_seen c)
        in if g_size c + fresh > d_Limit (s_Def s) then collect_refuse ErrFull c
           else collect_accept j (c\<lparr>g_seen := g_seen c |\<union>| fset_of_list values, g_size := g_size c + fresh\<rparr>)
      else collect_accept j c)"

definition mark_result :: "job list \<Rightarrow> plan \<Rightarrow> nat \<Rightarrow> jobResult list \<Rightarrow> jobResult list" where
  "mark_result jobs p i results =
     (let recs = j_recs (jobs ! i)
      in if length recs = 1 \<and> r_Value (recs ! 0) \<in> r_Value ` set (pl_Rejected p)
         then results[i := (results ! i)\<lparr>q_code := ErrFull\<rparr>]
         else results[i := (results ! i)\<lparr>q_seq := pl_Seq p\<rparr>])"

definition decide :: "job list \<Rightarrow> collect \<Rightarrow> sset \<Rightarrow> sset \<times> plan \<times> jobResult list" where
  "decide jobs c s =
     (if g_deltas c = [] then (s, zero_plan, g_results c)
      else let (s', p) = set_Plan (g_deltas c) s
           in (s', p, fold (mark_result jobs p) (g_accepted c) (g_results c)))"

definition count_answer :: "jobResult \<Rightarrow> stats \<Rightarrow> stats" where
  "count_answer r t = (if q_code r = [] then t\<lparr>t_Writes := t_Writes t + 1\<rparr> else t\<lparr>t_Rejects := t_Rejects t + 1\<rparr>)"

definition answer :: "u64 \<Rightarrow> job \<times> jobResult \<Rightarrow> holder \<Rightarrow> holder" where
  "answer epoch jr h =
     (let (j, r) = jr
      in case j_reply j of
           None \<Rightarrow> h
         | Some rid \<Rightarrow>
             if q_code r = codeStale then h
             else h\<lparr>h_stats := count_answer r (h_stats h), h_answers := h_answers h @ [(rid, r\<lparr>q_epoch := epoch\<rparr>)]\<rparr>)"

definition keeper_pack :: "sset \<Rightarrow> plan \<Rightarrow> string \<times> byte list" where
  "keeper_pack s p =
     (let t = d_Type (s_Def s)
      in (DiffKey (d_Name (s_Def s)) (pl_Seq p),
          Pack \<lparr>h_Kind = KindPackage, h_Type = PackType t, h_Flags = PackFlags t, h_Epoch = s_epoch s,
                h_Seq = pl_Seq p, h_Hash = pl_Hash p, h_Key = s_key s, h_Count = 0\<rparr>
            (map (\<lambda>d. RecordOf t (if dl_Op d = OpRemove then RecRemove else RecAdd) (dl_Rec d)) (pl_Deltas p))))"

text \<open>After planning: without deltas every job is answered, else the refused ones are and a batch is made.\<close>

definition dispatch ::
  "int \<Rightarrow> u64 \<Rightarrow> job list \<Rightarrow> plan \<Rightarrow> jobResult list \<Rightarrow> holder \<Rightarrow> holder \<times> batch option" where
  "dispatch now epoch jobs p results h =
     (if pl_Deltas p = [] then (fold (answer epoch) (zip jobs results) h, None)
      else
        let jrs = zip jobs results;
            kept = filter (\<lambda>jr. q_code (snd jr) = []) jrs;
            h = fold (answer epoch) (filter (\<lambda>jr. q_code (snd jr) \<noteq> []) jrs) h;
            (key, pkg) = keeper_pack (h_s h) p
        in (h, Some \<lparr>b_at = now, b_jobs = map fst kept, b_results = map snd kept, b_plan = p,
                     b_pkgKey = key, b_pkg = pkg\<rparr>))"

definition plan_finish :: "int \<Rightarrow> u64 \<Rightarrow> job list \<Rightarrow> collect \<Rightarrow> holder \<Rightarrow> holder \<times> batch option" where
  "plan_finish now epoch jobs c h =
     (let (s, p, results) = decide jobs c (h_s h);
          h = h\<lparr>h_s := s, h_stats := (h_stats h)\<lparr>t_Stale := t_Stale (h_stats h) + g_stale c\<rparr>\<rparr>
      in dispatch now epoch jobs p results h)"

text \<open>\<open>plan\<close> with no step of the committer in between.\<close>

definition keeper_plan :: "int \<Rightarrow> job list \<Rightarrow> holder \<Rightarrow> holder \<times> batch option" where
  "keeper_plan now jobs h =
     plan_finish now (s_epoch (h_s h)) jobs (fold (collect_job now (h_s h)) jobs (collect_init (h_s h))) h"

text \<open>The last \<open>select\<close> of \<open>plan\<close>: the batch enters the queue, or is dropped when the set is stopped.\<close>

definition send_batch :: "bool \<Rightarrow> batch \<Rightarrow> holder \<Rightarrow> holder" where
  "send_batch sent b h = (if sent then h\<lparr>h_batches := h_batches h @ [b]\<rparr> else h)"

section \<open>The sweep\<close>

definition sweep_job :: "options \<Rightarrow> string list \<Rightarrow> job" where
  "sweep_job opts vals =
     \<lparr>j_op = OpRemove,
      j_recs = map (\<lambda>v. \<lparr>r_Value = v, r_Exp = 0, r_Origin = o_Name opts, r_Reason = ''EXPIRED'',
                        r_Prefix = zero_prefix\<rparr>) vals,
      j_reply = None, j_deadline = None\<rparr>"

function sweep_chunks :: "nat \<Rightarrow> string list \<Rightarrow> string list list" where
  "sweep_chunks m vals =
     (if vals = [] \<or> m = 0 then []
      else let cut = (if length vals > m then m else length vals)
           in take cut vals # sweep_chunks m (drop cut vals))"
  by pat_completeness auto
termination
  by (relation "measure (\<lambda>(m, vals). length vals)") auto

declare sweep_chunks.simps [simp del]

definition sweep_plan :: "options \<Rightarrow> int \<Rightarrow> string list \<Rightarrow> holder \<Rightarrow> holder" where
  "sweep_plan opts now vals h =
     (let h = h\<lparr>h_stats := (h_stats h)\<lparr>t_Expired := t_Expired (h_stats h) + int (length vals)\<rparr>\<rparr>;
          (h, b) = keeper_plan now [sweep_job opts vals] h
      in case b of None \<Rightarrow> h | Some b \<Rightarrow> send_batch True b h)"

definition keeper_sweep :: "options \<Rightarrow> int \<Rightarrow> holder \<Rightarrow> holder" where
  "keeper_sweep opts now h =
     (let (s, vals) = set_Expired now (h_s h)
      in fold (sweep_plan opts now) (sweep_chunks (nat (o_BatchMax opts)) vals) (h\<lparr>h_s := s\<rparr>))"

section \<open>commit\<close>

definition commit_fail :: "u64 \<Rightarrow> batch \<Rightarrow> holder \<Rightarrow> holder" where
  "commit_fail epoch b h =
     fold (answer epoch) (zip (b_jobs b) (map (\<lambda>r. r\<lparr>q_code := ErrStoreUnavailable\<rparr>) (b_results b))) h"

definition diff_frame :: "options \<Rightarrow> u64 \<Rightarrow> batch \<Rightarrow> change \<Rightarrow> set_def \<Rightarrow> frame" where
  "diff_frame opts epoch b ch d =
     zero_frame\<lparr>f_V := V3, f_Set := d_Name d, f_Epoch := Hex epoch, f_Seq := c_Seq ch, f_Op := OpDiff,
       f_Hash := Hex (c_Hash ch), f_Package := b_pkgKey b, f_Count := int (length (c_Deltas ch)),
       f_Inline := (if o_InlineMax opts > 0 \<and> int (length (b_pkg b)) \<le> o_InlineMax opts
                    then b64_encode (b_pkg b) else [])\<rparr>"

definition count_diff :: "frame \<Rightarrow> options \<Rightarrow> batch \<Rightarrow> stats \<Rightarrow> stats" where
  "count_diff f opts b t =
     t\<lparr>t_Diffs := t_Diffs t + 1,
       t_Inline := t_Inline t +
         (if o_InlineMax opts > 0 \<and> int (length (b_pkg b)) \<le> o_InlineMax opts then 1 else 0)\<rparr>"

text \<open>After the store answered; \<open>None\<close> is the panic on a nil \<open>Change\<close>.\<close>

definition commit_stored :: "options \<Rightarrow> batch \<Rightarrow> bool \<Rightarrow> int \<Rightarrow> holder \<Rightarrow> holder option" where
  "commit_stored opts b ok ms h =
     (let epoch = s_epoch (h_s h);
          h = h\<lparr>h_stats := (h_stats h)\<lparr>t_StoreMs := ms\<rparr>\<rparr>
      in if \<not> ok then
           Some (commit_fail epoch b
             (h\<lparr>h_s := set_Abort (h_s h), h_stats := (h_stats h)\<lparr>t_StoreErr := t_StoreErr (h_stats h) + 1\<rparr>\<rparr>))
         else
           let (s, ch) = set_Commit (b_plan b) (b_at b) (h_s h)
           in case ch of
                None \<Rightarrow> None
              | Some ch \<Rightarrow>
                  let f = diff_frame opts epoch b ch (s_Def s);
                      h = h\<lparr>h_s := s, h_stats := count_diff f opts b (h_stats h), h_published := h_published h @ [f]\<rparr>
                  in Some (fold (answer epoch)
                       (zip (b_jobs b) (map (\<lambda>r. r\<lparr>q_seq := c_Seq ch\<rparr>) (b_results b))) h))"

text \<open>\<open>commit\<close> with no step of the planner in between.\<close>

definition keeper_commit :: "'r store \<Rightarrow> options \<Rightarrow> batch \<Rightarrow> int \<Rightarrow> holder \<times> 'r \<Rightarrow> (holder \<times> 'r) option" where
  "keeper_commit st opts b ms hr =
     (let (h, r) = hr; p = b_plan b
      in if pl_Gen p \<noteq> set_Gen (h_s h) then Some (commit_fail (s_epoch (h_s h)) b h, r)
         else
           let (r', ok) = st_Commit st (d_Name (h_Def h)) (pl_Deltas p) (pl_Seq p) (pl_Hash p)
                            (b_pkgKey b) (b_pkg b) (o_DiffTTL opts) r
           in map_option (\<lambda>h. (h, r')) (commit_stored opts b ok ms h))"

definition publishTick :: "holder \<Rightarrow> holder" where
  "publishTick h =
     (let s = h_s h
      in h\<lparr>h_published := h_published h @
           [zero_frame\<lparr>f_V := V3, f_Set := d_Name (s_Def s), f_Epoch := Hex (s_epoch s), f_Seq := s_seq s,
              f_Op := OpTick, f_Hash := Hex (s_hash s)\<rparr>]\<rparr>)"

section \<open>Snapshot and Lookup\<close>

definition snapMargin :: int where "snapMargin = 5 * Second"

text \<open>\<open>order\<close> is the order in which the map of entries is read, \<open>at\<close> the time after the store answered.\<close>

definition packSnapshot ::
  "'r store \<Rightarrow> options \<Rightarrow> string list \<Rightarrow> int \<Rightarrow> sset \<Rightarrow> 'r \<Rightarrow> 'r \<times> snapObj option" where
  "packSnapshot st opts order at s r =
     (let (epoch, seq, hash, key, recs) = set_Snapshot s order;
          t = d_Type (s_Def s);
          data = Pack \<lparr>h_Kind = KindSnapshot, h_Type = PackType t, h_Flags = PackFlags t, h_Epoch = epoch,
                       h_Seq = seq, h_Hash = hash, h_Key = key, h_Count = 0\<rparr> (map (RecordOf t RecAdd) recs);
          objKey = SnapKey (d_Name (s_Def s)) epoch seq;
          (r', ok) = st_Put st objKey data (o_SnapshotTTL opts) r
      in (r', if \<not> ok then None
              else Some \<lparr>n_key = objKey, n_epoch = epoch, n_seq = seq, n_hash = hash,
                         n_count = int (length recs), n_bytes = int (length data), n_at = at\<rparr>))"

definition snap_error :: "string \<Rightarrow> string \<Rightarrow> frame" where
  "snap_error name op = zero_frame\<lparr>f_V := V3, f_Set := name, f_Op := op\<rparr>"

definition snap_stale :: "options \<Rightarrow> int \<Rightarrow> u64 \<Rightarrow> snapObj option \<Rightarrow> bool" where
  "snap_stale opts now epoch sn =
     (case sn of
        None \<Rightarrow> True
      | Some o' \<Rightarrow> n_epoch o' \<noteq> epoch \<or> now - n_at o' > o_SnapshotTTL opts - snapMargin)"

text \<open>Go's integer division truncates towards zero.\<close>

definition quot :: "int \<Rightarrow> int \<Rightarrow> int" where
  "quot a b = sgn a * sgn b * (\<bar>a\<bar> div \<bar>b\<bar>)"

definition snap_frame :: "options \<Rightarrow> string \<Rightarrow> byte list \<Rightarrow> int \<Rightarrow> snapObj \<Rightarrow> frame" where
  "snap_frame opts name key now sn =
     zero_frame\<lparr>f_V := V3, f_Set := name, f_Epoch := Hex (n_epoch sn), f_Seq := n_seq sn, f_Op := OpSnapshot,
       f_Hash := Hex (n_hash sn), f_Key := KeyHex key, f_Object := n_key sn, f_Count := n_count sn,
       f_Bytes := n_bytes sn, f_TTL := quot (o_SnapshotTTL opts - (now - n_at sn)) Second\<rparr>"

definition holder_Snapshot ::
  "'r store \<Rightarrow> options \<Rightarrow> string \<Rightarrow> string list \<Rightarrow> int \<Rightarrow> int \<Rightarrow> holder \<Rightarrow> 'r \<Rightarrow> holder \<times> 'r \<times> frame" where
  "holder_Snapshot st opts name order now at h r =
     (let s = h_s h;
          served = (\<lambda>sn h. (h\<lparr>h_stats := (h_stats h)\<lparr>t_Snapshots := t_Snapshots (h_stats h) + 1\<rparr>\<rparr>,
                            snap_frame opts name (s_key s) now sn))
      in if snap_stale opts now (s_epoch s) (h_snap h) then
           let (r', packed) = packSnapshot st opts order at s r
           in case packed of
                None \<Rightarrow> (h, r', snap_error name OpStoreUnavailable)
              | Some sn \<Rightarrow>
                  let (h', f) = served sn (h\<lparr>h_snap := Some sn,
                                   h_stats := (h_stats h)\<lparr>t_Packs := t_Packs (h_stats h) + 1\<rparr>\<rparr>)
                  in (h', r', f)
         else let (h', f) = served (the (h_snap h)) h in (h', r, f))"

definition holder_Lookup :: "string \<Rightarrow> int \<Rightarrow> holder \<Rightarrow> lookup_reply" where
  "holder_Lookup value now h =
     (let d = h_Def h
      in case Canon (d_Type d) value of
           Inl _ \<Rightarrow> \<lparr>lr_OK = False, lr_Found = False, lr_Exp = 0, lr_Error = ErrWrongType\<rparr>
         | Inr v \<Rightarrow>
             let v = (if d_Hash d then MD5Hex v else v)
             in case set_Get (h_s h) v of
                  None \<Rightarrow> \<lparr>lr_OK = True, lr_Found = False, lr_Exp = 0, lr_Error = []\<rparr>
                | Some e \<Rightarrow>
                    if e_Exp e > 0 \<and> e_Exp e \<le> UnixMilli now
                    then \<lparr>lr_OK = True, lr_Found = False, lr_Exp = 0, lr_Error = []\<rparr>
                    else \<lparr>lr_OK = True, lr_Found = True, lr_Exp = e_Exp e, lr_Error = []\<rparr>)"

end
