(* ===== verification/PlanSpec.thy ===== *)
theory PlanSpec
  imports SetExpiry
begin

text \<open>
  What \<open>Plan\<close> means for the content of a set. \<open>content\<close> forgets the hashes; \<open>request\<close> is the effect a
  client asks for. A plan that rejects nothing turns the planned view into the view with all its
  requests applied in order, although it skips the requests that change nothing. A plan rejects
  nothing when the values it adds fit under the limit together with those that are present.
\<close>

section \<open>Requests\<close>

type_synonym content = "(string, int \<times> string \<times> string) fmap"

definition content :: "entries \<Rightarrow> content" where
  "content m = fmmap (\<lambda>e. (e_Exp e, e_Origin e, e_Reason e)) m"

definition request :: "delta \<Rightarrow> content \<Rightarrow> content" where
  "request d c =
     (let r = dl_Rec d
      in if dl_Op d = OpAdd then fmupd (r_Value r) (r_Exp r, r_Origin r, r_Reason r) c
         else if dl_Op d = OpRemove then fmdrop (r_Value r) c
         else c)"

lemma content_lookup [simp]:
  "fmlookup (content m) v = map_option (\<lambda>e. (e_Exp e, e_Origin e, e_Reason e)) (fmlookup m v)"
  by (simp add: content_def)

lemma content_apply_delta: "content (apply_delta d m) = request d (content m)"
  by (rule fmap_ext) (simp add: apply_delta_def request_def delta_entry_def Let_def)

lemma content_replay: "content (replay ds m) = fold request ds (content m)"
  by (induction ds arbitrary: m) (simp_all add: content_apply_delta)

text \<open>The view before and after one step of \<open>Plan\<close>.\<close>

lemma acc_ok_replay: "acc_ok s m m' acc \<Longrightarrow> m' = replay (a_applied acc) m"
  by (simp add: acc_ok_def)

lemma plan_step_cases:
  assumes "plan_lookup s (a_over acc) (r_Value (dl_Rec d)) = (cur, exists, from)"
  obtains (reject) "dl_Op d = OpAdd" "\<not> exists" "0 < d_Limit (s_Def s)" "d_Limit (s_Def s) \<le> a_size acc"
      "plan_step s d acc = acc\<lparr>a_rejected := a_rejected acc @ [dl_Rec d]\<rparr>"
  | (new) "dl_Op d = OpAdd" "\<not> exists"
      "a_applied (plan_step s d acc) = a_applied acc @ [d\<lparr>dl_hash := hashOf s (dl_Rec d)\<rparr>]"
      "a_rejected (plan_step s d acc) = a_rejected acc"
  | (same) "dl_Op d = OpAdd" "exists" "e_Exp cur = r_Exp (dl_Rec d)" "e_Origin cur = r_Origin (dl_Rec d)"
      "e_Reason cur = r_Reason (dl_Rec d)" "plan_step s d acc = acc"
  | (refresh) "dl_Op d = OpAdd" "exists"
      "a_applied (plan_step s d acc) = a_applied acc @ [d\<lparr>dl_hash := e_hash cur\<rparr>]"
      "a_rejected (plan_step s d acc) = a_rejected acc"
  | (absent) "dl_Op d \<noteq> OpAdd" "dl_Op d = OpRemove \<Longrightarrow> \<not> exists" "plan_step s d acc = acc"
  | (remove) "dl_Op d = OpRemove" "exists"
      "a_applied (plan_step s d acc) = a_applied acc @ [\<lparr>dl_Op = OpRemove, dl_Rec = (dl_Rec d)\<lparr>r_Exp := 0\<rparr>, dl_hash = e_hash cur\<rparr>]"
      "a_rejected (plan_step s d acc) = a_rejected acc"
proof -
  have d: "\<lparr>dl_Op = OpAdd, dl_Rec = dl_Rec d, dl_hash = h\<rparr> = d\<lparr>dl_hash := h\<rparr>" if "dl_Op d = OpAdd" for h
    using that by (cases d) simp
  show thesis
  proof (cases "dl_Op d = OpAdd")
    case True
    show thesis
    proof (cases exists)
      case ex: True
      show thesis
      proof (cases "from \<noteq> fromFlight \<and> e_Exp cur = r_Exp (dl_Rec d) \<and> e_Origin cur = r_Origin (dl_Rec d)
          \<and> e_Reason cur = r_Reason (dl_Rec d)")
        case True
        with \<open>dl_Op d = OpAdd\<close> ex assms show thesis
          by (intro same) (auto simp: plan_step_def Let_def)
      next
        case False
        with \<open>dl_Op d = OpAdd\<close> ex assms show thesis
          by (intro refresh) (auto simp: plan_step_def Let_def plan_add_def d)
      qed
    next
      case False
      with True assms reject new show thesis
        by (cases "0 < d_Limit (s_Def s) \<and> d_Limit (s_Def s) \<le> a_size acc")
          (auto simp: plan_step_def Let_def plan_add_def d)
    qed
  next
    case False
    with assms absent remove show thesis
      by (cases "dl_Op d = OpRemove"; cases exists) (auto simp: plan_step_def Let_def plan_remove_def)
  qed
qed

lemma request_hash [simp]: "request (d\<lparr>dl_hash := h\<rparr>) = request d"
  by (rule ext) (simp add: request_def Let_def)

lemma plan_step_effect:
  assumes view: "is_view m (s_pend s) (s_entries s)" and ok: "acc_ok s m m' acc"
    and acc: "a_rejected (plan_step s d acc) = a_rejected acc"
  shows "content (replay (a_applied (plan_step s d acc)) m) = request d (content m')"
proof -
  obtain cur exists "from" where l: "plan_lookup s (a_over acc) (r_Value (dl_Rec d)) = (cur, exists, from)"
    by (cases "plan_lookup s (a_over acc) (r_Value (dl_Rec d))") auto
  have m': "fmlookup m' (r_Value (dl_Rec d)) = (if exists then Some cur else None)"
    by (rule plan_lookup_view [OF view acc_ok_view [OF ok] l])
  have r: "replay (a_applied acc) m = m'" using acc_ok_replay [OF ok] by simp
  from l show ?thesis
  proof (cases rule: plan_step_cases)
    case reject
    with acc show ?thesis by simp
  next
    case new
    then show ?thesis by (simp add: r content_apply_delta)
  next
    case same
    then show ?thesis using m' by (intro fmap_ext) (auto simp: r request_def Let_def)
  next
    case refresh
    then show ?thesis by (simp add: r content_apply_delta)
  next
    case absent
    then show ?thesis using m' by (intro fmap_ext) (auto simp: r request_def Let_def)
  next
    case remove
    then show ?thesis by (simp add: r content_apply_delta) (simp add: request_def Let_def)
  qed
qed

lemma plan_step_rejects: "\<exists>rs. a_rejected (plan_step s d acc) = a_rejected acc @ rs"
  by (auto simp: plan_step_def Let_def plan_add_def plan_remove_def split: prod.splits)

lemma plan_fold_rejects: "\<exists>rs. a_rejected (fold (plan_step s) ds acc) = a_rejected acc @ rs"
proof (induction ds arbitrary: acc)
  case (Cons d ds)
  show ?case using Cons.IH [of "plan_step s d acc"] plan_step_rejects [of s d acc] by auto
qed simp

lemma plan_fold_effect:
  assumes view: "is_view m (s_pend s) (s_entries s)" and ok: "acc_ok s m m' acc"
    and acc: "a_rejected (fold (plan_step s) ds acc) = a_rejected acc"
  shows "content (replay (a_applied (fold (plan_step s) ds acc)) m) = fold request ds (content m')"
  using ok acc
proof (induction ds arbitrary: m' acc)
  case Nil
  then show ?case using acc_ok_replay [OF Nil.prems(1), symmetric] by simp
next
  case (Cons d ds)
  obtain m1 where ok1: "acc_ok s m m1 (plan_step s d acc)" using plan_step_ok [OF view Cons.prems(1)] by blast
  obtain rs rs' where rs: "a_rejected (fold (plan_step s) ds (plan_step s d acc)) = a_rejected (plan_step s d acc) @ rs"
    and rs': "a_rejected (plan_step s d acc) = a_rejected acc @ rs'"
    using plan_fold_rejects [of s ds "plan_step s d acc"] plan_step_rejects [of s d acc] by blast
  have "a_rejected acc @ rs' @ rs = a_rejected acc" using Cons.prems(2) unfolding fold_Cons comp_apply rs rs' by simp
  then have step: "a_rejected (plan_step s d acc) = a_rejected acc" using rs' by simp
  have "content m1 = request d (content m')"
    using plan_step_effect [OF view Cons.prems(1) step] acc_ok_replay [OF ok1, symmetric] by simp
  then show ?case using Cons.IH [OF ok1] Cons.prems(2) step by simp
qed

lemma set_Plan_content:
  assumes "inflight s ps" and "set_Plan ds s = (s', p)" and "pl_Rejected p = []"
  shows "content (replay (pl_Deltas p) (final ps (s_entries s))) = fold request ds (content (final ps (s_entries s)))"
proof -
  let ?m = "final ps (s_entries s)" and ?acc = "fold (plan_step s) ds (plan_init s)"
  have view: "is_view ?m (s_pend s) (s_entries s)" using assms(1) by (simp add: inflight_def)
  have p: "pl_Deltas p = a_applied ?acc" "pl_Rejected p = a_rejected ?acc"
    using assms(2) by (auto simp: set_Plan_def Let_def split: if_splits)
  have "a_rejected ?acc = a_rejected (plan_init s)" using p assms(3) by (simp add: plan_init_def)
  from plan_fold_effect [OF view plan_init_ok [OF assms(1)] this] show ?thesis using p by simp
qed

section \<open>When nothing is rejected\<close>

definition added :: "delta list \<Rightarrow> string set" where
  "added ds = (\<lambda>d. r_Value (dl_Rec d)) ` {d \<in> set ds. dl_Op d = OpAdd}"

lemma added_simps [simp]:
  "added [] = {}" "added (ds @ ds') = added ds \<union> added ds'"
  "added (d # ds) = (if dl_Op d = OpAdd then insert (r_Value (dl_Rec d)) (added ds) else added ds)"
  by (auto simp: added_def)

lemma replay_dom: "fset (fmdom (replay ds m)) \<subseteq> fset (fmdom m) \<union> added ds"
proof (induction ds arbitrary: m)
  case (Cons d ds)
  have "fset (fmdom (apply_delta d m)) \<subseteq> fset (fmdom m) \<union> added [d]" by (auto simp: apply_delta_def)
  with Cons.IH [of "apply_delta d m"] show ?case by auto
qed simp

lemma set_exists_view:
  assumes "is_view m (s_pend s) (s_entries s)"
  shows "set_exists s v \<longleftrightarrow> v |\<in>| fmdom m"
  using is_viewD [OF assms, of v]
  by (auto simp: set_exists_def set_lookup_def fmlookup_dom_iff split: option.splits if_splits)

text \<open>\<open>room\<close>: the values a batch adds, together with those present, number at most the limit.\<close>

definition room :: "sset \<Rightarrow> entries \<Rightarrow> delta list \<Rightarrow> bool" where
  "room s m ds \<longleftrightarrow> d_Limit (s_Def s) \<le> 0 \<or> added ds = {} \<or>
     int (card (fset (fmdom m) \<union> added ds)) \<le> d_Limit (s_Def s)"

lemma plan_step_room:
  assumes view: "is_view m (s_pend s) (s_entries s)" and ok: "acc_ok s m m' acc"
    and dom: "fset (fmdom m') \<subseteq> U" and fin: "finite U"
    and lim: "d_Limit (s_Def s) \<le> 0 \<or> int (card U) \<le> d_Limit (s_Def s)"
    and U: "dl_Op d = OpAdd \<Longrightarrow> r_Value (dl_Rec d) \<in> U"
  shows "a_rejected (plan_step s d acc) = a_rejected acc"
    and "fset (fmdom (replay (a_applied (plan_step s d acc)) m)) \<subseteq> U"
proof -
  obtain cur exists "from" where l: "plan_lookup s (a_over acc) (r_Value (dl_Rec d)) = (cur, exists, from)"
    by (cases "plan_lookup s (a_over acc) (r_Value (dl_Rec d))") auto
  have m': "fmlookup m' (r_Value (dl_Rec d)) = (if exists then Some cur else None)"
    by (rule plan_lookup_view [OF view acc_ok_view [OF ok] l])
  have r: "replay (a_applied acc) m = m'" using acc_ok_replay [OF ok] by simp
  have no_reject: False if "dl_Op d = OpAdd" "\<not> exists" "0 < d_Limit (s_Def s)" "d_Limit (s_Def s) \<le> a_size acc"
  proof -
    have "r_Value (dl_Rec d) \<notin> fset (fmdom m')" using m' that(2) by (simp add: fmlookup_dom_iff)
    then have "fset (fmdom m') \<subset> U" using dom U [OF that(1)] by auto
    then have "card (fset (fmdom m')) < card U" using fin by (simp add: psubset_card_mono)
    moreover have "a_size acc = int (card (fset (fmdom m')))" using ok by (simp add: acc_ok_def fcard.rep_eq)
    ultimately show False using lim that by simp
  qed
  from l show "a_rejected (plan_step s d acc) = a_rejected acc"
    by (cases rule: plan_step_cases) (use no_reject in auto)
  have upd: "fset (fmdom (apply_delta e m')) \<subseteq> U" if "dl_Op e = dl_Op d" "r_Value (dl_Rec e) = r_Value (dl_Rec d)" for e
    using replay_dom [of "[e]" m'] dom U that by (auto split: if_splits)
  from l show "fset (fmdom (replay (a_applied (plan_step s d acc)) m)) \<subseteq> U"
    by (cases rule: plan_step_cases) (use dom upd in \<open>simp_all add: r\<close>)
qed

lemma plan_fold_room:
  assumes view: "is_view m (s_pend s) (s_entries s)" and ok: "acc_ok s m m' acc"
    and dom: "fset (fmdom m') \<subseteq> U" and fin: "finite U"
    and lim: "d_Limit (s_Def s) \<le> 0 \<or> int (card U) \<le> d_Limit (s_Def s)"
    and U: "added ds \<subseteq> U"
  shows "a_rejected (fold (plan_step s) ds acc) = a_rejected acc"
  using ok dom U
proof (induction ds arbitrary: m' acc)
  case (Cons d ds)
  have d: "dl_Op d = OpAdd \<Longrightarrow> r_Value (dl_Rec d) \<in> U" using Cons.prems(3) by simp
  obtain m1 where ok1: "acc_ok s m m1 (plan_step s d acc)" using plan_step_ok [OF view Cons.prems(1)] by blast
  note st = plan_step_room [OF view Cons.prems(1,2) fin lim d]
  have "fset (fmdom m1) \<subseteq> U" using st(2) acc_ok_replay [OF ok1] by simp
  moreover have "added ds \<subseteq> U" using Cons.prems(3) by (auto split: if_splits)
  ultimately show ?case using Cons.IH [OF ok1] st(1) by simp
qed simp

lemma plan_fold_no_adds:
  "added ds = {} \<Longrightarrow> a_rejected (fold (plan_step s) ds acc) = a_rejected acc"
proof (induction ds arbitrary: acc)
  case (Cons d ds)
  then have "a_rejected (plan_step s d acc) = a_rejected acc"
    by (auto simp: plan_step_def Let_def plan_remove_def split: prod.splits if_splits)
  then show ?case using Cons by (auto split: if_splits)
qed simp

lemma set_Plan_room:
  assumes "inflight s ps" and "room s (final ps (s_entries s)) ds"
  shows "pl_Rejected (snd (set_Plan ds s)) = []"
proof -
  let ?m = "final ps (s_entries s)" and ?acc = "fold (plan_step s) ds (plan_init s)"
  have view: "is_view ?m (s_pend s) (s_entries s)" using assms(1) by (simp add: inflight_def)
  have "a_rejected ?acc = a_rejected (plan_init s)"
  proof (cases "added ds = {}")
    case True
    then show ?thesis by (rule plan_fold_no_adds)
  next
    case False
    show ?thesis
      by (rule plan_fold_room [OF view plan_init_ok [OF assms(1)], of "fset (fmdom ?m) \<union> added ds"])
        (use assms(2) False in \<open>auto simp: room_def added_def\<close>)
  qed
  then show ?thesis by (simp add: set_Plan_def Let_def plan_init_def)
qed

section \<open>Properties\<close>

text \<open>
  C11: What a plan does to the content: when it rejects nothing, the planned view after it is the
  planned view before it with every requested addition and removal applied in order. Requests that
  are skipped because they would change nothing really change nothing.
\<close>

theorem Plan_applies_requests:
  assumes "inflight s ps" and "set_Plan ds s = (s', p)" and "pl_Rejected p = []"
  shows "content (final (ps @ [p]) (s_entries s)) = fold request ds (content (final ps (s_entries s)))"
  using set_Plan_content [OF assms] by simp

theorem Plan_applies_requests_witness:
  "content (final [snd (set_Plan [demo_add ''a'' 5] demo_set)] fmempty) = fmupd ''a'' (5, ''ops'', ''abuse'') fmempty"
proof -
  have r: "pl_Rejected (snd (set_Plan [demo_add ''a'' 5] demo_set)) = []" by (simp add: demo_plan Let_def)
  have e: "s_entries demo_set = fmempty" by (simp add: demo_set_def set_New_def)
  have "request (demo_add ''a'' 5) (content fmempty) = fmupd ''a'' (5, ''ops'', ''abuse'') fmempty"
    by (simp add: request_def demo_add_def content_def Let_def)
  then show ?thesis
    using Plan_applies_requests [OF demo_inflight prod.collapse [symmetric] r] by (simp add: e)
qed

end
