(* ===== verification/KeeperPlan.thy ===== *)
theory KeeperPlan
  imports Keeper PlanSpec
begin

text \<open>
  The planner of a holder (\<open>gather\<close> and \<open>plan\<close> of \<open>src/internal/keeper/keeper.go\<close>): a batch takes jobs
  in the order they were queued, and each job is accepted with all its records or refused with a
  code and none of them. Collecting is stated against a fixed view of the set, so that it may be
  interleaved with commits, which keep the view.
\<close>

section \<open>Frames of the handlers\<close>

lemma answer_frame [simp]:
  "h_s (answer e jr h) = h_s h" "h_jobs (answer e jr h) = h_jobs h" "h_queued (answer e jr h) = h_queued h"
  "h_batches (answer e jr h) = h_batches h" "h_stop (answer e jr h) = h_stop h" "h_snap (answer e jr h) = h_snap h"
  "h_published (answer e jr h) = h_published h"
  by (auto simp: answer_def split: prod.splits option.splits)

lemma answers_frame [simp]:
  "h_s (fold (answer e) jrs h) = h_s h" "h_jobs (fold (answer e) jrs h) = h_jobs h"
  "h_queued (fold (answer e) jrs h) = h_queued h" "h_batches (fold (answer e) jrs h) = h_batches h"
  "h_stop (fold (answer e) jrs h) = h_stop h" "h_snap (fold (answer e) jrs h) = h_snap h"
  "h_published (fold (answer e) jrs h) = h_published h"
  by (induction jrs arbitrary: h) auto

text \<open>The answers a list of results produces: none for a nil channel or a stale job.\<close>

definition answers_of :: "u64 \<Rightarrow> (job \<times> jobResult) list \<Rightarrow> (nat \<times> jobResult) list" where
  "answers_of epoch jrs =
     concat (map (\<lambda>(j, r). case j_reply j of
        None \<Rightarrow> [] | Some rid \<Rightarrow> if q_code r = codeStale then [] else [(rid, r\<lparr>q_epoch := epoch\<rparr>)]) jrs)"

lemma answers_fold: "h_answers (fold (answer e) jrs h) = h_answers h @ answers_of e jrs"
proof (induction jrs arbitrary: h)
  case (Cons jr jrs)
  have "h_answers (answer e jr h) = h_answers h @ answers_of e [jr]"
    by (auto simp: answer_def answers_of_def split: prod.splits option.splits)
  with Cons.IH [of "answer e jr h"] show ?case by (simp add: answers_of_def)
qed (simp add: answers_of_def)

section \<open>Gathering\<close>

definition recs_total :: "job list \<Rightarrow> int" where
  "recs_total js = sum_list (map (\<lambda>j. int (length (j_recs j))) js)"

lemma recs_total_simps [simp]:
  "recs_total [] = 0" "recs_total (j # js) = int (length (j_recs j)) + recs_total js"
  "recs_total (js @ js') = recs_total js + recs_total js'"
  by (simp_all add: recs_total_def)

definition arrivals :: "gather_event list \<Rightarrow> job list" where
  "arrivals evs = concat (map (\<lambda>e. case e of Arrive j \<Rightarrow> [j] | _ \<Rightarrow> []) evs)"

text \<open>The jobs taken are the queue, in order, and then the arrivals, in order.\<close>

lemma gather_loop_fifo:
  assumes "gather_loop opts evs h batch n = (h', out)"
  shows "\<exists>taken rest. out = batch @ taken \<and> h_jobs h @ arrivals evs = taken @ rest
    \<and> (\<exists>k. rest = h_jobs h' @ k) \<and> h' = h\<lparr>h_jobs := h_jobs h', h_queued := h_queued h - recs_total taken\<rparr>"
  using assms
proof (induction opts evs h batch n arbitrary: h' out rule: gather_loop.induct)
  case (1 opts evs h batch n)
  show ?case
  proof (cases "n < o_BatchMax opts")
    case False
    with "1.prems" show ?thesis by (subst (asm) gather_loop.simps) (auto intro!: exI [of _ "[]"])
  next
    case True
    show ?thesis
    proof (cases "h_jobs h")
      case (Cons j js)
      let ?h = "take_job j (h\<lparr>h_jobs := js\<rparr>)"
      have "gather_loop opts evs ?h (batch @ [j]) (n + int (length (j_recs j))) = (h', out)"
        using "1.prems" True Cons by (subst (asm) gather_loop.simps) simp
      from "1.IH"(2) [OF _ Cons this] True obtain taken rest k where
        t: "out = (batch @ [j]) @ taken" "js @ arrivals evs = taken @ rest" "rest = h_jobs h' @ k"
        "h' = ?h\<lparr>h_jobs := h_jobs h', h_queued := h_queued ?h - recs_total taken\<rparr>"
        by (auto simp: take_job_def)
      then show ?thesis using Cons
        by (intro exI [of _ "j # taken"] exI [of _ rest]) (simp add: take_job_def algebra_simps)
    next
      case Nil
      show ?thesis
      proof (cases "\<exists>j evs'. evs = Arrive j # evs' \<and> 0 < o_Coalesce opts")
        case ev: True
        then obtain j evs' where e: "evs = Arrive j # evs'" "0 < o_Coalesce opts" by auto
        have "gather_loop opts evs' (take_job j h) (batch @ [j]) (n + int (length (j_recs j))) = (h', out)"
          using "1.prems" True Nil e by (subst (asm) gather_loop.simps) simp
        from "1.IH"(1) [OF _ Nil _ e(1) refl this] True e obtain taken rest k where
          t: "out = (batch @ [j]) @ taken" "arrivals evs' = taken @ rest" "rest = h_jobs h' @ k"
          "h' = (take_job j h)\<lparr>h_jobs := h_jobs h', h_queued := h_queued (take_job j h) - recs_total taken\<rparr>"
          using Nil by (auto simp: take_job_def)
        then show ?thesis using Nil e
          by (intro exI [of _ "j # taken"] exI [of _ rest]) (simp add: take_job_def arrivals_def algebra_simps)
      next
        case False
        then have "h' = h" "out = batch" using "1.prems" True Nil
          by (subst (asm) gather_loop.simps; auto split: list.splits gather_event.splits if_splits)+
        then show ?thesis using Nil by (intro exI [of _ "[]"] exI [of _ "arrivals evs"]) simp
      qed
    qed
  qed
qed

section \<open>Collecting\<close>

text \<open>The shape of the collected data after the jobs \<open>js\<close>.\<close>

definition accepted_jobs :: "job list \<Rightarrow> jobResult list \<Rightarrow> job list" where
  "accepted_jobs js rs = map fst (filter (\<lambda>jr. q_code (snd jr) = []) (zip js rs))"

definition collect_shape :: "job list \<Rightarrow> collect \<Rightarrow> bool" where
  "collect_shape js c \<longleftrightarrow>
     length (g_results c) = length js
     \<and> g_accepted c = filter (\<lambda>i. q_code (g_results c ! i) = []) [0..<length js]
     \<and> g_deltas c = concat (map job_deltas (accepted_jobs js (g_results c)))
     \<and> (\<forall>j\<in>set (accepted_jobs js (g_results c)). j_recs j \<noteq> [])
     \<and> (\<forall>r\<in>set (g_results c). q_code r = [] \<longrightarrow> r = zero_result)"

lemma filter_upt_snoc:
  "length xs = n \<Longrightarrow> filter (\<lambda>i. q_code ((xs @ [x]) ! i) = []) [0..<Suc n]
     = filter (\<lambda>i. q_code (xs ! i) = []) [0..<n] @ (if q_code x = [] then [n] else [])"
  by (auto simp: nth_append intro!: filter_cong)

lemma codes_nonempty [simp]: "codeStale \<noteq> []" "ErrBadRequest \<noteq> []" "ErrFull \<noteq> []" "ErrStoreUnavailable \<noteq> []"
  by (simp_all add: codeStale_def wire_codes)

lemma collect_refuse_shape:
  "collect_shape js c \<Longrightarrow> code \<noteq> [] \<Longrightarrow> collect_shape (js @ [j]) (collect_refuse code c)"
  unfolding collect_shape_def collect_refuse_def
  by (auto simp: accepted_jobs_def filter_upt_snoc zero_result_def simp del: upt_Suc)

lemma collect_accept_shape:
  "collect_shape js c \<Longrightarrow> j_recs j \<noteq> [] \<Longrightarrow> collect_shape (js @ [j]) (collect_accept j c)"
  unfolding collect_shape_def collect_accept_def
  by (auto simp: accepted_jobs_def filter_upt_snoc zero_result_def simp del: upt_Suc)

lemma collect_shape_fields [simp]:
  "collect_shape js (c\<lparr>g_stale := x\<rparr>) = collect_shape js c"
  "collect_shape js (c\<lparr>g_seen := y, g_size := z\<rparr>) = collect_shape js c"
  by (simp_all add: collect_shape_def)

lemma collect_job_shape: "collect_shape js c \<Longrightarrow> collect_shape (js @ [j]) (collect_job now s j c)"
  by (auto simp: collect_job_def Let_def intro: collect_refuse_shape collect_accept_shape)

lemma collect_init_shape: "collect_shape [] (collect_init s)"
  by (simp add: collect_shape_def collect_init_def accepted_jobs_def)

text \<open>The count of the collected values against the view \<open>m\<close>.\<close>

definition collect_room :: "entries \<Rightarrow> int \<Rightarrow> collect \<Rightarrow> bool" where
  "collect_room m limit c \<longleftrightarrow>
     (0 < limit \<longrightarrow>
        added (g_deltas c) = fset (g_seen c)
        \<and> (g_seen c = {||} \<or> g_size c \<le> limit)
        \<and> int (card (fset (fmdom m) \<union> fset (g_seen c))) \<le> g_size c)"

lemma card_Un_filter: "finite A \<Longrightarrow> card (A \<union> set vs) \<le> card A + length (filter (\<lambda>v. v \<notin> A) vs)"
proof (induction vs arbitrary: A)
  case (Cons v vs)
  show ?case
  proof (cases "v \<in> A")
    case True
    then show ?thesis using Cons by (simp add: insert_absorb)
  next
    case False
    have "filter (\<lambda>x. x \<notin> insert v A) vs = filter (\<lambda>x. x \<noteq> v) (filter (\<lambda>x. x \<notin> A) vs)"
      by (simp add: conj_commute)
    then have "length (filter (\<lambda>x. x \<notin> insert v A) vs) \<le> length (filter (\<lambda>x. x \<notin> A) vs)"
      by (simp only: length_filter_le)
    then show ?thesis using Cons.IH [of "insert v A"] Cons.prems False by simp
  qed
qed simp

lemma added_job: "added (job_deltas j) = (if j_op j = OpAdd then r_Value ` set (j_recs j) else {})"
  by (force simp: added_def job_deltas_def)

lemma collect_job_room:
  assumes ex: "\<And>v. set_exists s v \<longleftrightarrow> v |\<in>| fmdom m" and lim: "d_Limit (s_Def s) = limit"
    and rm: "collect_room m limit c"
  shows "collect_room m limit (collect_job now s j c)"
proof (cases "0 < limit \<and> j_op j = OpAdd \<and> \<not> job_stale now j \<and> j_recs j \<noteq> []")
  case False
  then show ?thesis
    using rm lim by (auto simp: collect_room_def collect_job_def collect_refuse_def collect_accept_def added_job)
next
  case True
  let ?vs = "map r_Value (j_recs j)" and ?A = "fset (fmdom m) \<union> fset (g_seen c)"
  have fresh: "set_Fresh s ?vs (g_seen c) = int (length (filter (\<lambda>v. v \<notin> ?A) ?vs))"
    unfolding set_Fresh_def by (simp add: ex conj_commute)
  have "int (card (?A \<union> set ?vs)) \<le> int (card ?A) + set_Fresh s ?vs (g_seen c)"
    unfolding fresh using card_Un_filter [of ?A ?vs] by simp
  moreover have "added (g_deltas c) = fset (g_seen c)" "int (card ?A) \<le> g_size c"
    using rm True by (auto simp: collect_room_def)
  ultimately show ?thesis
    using True lim rm
    by (auto simp: collect_room_def collect_job_def Let_def collect_refuse_def collect_accept_def added_job
        fset_of_list.rep_eq Un_assoc)
qed

lemma collect_init_room:
  assumes "inflight s ps"
  shows "collect_room (final ps (s_entries s)) limit (collect_init s)"
  using assms by (simp add: collect_room_def collect_init_def set_Size_def inflight_def fcard.rep_eq)

lemma collect_fold:
  assumes ex: "\<And>v. set_exists s v \<longleftrightarrow> v |\<in>| fmdom m"
    and "collect_shape js0 c" and "collect_room m (d_Limit (s_Def s)) c"
  shows "collect_shape (js0 @ js) (fold (collect_job now s) js c)
    \<and> collect_room m (d_Limit (s_Def s)) (fold (collect_job now s) js c)"
  using assms(2,3)
proof (induction js arbitrary: js0 c)
  case (Cons j js)
  have "collect_shape ((js0 @ [j]) @ js) (fold (collect_job now s) js (collect_job now s j c))
    \<and> collect_room m (d_Limit (s_Def s)) (fold (collect_job now s) js (collect_job now s j c))"
    using collect_job_shape [OF Cons.prems(1)] collect_job_room [OF ex refl Cons.prems(2)] by (intro Cons.IH)
  then show ?case by simp
qed simp

section \<open>Deciding\<close>

definition decided :: "plan \<Rightarrow> jobResult \<Rightarrow> jobResult" where
  "decided p r = (if q_code r = [] then r\<lparr>q_seq := pl_Seq p\<rparr> else r)"

lemma fold_update:
  assumes "distinct is" and "\<forall>i\<in>set is. i < length rs"
  shows "fold (\<lambda>i rs. rs[i := f (rs ! i)]) is rs
    = map (\<lambda>i. if i \<in> set is then f (rs ! i) else rs ! i) [0..<length rs]"
  using assms
proof (induction "is" arbitrary: rs)
  case Nil
  then show ?case by (simp add: map_nth)
next
  case (Cons i "is")
  then show ?case by (auto intro!: nth_equalityI simp: nth_list_update)
qed

lemma mark_accepted:
  assumes "collect_shape jobs c" and "pl_Rejected p = []"
  shows "fold (mark_result jobs p) (g_accepted c) (g_results c) = map (decided p) (g_results c)"
proof -
  have "mark_result jobs p = (\<lambda>i rs. rs[i := (rs ! i)\<lparr>q_seq := pl_Seq p\<rparr>])"
    by (auto simp: mark_result_def assms(2) Let_def fun_eq_iff)
  moreover have "distinct (g_accepted c)" "\<forall>i\<in>set (g_accepted c). i < length (g_results c)"
    "\<And>i. i < length (g_results c) \<Longrightarrow> i \<in> set (g_accepted c) \<longleftrightarrow> q_code (g_results c ! i) = []"
    using assms(1) by (auto simp: collect_shape_def)
  ultimately show ?thesis
    by (simp add: fold_update) (auto intro!: nth_equalityI simp: decided_def)
qed

lemma room_collect:
  "collect_room m (d_Limit (s_Def s)) c \<Longrightarrow> room s m (g_deltas c)"
  by (auto simp: collect_room_def room_def)

lemma decide_ok:
  assumes shape: "collect_shape jobs c" and rm: "collect_room (final ps (s_entries s)) (d_Limit (s_Def s)) c"
    and inv: "inflight s ps" and d: "decide jobs c s = (s', p, results)"
  shows "pl_Rejected p = [] \<and> results = map (decided p) (g_results c)
    \<and> (if pl_Deltas p = [] then s' = s else inflight s' (ps @ [p]))
    \<and> content (final (ps @ [p]) (s_entries s)) = fold request (g_deltas c) (content (final ps (s_entries s)))"
proof (cases "g_deltas c = []")
  case True
  then have "\<forall>r\<in>set (g_results c). q_code r \<noteq> []"
    using shape
    by (fastforce simp: collect_shape_def accepted_jobs_def job_deltas_def in_set_conv_nth set_zip filter_empty_conv)
  then have "map (decided p) (g_results c) = g_results c" by (auto simp: decided_def intro: map_idI)
  with True d show ?thesis by (auto simp: decide_def zero_plan_def)
next
  case False
  then have pl: "set_Plan (g_deltas c) s = (s', p)"
    and res: "results = fold (mark_result jobs p) (g_accepted c) (g_results c)"
    using d by (auto simp: decide_def split: prod.splits)
  have rej: "pl_Rejected p = []" using set_Plan_room [OF inv room_collect [OF rm]] pl by simp
  show ?thesis
    using rej res mark_accepted [OF shape rej] set_Plan_inflight [OF inv pl] set_Plan_content [OF inv pl rej]
    by simp
qed

end
