(* ===== verification/Pipeline.thy ===== *)
theory Pipeline
  imports KeeperPlan
begin

text \<open>
  The life of one holder of \<open>src/internal/keeper/keeper.go\<close>, from \<open>mount\<close> until its \<open>stop\<close> channel is
  closed, as a step relation: clients queue jobs, the planner gathers, collects, plans and sends
  batches, the committer takes a batch, checks its generation, waits for the store and commits or
  aborts, and ticks and snapshots are published. Planner and committer take turns at every access
  to the set. The store may fail at any commit.
\<close>

section \<open>States\<close>

text \<open>
  Where the planner stands. The flag of \<open>PCollect\<close> is a ghost: no abort happened since the planner
  read the size of the set. The chunks of a sweep that are still to be planned come last.
\<close>

datatype planner =
    PIdle
  | PGather "job list" int
  | PSweep "string list list"
  | PCollect int u64 "job list" "job list" collect bool "string list list"
  | PSend batch "string list list"

text \<open>
  \<open>y_log\<close> and \<open>y_failed\<close> are ghosts: the batches committed so far, and whether a commit failed.
  \<open>y_next\<close> names the next reply channel.
\<close>

record 'r sys =
  y_h :: holder
  y_planner :: planner
  y_com :: "batch option"
  y_store :: 'r
  y_log :: "batch list"
  y_failed :: bool
  y_next :: nat

abbreviation y_s :: "'r sys \<Rightarrow> sset" where "y_s y \<equiv> h_s (y_h y)"

definition new_holder :: "sset \<Rightarrow> holder" where
  "new_holder s =
     \<lparr>h_s = s, h_jobs = [], h_queued = 0, h_batches = [], h_stop = False, h_stats = zero_stats, h_snap = None,
      h_answers = [], h_published = []\<rparr>"

definition sys_init :: "sset \<Rightarrow> 'r \<Rightarrow> 'r sys" where
  "sys_init s r =
     \<lparr>y_h = new_holder s, y_planner = PIdle, y_com = None, y_store = r, y_log = [], y_failed = False, y_next = 0\<rparr>"

definition start_collect :: "int \<Rightarrow> job list \<Rightarrow> sset \<Rightarrow> string list list \<Rightarrow> planner" where
  "start_collect now jobs s rest = PCollect now (s_epoch s) [] jobs (collect_init s) True rest"

fun taint :: "planner \<Rightarrow> planner" where
  "taint (PCollect now e js todo c clean rest) = PCollect now e js todo c False rest"
| "taint p = p"

section \<open>Steps\<close>

inductive pipe_step :: "'r store \<Rightarrow> options \<Rightarrow> 'r sys \<Rightarrow> 'r sys \<Rightarrow> bool" for st opts where
  Submit:
    "submit_prepare (h_Def (y_h y)) ev now = Inr w \<Longrightarrow>
     (sel = JobSent \<longrightarrow> int (length (h_jobs (y_h y))) < o_QueueMax opts) \<Longrightarrow>
     submit_queue opts w (y_next y) deadline sel (y_h y) = (h', reply) \<Longrightarrow>
     pipe_step st opts y (y\<lparr>y_h := h', y_next := Suc (y_next y)\<rparr>)"
| GatherFirst:
    "y_planner y = PIdle \<Longrightarrow> h_jobs (y_h y) = j # js \<Longrightarrow>
     pipe_step st opts y (y\<lparr>y_h := take_job j ((y_h y)\<lparr>h_jobs := js\<rparr>),
       y_planner := PGather [j] (int (length (j_recs j)))\<rparr>)"
| GatherMore:
    "y_planner y = PGather batch n \<Longrightarrow> n < o_BatchMax opts \<Longrightarrow> h_jobs (y_h y) = j # js \<Longrightarrow>
     pipe_step st opts y (y\<lparr>y_h := take_job j ((y_h y)\<lparr>h_jobs := js\<rparr>),
       y_planner := PGather (batch @ [j]) (n + int (length (j_recs j)))\<rparr>)"
| GatherEnd:
    "y_planner y = PGather batch n \<Longrightarrow>
     pipe_step st opts y (y\<lparr>y_planner := start_collect now batch (y_s y) []\<rparr>)"
| Sweep:
    "y_planner y = PIdle \<Longrightarrow> set_Expired now (y_s y) = (s', vals) \<Longrightarrow>
     pipe_step st opts y (y\<lparr>y_h := (y_h y)\<lparr>h_s := s'\<rparr>,
       y_planner := PSweep (sweep_chunks (nat (o_BatchMax opts)) vals)\<rparr>)"
| SweepNext:
    "y_planner y = PSweep (vals # rest) \<Longrightarrow>
     pipe_step st opts y (y\<lparr>y_h := (y_h y)\<lparr>h_stats := (h_stats (y_h y))\<lparr>t_Expired :=
         t_Expired (h_stats (y_h y)) + int (length vals)\<rparr>\<rparr>,
       y_planner := start_collect now [sweep_job opts vals] (y_s y) rest\<rparr>)"
| SweepEnd:
    "y_planner y = PSweep [] \<Longrightarrow> pipe_step st opts y (y\<lparr>y_planner := PIdle\<rparr>)"
| Collect:
    "y_planner y = PCollect now e js (j # todo) c clean rest \<Longrightarrow>
     pipe_step st opts y (y\<lparr>y_planner := PCollect now e (js @ [j]) todo (collect_job now (y_s y) j c) clean rest\<rparr>)"
| Finish:
    "y_planner y = PCollect now e js [] c clean rest \<Longrightarrow> plan_finish now e js c (y_h y) = (h', b) \<Longrightarrow>
     pipe_step st opts y (y\<lparr>y_h := h', y_planner := (case b of None \<Rightarrow> PSweep rest | Some b \<Rightarrow> PSend b rest)\<rparr>)"
| Send:
    "y_planner y = PSend b rest \<Longrightarrow> int (length (h_batches (y_h y))) < o_Pipeline opts \<Longrightarrow>
     pipe_step st opts y (y\<lparr>y_h := send_batch True b (y_h y), y_planner := PSweep rest\<rparr>)"
| Take:
    "y_com y = None \<Longrightarrow> h_batches (y_h y) = b # bs \<Longrightarrow> pl_Gen (b_plan b) = set_Gen (y_s y) \<Longrightarrow>
     pipe_step st opts y (y\<lparr>y_h := (y_h y)\<lparr>h_batches := bs\<rparr>, y_com := Some b\<rparr>)"
| Outdated:
    "y_com y = None \<Longrightarrow> h_batches (y_h y) = b # bs \<Longrightarrow> pl_Gen (b_plan b) \<noteq> set_Gen (y_s y) \<Longrightarrow>
     pipe_step st opts y (y\<lparr>y_h := commit_fail (s_epoch (y_s y)) b ((y_h y)\<lparr>h_batches := bs\<rparr>)\<rparr>)"
| Stored:
    "y_com y = Some b \<Longrightarrow>
     st_Commit st (d_Name (h_Def (y_h y))) (pl_Deltas (b_plan b)) (pl_Seq (b_plan b)) (pl_Hash (b_plan b))
       (b_pkgKey b) (b_pkg b) (o_DiffTTL opts) (y_store y) = (r', True) \<Longrightarrow>
     commit_stored opts b True ms (y_h y) = Some h' \<Longrightarrow>
     pipe_step st opts y (y\<lparr>y_h := h', y_com := None, y_store := r', y_log := y_log y @ [b]\<rparr>)"
| Failed:
    "y_com y = Some b \<Longrightarrow>
     st_Commit st (d_Name (h_Def (y_h y))) (pl_Deltas (b_plan b)) (pl_Seq (b_plan b)) (pl_Hash (b_plan b))
       (b_pkgKey b) (b_pkg b) (o_DiffTTL opts) (y_store y) = (r', False) \<Longrightarrow>
     commit_stored opts b False ms (y_h y) = Some h' \<Longrightarrow>
     pipe_step st opts y (y\<lparr>y_h := h', y_com := None, y_store := r', y_failed := True, y_planner := taint (y_planner y)\<rparr>)"
| Tick:
    "pipe_step st opts y (y\<lparr>y_h := publishTick (y_h y)\<rparr>)"
| Snapshot:
    "map_order (s_entries (y_s y)) order \<Longrightarrow>
     holder_Snapshot st opts name order now at (y_h y) (y_store y) = (h', r', f) \<Longrightarrow>
     pipe_step st opts y (y\<lparr>y_h := h', y_store := r'\<rparr>)"

abbreviation pipe_reach :: "'r store \<Rightarrow> options \<Rightarrow> 'r sys \<Rightarrow> 'r sys \<Rightarrow> bool" where
  "pipe_reach st opts \<equiv> (pipe_step st opts)\<^sup>*\<^sup>*"

section \<open>The invariant\<close>

definition planner_batch :: "planner \<Rightarrow> batch list" where
  "planner_batch p = (case p of PSend b rest \<Rightarrow> [b] | _ \<Rightarrow> [])"

text \<open>Every batch on its way to the store, in order.\<close>

definition outstanding :: "'r sys \<Rightarrow> batch list" where
  "outstanding y = (case y_com y of Some b \<Rightarrow> [b] | None \<Rightarrow> []) @ h_batches (y_h y) @ planner_batch (y_planner y)"

text \<open>The plans that are not outdated.\<close>

definition live_plans :: "'r sys \<Rightarrow> plan list" where
  "live_plans y = filter (\<lambda>p. pl_Gen p = s_gen (y_s y)) (map b_plan (outstanding y))"

fun ordered_gens :: "u64 \<Rightarrow> plan list \<Rightarrow> bool" where
  "ordered_gens g [] = True"
| "ordered_gens g (p # ps) =
     (if pl_Gen p = g then \<forall>q\<in>set ps. pl_Gen q = g else pl_Gen p = g - 1 \<and> ordered_gens g ps)"

text \<open>The planned view: the committed entries with the plans in flight on top.\<close>

definition y_view :: "'r sys \<Rightarrow> entries" where
  "y_view y = final (live_plans y) (s_entries (y_s y))"

definition planner_ok :: "'r sys \<Rightarrow> bool" where
  "planner_ok y =
     (case y_planner y of
        PCollect now e js todo c clean rest \<Rightarrow>
          collect_shape js c \<and> (clean \<longrightarrow> collect_room (y_view y) (d_Limit (h_Def (y_h y))) c)
      | _ \<Rightarrow> True)"

definition pipe_inv :: "options \<Rightarrow> 'r sys \<Rightarrow> bool" where
  "pipe_inv opts y \<longleftrightarrow>
     inflight (y_s y) (live_plans y)
     \<and> ordered_gens (s_gen (y_s y)) (map b_plan (outstanding y))
     \<and> (\<forall>b. y_com y = Some b \<longrightarrow> pl_Gen (b_plan b) = s_gen (y_s y))
     \<and> int (length (h_batches (y_h y))) \<le> o_Pipeline opts
     \<and> planner_ok y"

lemma pipe_invD:
  assumes "pipe_inv opts y"
  shows "inflight (y_s y) (live_plans y)" "ordered_gens (s_gen (y_s y)) (map b_plan (outstanding y))"
    "y_com y = Some b \<Longrightarrow> pl_Gen (b_plan b) = s_gen (y_s y)"
    "int (length (h_batches (y_h y))) \<le> o_Pipeline opts" "planner_ok y"
  using assms unfolding pipe_inv_def by blast+

lemma u64_minus_one_ne [simp]: "(g :: u64) - 1 \<noteq> g" "g \<noteq> g - 1"
  using add_left_cancel [of g "-1" 0] by auto

lemma ordered_gens_same: "\<forall>p\<in>set ps. pl_Gen p = g \<Longrightarrow> ordered_gens g ps"
  by (induction ps) auto

lemma ordered_gens_old: "\<forall>p\<in>set ps. pl_Gen p = g \<Longrightarrow> ordered_gens (g + 1) ps"
  by (induction ps) auto

lemma ordered_gens_tl: "ordered_gens g (p # ps) \<Longrightarrow> ordered_gens g ps"
  by (auto intro: ordered_gens_same split: if_splits)

lemma ordered_gens_snoc: "ordered_gens g ps \<Longrightarrow> pl_Gen p = g \<Longrightarrow> ordered_gens g (ps @ [p])"
  by (induction ps) auto

section \<open>The steps keep the invariant\<close>

lemma decide_inflight:
  assumes inv: "inflight s ps" and d: "decide jobs c s = (s', p, results)"
  shows "(if pl_Deltas p = [] then s' = s else inflight s' (ps @ [p]) \<and> pl_Gen p = s_gen s)
    \<and> s_gen s' = s_gen s \<and> s_Def s' = s_Def s \<and> s_entries s' = s_entries s \<and> s_epoch s' = s_epoch s \<and> s_key s' = s_key s
    \<and> s_hash s' = s_hash s \<and> s_seq s' = s_seq s \<and> s_exp s' = s_exp s"
proof (cases "g_deltas c = []")
  case True
  with d show ?thesis by (auto simp: decide_def zero_plan_def)
next
  case False
  then have "set_Plan (g_deltas c) s = (s', p)" using d by (auto simp: decide_def split: prod.splits)
  then show ?thesis using set_Plan_inflight [OF inv] by (auto simp: set_Plan_def Let_def split: if_splits)
qed

lemma plan_finish_split:
  assumes "plan_finish now e js c h = (h', b)" and "decide js c (h_s h) = (s', p, results)"
  shows "h_s h' = s' \<and> h_jobs h' = h_jobs h \<and> h_batches h' = h_batches h \<and> h_published h' = h_published h
    \<and> (if pl_Deltas p = [] then b = None \<and> h_answers h' = h_answers h @ answers_of e (zip js results)
       else (\<exists>b'. b = Some b' \<and> b_plan b' = p \<and> (b_pkgKey b', b_pkg b') = keeper_pack s' p
          \<and> map fst (filter (\<lambda>jr. q_code (snd jr) = []) (zip js results)) = b_jobs b'
          \<and> map snd (filter (\<lambda>jr. q_code (snd jr) = []) (zip js results)) = b_results b')
          \<and> h_answers h' = h_answers h @ answers_of e (filter (\<lambda>jr. q_code (snd jr) \<noteq> []) (zip js results)))"
  using assms by (auto simp: plan_finish_def dispatch_def Let_def answers_fold split: prod.splits if_splits)

lemma inflight_exp [simp]: "inflight (s\<lparr>s_exp := x\<rparr>) ps = inflight s ps"
  by (simp add: inflight_def)

text \<open>Steps that leave the set and the batches alone.\<close>

lemma pipe_inv_frame:
  assumes "pipe_inv opts y" and "y_s y' = (y_s y)\<lparr>s_exp := x\<rparr>" and "outstanding y' = outstanding y"
    and "h_batches (y_h y') = h_batches (y_h y)" and "y_com y' = y_com y"
    and "planner_ok y' \<or> y_planner y' = y_planner y"
  shows "pipe_inv opts y'"
proof -
  have lp: "live_plans y' = live_plans y" using assms(2,3) by (simp add: live_plans_def)
  have v: "y_view y' = y_view y" unfolding y_view_def lp using assms(2) by simp
  have "planner_ok y'" using assms(1,2,6) by (auto simp: planner_ok_def v pipe_inv_def split: planner.splits)
  then show ?thesis using assms lp by (simp add: pipe_inv_def)
qed

lemma start_collect_ok:
  assumes "inflight (y_s y) (live_plans y)" and "y_planner y = start_collect now js (y_s y) rest"
  shows "planner_ok y"
  using collect_init_room [OF assms(1)] collect_init_shape [of "y_s y"] assms(2)
  by (simp add: planner_ok_def start_collect_def y_view_def)

lemma start_collect_batch [simp]: "planner_batch (start_collect now js s rest) = []"
  by (simp add: start_collect_def planner_batch_def)

lemma planner_batch_simps [simp]:
  "planner_batch PIdle = []" "planner_batch (PGather js n) = []" "planner_batch (PSweep vs) = []"
  "planner_batch (PCollect now e js todo c clean rest) = []" "planner_batch (PSend b rest) = [b]"
  "planner_batch (taint p) = planner_batch p"
  by (cases p; simp add: planner_batch_def)+

lemma collect_step_ok:
  assumes "pipe_inv opts y" and pl: "y_planner y = PCollect now e js (j # todo) c clean rest"
  shows "planner_ok (y\<lparr>y_planner := PCollect now e (js @ [j]) todo (collect_job now (y_s y) j c) clean rest\<rparr>)"
proof -
  have inv: "inflight (y_s y) (live_plans y)" and ok: "planner_ok y" using assms by (auto simp: pipe_inv_def)
  let ?y = "y\<lparr>y_planner := PCollect now e (js @ [j]) todo (collect_job now (y_s y) j c) clean rest\<rparr>"
  have lp: "live_plans ?y = live_plans y" by (simp add: live_plans_def outstanding_def pl)
  have v: "y_view ?y = y_view y" unfolding y_view_def lp by simp
  have ex: "set_exists (y_s y) v \<longleftrightarrow> v |\<in>| fmdom (y_view y)" for v
    unfolding y_view_def by (rule set_exists_view) (use inv in \<open>simp add: inflight_def\<close>)
  show ?thesis
    using ok pl v collect_job_shape collect_job_room [OF ex refl] by (auto simp: planner_ok_def)
qed

lemma finish_inv:
  assumes inv: "pipe_inv opts y" and pl: "y_planner y = PCollect now e js [] c clean rest"
    and fin: "plan_finish now e js c (y_h y) = (h', b)"
  shows "pipe_inv opts (y\<lparr>y_h := h', y_planner := (case b of None \<Rightarrow> PSweep rest | Some b \<Rightarrow> PSend b rest)\<rparr>)"
proof -
  obtain s' p results where d: "decide js c (y_s y) = (s', p, results)" by (cases "decide js c (y_s y)") auto
  have infl: "inflight (y_s y) (live_plans y)" using inv by (simp add: pipe_inv_def)
  note D = decide_inflight [OF infl d] and F = plan_finish_split [OF fin d]
  show ?thesis
  proof (cases "pl_Deltas p = []")
    case True
    then have "b = None" "h_s h' = y_s y" using D F by auto
    then show ?thesis using F pl
      by (intro pipe_inv_frame [OF inv, where x = "s_exp (y_s y)"]) (auto simp: outstanding_def planner_ok_def)
  next
    case False
    then obtain b' where b: "b = Some b'" "b_plan b' = p" using F by auto
    let ?y = "y\<lparr>y_h := h', y_planner := PSend b' rest\<rparr>"
    have o: "outstanding ?y = outstanding y @ [b']" using F pl by (simp add: outstanding_def)
    have g: "s_gen (h_s h') = s_gen (y_s y)" "pl_Gen p = s_gen (y_s y)" "h_s h' = s'" using D F False by auto
    have lp: "live_plans ?y = live_plans y @ [p]" using g b o by (simp add: live_plans_def)
    have "inflight s' (live_plans y @ [p])" using D False by simp
    then show ?thesis
      using inv b F g lp o ordered_gens_snoc [of "s_gen (y_s y)" "map b_plan (outstanding y)" p]
      by (auto simp: pipe_inv_def planner_ok_def)
  qed
qed

lemma commit_fail_frame [simp]:
  "h_s (commit_fail e b h) = h_s h" "h_jobs (commit_fail e b h) = h_jobs h" "h_batches (commit_fail e b h) = h_batches h"
  "h_published (commit_fail e b h) = h_published h"
  by (simp_all add: commit_fail_def)

lemma commit_stored_fail:
  assumes "commit_stored opts b False ms h = Some h'"
  shows "h_s h' = set_Abort (h_s h) \<and> h_batches h' = h_batches h \<and> h_jobs h' = h_jobs h \<and> h_published h' = h_published h"
  using assms by (auto simp: commit_stored_def Let_def)

lemma commit_stored_ok:
  assumes "commit_stored opts b True ms h = Some h'"
  shows "h_s h' = fst (set_Commit (b_plan b) (b_at b) (h_s h)) \<and> h_batches h' = h_batches h \<and> h_jobs h' = h_jobs h
    \<and> (\<exists>ch. snd (set_Commit (b_plan b) (b_at b) (h_s h)) = Some ch
        \<and> h_published h' = h_published h @ [diff_frame opts (s_epoch (h_s h)) b ch (s_Def (h_s h'))]
        \<and> h_answers h' = h_answers h @ answers_of (s_epoch (h_s h)) (zip (b_jobs b) (map (\<lambda>r. r\<lparr>q_seq := c_Seq ch\<rparr>) (b_results b))))"
  using assms by (auto simp: commit_stored_def Let_def answers_fold split: prod.splits option.splits)

text \<open>The head of the outstanding batches when one is with the committer.\<close>

lemma com_live:
  assumes inv: "pipe_inv opts y" and c: "y_com y = Some b"
  shows "live_plans y = b_plan b # map b_plan (h_batches (y_h y) @ planner_batch (y_planner y))"
    and "\<forall>q\<in>set (map b_plan (h_batches (y_h y) @ planner_batch (y_planner y))). pl_Gen q = s_gen (y_s y)"
proof -
  have o: "outstanding y = b # h_batches (y_h y) @ planner_batch (y_planner y)" using c by (simp add: outstanding_def)
  have g: "pl_Gen (b_plan b) = s_gen (y_s y)" by (rule pipe_invD(3) [OF inv c])
  show all: "\<forall>q\<in>set (map b_plan (h_batches (y_h y) @ planner_batch (y_planner y))). pl_Gen q = s_gen (y_s y)"
    using pipe_invD(2) [OF inv] unfolding o list.map ordered_gens.simps if_P [OF g] .
  show "live_plans y = b_plan b # map b_plan (h_batches (y_h y) @ planner_batch (y_planner y))"
    unfolding live_plans_def o list.map filter.simps if_P [OF g] filter_True [OF all] ..
qed

lemma live_length:
  assumes "pipe_inv opts y" and "y_com y = Some b" and "int64_range (o_Pipeline opts)"
  shows "length (map b_plan (h_batches (y_h y) @ planner_batch (y_planner y))) < 2 ^ 64 - 1"
proof -
  have a: "length (planner_batch (y_planner y)) \<le> 1" by (cases "y_planner y") auto
  have "int (length (h_batches (y_h y))) < 2 ^ 63" using assms(1,3) unfolding pipe_inv_def int64_range_def by linarith
  then have "length (h_batches (y_h y)) < 9223372036854775808" by simp
  then show ?thesis unfolding length_map length_append using a by simp
qed

lemma stored_inv:
  assumes inv: "pipe_inv opts y" and c: "y_com y = Some b" and pipe: "int64_range (o_Pipeline opts)"
    and st: "commit_stored opts b True ms (y_h y) = Some h'"
  shows "pipe_inv opts (y\<lparr>y_h := h', y_com := None, y_store := r', y_log := log\<rparr>)"
proof -
  let ?ps = "map b_plan (h_batches (y_h y) @ planner_batch (y_planner y))"
  let ?y = "y\<lparr>y_h := h', y_com := None, y_store := r', y_log := log\<rparr>"
  note L = com_live [OF inv c]
  have infl: "inflight (y_s y) (b_plan b # ?ps)" using pipe_invD(1) [OF inv] unfolding L(1) .
  note C = set_Commit_inflight [OF infl live_length [OF inv c pipe], of "b_at b"]
  have ne: "pl_Deltas (b_plan b) \<noteq> []" using infl unfolding inflight_def chain.simps by blast
  have h': "h_s h' = fst (set_Commit (b_plan b) (b_at b) (y_s y))" "h_batches h' = h_batches (y_h y)"
    using commit_stored_ok [OF st] by auto
  have keep: "s_gen (h_s h') = s_gen (y_s y)" "s_Def (h_s h') = s_Def (y_s y)"
    unfolding h' using ne by (simp_all add: set_Commit_fields)
  have o: "map b_plan (outstanding ?y) = ?ps" using h' by (simp add: outstanding_def)
  have gy: "s_gen (y_s ?y) = s_gen (y_s y)" using keep by simp
  have lp: "live_plans ?y = ?ps" unfolding live_plans_def o gy by (rule filter_True [OF L(2)])
  have v: "y_view ?y = y_view y" unfolding y_view_def lp L(1) final_simps C(3) [symmetric] using h' by simp
  have "planner_ok ?y" using inv v keep by (auto simp: pipe_inv_def planner_ok_def split: planner.splits)
  moreover have "ordered_gens (s_gen (h_s h')) ?ps" unfolding keep by (rule ordered_gens_same [OF L(2)])
  ultimately show ?thesis using inv C(1) lp h' o by (simp add: pipe_inv_def)
qed

lemma failed_inv:
  assumes inv: "pipe_inv opts y" and c: "y_com y = Some b"
    and st: "commit_stored opts b False ms (y_h y) = Some h'"
  shows "pipe_inv opts (y\<lparr>y_h := h', y_com := None, y_store := r', y_failed := True, y_planner := taint (y_planner y)\<rparr>)"
proof -
  let ?ps = "map b_plan (h_batches (y_h y) @ planner_batch (y_planner y))"
  let ?y = "y\<lparr>y_h := h', y_com := None, y_store := r', y_failed := True, y_planner := taint (y_planner y)\<rparr>"
  note L = com_live [OF inv c] and F = commit_stored_fail [OF st]
  have g: "s_gen (h_s h') = s_gen (y_s y) + 1" using F by (simp add: set_Abort_def settle_def Let_def)
  have o: "map b_plan (outstanding ?y) = ?ps" using F by (simp add: outstanding_def)
  have gy: "s_gen (y_s ?y) = s_gen (y_s y) + 1" using g by simp
  have "\<forall>p\<in>set ?ps. pl_Gen p \<noteq> s_gen (y_s y) + 1" using L(2) by (metis add_cancel_right_right one_neq_zero)
  then have lp: "live_plans ?y = []" unfolding live_plans_def o gy by (rule filter_False)
  have "inflight (h_s h') []" using F inv set_Abort_inflight by (auto simp: pipe_inv_def)
  moreover have "ordered_gens (s_gen (h_s h')) ?ps" unfolding g by (rule ordered_gens_old [OF L(2)])
  moreover have "planner_ok ?y" using inv by (cases "y_planner y") (auto simp: pipe_inv_def planner_ok_def)
  ultimately show ?thesis using inv lp F o by (simp add: pipe_inv_def)
qed

lemma outdated_inv:
  assumes inv: "pipe_inv opts y" and c: "y_com y = None" and b: "h_batches (y_h y) = b # bs"
    and g: "pl_Gen (b_plan b) \<noteq> set_Gen (y_s y)"
  shows "pipe_inv opts (y\<lparr>y_h := commit_fail (s_epoch (y_s y)) b ((y_h y)\<lparr>h_batches := bs\<rparr>)\<rparr>)"
proof -
  let ?y = "y\<lparr>y_h := commit_fail (s_epoch (y_s y)) b ((y_h y)\<lparr>h_batches := bs\<rparr>)\<rparr>"
  have o: "outstanding y = b # outstanding ?y" using c b by (simp add: outstanding_def)
  have lp: "live_plans ?y = live_plans y" unfolding live_plans_def o using g by (simp add: set_Gen_def)
  have v: "y_view ?y = y_view y" unfolding y_view_def lp by simp
  have "planner_ok ?y" using inv v by (auto simp: pipe_inv_def planner_ok_def split: planner.splits)
  moreover have "ordered_gens (s_gen (y_s y)) (map b_plan (outstanding ?y))"
    using inv ordered_gens_tl [of "s_gen (y_s y)" "b_plan b" "map b_plan (outstanding ?y)"]
    unfolding pipe_inv_def o by (simp only: list.map)
  ultimately show ?thesis using inv lp b c by (simp add: pipe_inv_def)
qed

lemma submit_queue_frame:
  assumes "submit_queue opts w rid dl sel h = (h', reply)"
  shows "h_s h' = h_s h \<and> h_batches h' = h_batches h \<and> h_published h' = h_published h \<and> h_answers h' = h_answers h"
  using assms by (auto simp: submit_queue_def Let_def split: prod.splits if_splits queue_select.splits)

lemma take_job_frame [simp]:
  "h_s (take_job j h) = h_s h" "h_batches (take_job j h) = h_batches h" "h_published (take_job j h) = h_published h"
  "h_answers (take_job j h) = h_answers h" "h_jobs (take_job j h) = h_jobs h"
  by (simp_all add: take_job_def)

lemma holder_Snapshot_frame:
  assumes "holder_Snapshot st opts name order now at h r = (h', r', f)"
  shows "h_s h' = h_s h \<and> h_batches h' = h_batches h \<and> h_published h' = h_published h \<and> h_answers h' = h_answers h
    \<and> h_jobs h' = h_jobs h"
  using assms by (auto simp: holder_Snapshot_def Let_def split: prod.splits if_splits option.splits)

lemma publishTick_frame [simp]:
  "h_s (publishTick h) = h_s h" "h_batches (publishTick h) = h_batches h" "h_jobs (publishTick h) = h_jobs h"
  "h_answers (publishTick h) = h_answers h"
  by (simp_all add: publishTick_def Let_def)

lemma send_batch_frame [simp]:
  "h_s (send_batch x b h) = h_s h" "h_jobs (send_batch x b h) = h_jobs h" "h_published (send_batch x b h) = h_published h"
  "h_answers (send_batch x b h) = h_answers h" "h_batches (send_batch True b h) = h_batches h @ [b]"
  by (simp_all add: send_batch_def)

lemma pipe_inv_same:
  assumes "pipe_inv opts y" and "y_s y' = y_s y" and "outstanding y' = outstanding y"
    and "h_batches (y_h y') = h_batches (y_h y)" and "y_com y' = y_com y"
    and "planner_ok y' \<or> y_planner y' = y_planner y"
  shows "pipe_inv opts y'"
  by (rule pipe_inv_frame [OF assms(1) _ assms(3-6), where x = "s_exp (y_s y)"]) (use assms(2) in simp)

text \<open>The planner begins to decide a batch against the set as it is.\<close>

lemma start_collect_inv:
  assumes inv: "pipe_inv opts y" and p: "y_planner y' = start_collect now js (y_s y) rest" and s: "y_s y' = y_s y"
    and b: "h_batches (y_h y') = h_batches (y_h y)" and c: "y_com y' = y_com y" and none: "planner_batch (y_planner y) = []"
  shows "pipe_inv opts y'"
proof -
  have o: "outstanding y' = outstanding y" using p b c none by (simp add: outstanding_def start_collect_def)
  then have "live_plans y' = live_plans y" using s by (simp add: live_plans_def)
  then have "planner_ok y'" using p s pipe_invD(1) [OF inv] by (intro start_collect_ok) auto
  then show ?thesis using s b c o by (intro pipe_inv_same [OF inv]) auto
qed

lemma send_inv:
  assumes inv: "pipe_inv opts y" and p: "y_planner y = PSend b rest" and room: "int (length (h_batches (y_h y))) < o_Pipeline opts"
  shows "pipe_inv opts (y\<lparr>y_h := send_batch True b (y_h y), y_planner := PSweep rest\<rparr>)" (is "pipe_inv opts ?y")
proof -
  have o: "outstanding ?y = outstanding y" using p by (simp add: outstanding_def)
  then have "live_plans ?y = live_plans y" by (simp add: live_plans_def)
  then show ?thesis using inv p room o by (simp add: pipe_inv_def planner_ok_def)
qed

lemma take_inv:
  assumes inv: "pipe_inv opts y" and idle: "y_com y = None" and b: "h_batches (y_h y) = b # bs"
    and gen: "pl_Gen (b_plan b) = set_Gen (y_s y)"
  shows "pipe_inv opts (y\<lparr>y_h := (y_h y)\<lparr>h_batches := bs\<rparr>, y_com := Some b\<rparr>)" (is "pipe_inv opts ?y")
proof -
  have o: "outstanding ?y = outstanding y" using idle b by (simp add: outstanding_def)
  then have lp: "live_plans ?y = live_plans y" by (simp add: live_plans_def)
  then have "y_view ?y = y_view y" by (simp add: y_view_def)
  then have "planner_ok ?y" using pipe_invD(5) [OF inv] by (auto simp: planner_ok_def split: planner.splits)
  then show ?thesis using inv b gen o lp by (simp add: pipe_inv_def set_Gen_def)
qed

lemma pipe_step_inv:
  assumes "pipe_step st opts y y'" and "pipe_inv opts y" and pipe: "int64_range (o_Pipeline opts)"
  shows "pipe_inv opts y'"
  using assms(1,2)
proof cases
  case (Submit ev now w sel deadline h' reply)
  with assms(2) submit_queue_frame [OF Submit(4)] show ?thesis
    by (intro pipe_inv_same [OF assms(2)]) (auto simp: outstanding_def)
next
  case (GatherFirst j js)
  then show ?thesis by (intro pipe_inv_same [OF assms(2)]) (auto simp: outstanding_def planner_ok_def)
next
  case (GatherMore batch n j js)
  then show ?thesis by (intro pipe_inv_same [OF assms(2)]) (auto simp: outstanding_def planner_ok_def)
next
  case (GatherEnd batch n now)
  then show ?thesis by (intro start_collect_inv [OF assms(2)]) auto
next
  case (Sweep now s' vals)
  then show ?thesis using set_Expired_frame [OF Sweep(3)]
    by (intro pipe_inv_frame [OF assms(2), where x = "s_exp s'"]) (auto simp: outstanding_def planner_ok_def)
next
  case (SweepNext vals rest now)
  then show ?thesis by (intro start_collect_inv [OF assms(2)]) auto
next
  case SweepEnd
  then show ?thesis by (intro pipe_inv_same [OF assms(2)]) (auto simp: outstanding_def planner_ok_def)
next
  case (Collect now e js j todo c clean rest)
  then show ?thesis using collect_step_ok [OF assms(2) Collect(2)]
    by (intro pipe_inv_same [OF assms(2)]) (auto simp: outstanding_def)
next
  case (Finish now e js c clean rest h' b)
  then show ?thesis using finish_inv [OF assms(2)] by simp
next
  case (Send b rest)
  then show ?thesis using send_inv [OF assms(2)] by simp
next
  case (Take b bs)
  then show ?thesis using take_inv [OF assms(2)] by simp
next
  case (Outdated b bs)
  then show ?thesis using outdated_inv [OF assms(2)] by simp
next
  case (Stored b r' ms h')
  then show ?thesis using stored_inv [OF assms(2) _ pipe] by simp
next
  case (Failed b r' ms h')
  then show ?thesis using failed_inv [OF assms(2)] by simp
next
  case Tick
  then show ?thesis by (intro pipe_inv_same [OF assms(2)]) (auto simp: outstanding_def)
next
  case (Snapshot order name now at h' r' f)
  with holder_Snapshot_frame [OF Snapshot(3)] show ?thesis
    by (intro pipe_inv_same [OF assms(2)]) (auto simp: outstanding_def)
qed

lemma sys_init_inv:
  assumes "inflight s []" and "0 \<le> o_Pipeline opts"
  shows "pipe_inv opts (sys_init s r)"
  using assms by (simp add: pipe_inv_def sys_init_def new_holder_def live_plans_def outstanding_def planner_ok_def)

text \<open>A pipeline depth that is a Go \<open>int\<close>, as \<open>New\<close> leaves it.\<close>

definition depth_ok :: "options \<Rightarrow> bool" where
  "depth_ok opts \<longleftrightarrow> 0 \<le> o_Pipeline opts \<and> int64_range (o_Pipeline opts)"

interpretation pipe: step_invariant "pipe_step st opts" "\<lambda>y. depth_ok opts \<and> pipe_inv opts y" for st opts
  by unfold_locales (auto simp: depth_ok_def intro: pipe_step_inv)

lemma pipe_reach_inv:
  assumes "pipe_reach st opts (sys_init s r) y" and "inflight s []" and "depth_ok opts"
  shows "pipe_inv opts y"
  using pipe.reach_keeps [OF assms(1)] sys_init_inv [OF assms(2), of opts r] assms(3) by (simp add: depth_ok_def)

end
