(* ===== verification/PipelineLog.thy ===== *)
theory PipelineLog
  imports Pipeline
begin

text \<open>
  What a holder has done when it is in a reachable state: the committed batches are consecutive,
  the content is their replay, the published diff frames are exactly theirs; every reply channel
  got at most one answer; a positive answer names a sequence number that is committed; and the
  set stays within its limit, also across aborts.
\<close>

section \<open>The log of committed batches\<close>

fun log_ok :: "entries \<Rightarrow> u64 \<Rightarrow> batch list \<Rightarrow> bool" where
  "log_ok m q [] = True"
| "log_ok m q (b # bs) =
     (pl_Deltas (b_plan b) \<noteq> [] \<and> pl_Seq (b_plan b) = q + 1
      \<and> pl_Hash (b_plan b) = hsum (replay (pl_Deltas (b_plan b)) m)
      \<and> log_ok (replay (pl_Deltas (b_plan b)) m) (q + 1) bs)"

definition log_deltas :: "batch list \<Rightarrow> delta list" where
  "log_deltas bs = concat (map (pl_Deltas \<circ> b_plan) bs)"

lemma log_deltas_simps [simp]:
  "log_deltas [] = []" "log_deltas (b # bs) = pl_Deltas (b_plan b) @ log_deltas bs"
  "log_deltas (bs @ bs') = log_deltas bs @ log_deltas bs'"
  by (simp_all add: log_deltas_def)

lemma log_ok_append:
  "log_ok m q (bs @ [b]) \<longleftrightarrow> log_ok m q bs \<and>
     log_ok (replay (log_deltas bs) m) (q + of_nat (length bs)) [b]"
  by (induction bs arbitrary: m q) (auto simp: add.assoc add.commute)

lemma log_ok_nth:
  assumes "log_ok m q bs" and "i < length bs"
  shows "pl_Seq (b_plan (bs ! i)) = q + of_nat (Suc i)
    \<and> pl_Hash (b_plan (bs ! i)) = hsum (replay (log_deltas (take (Suc i) bs)) m)"
  using assms
proof (induction bs arbitrary: m q i)
  case (Cons b bs)
  then show ?case by (cases i) (auto simp: add.assoc)
qed simp

text \<open>The frame a committed batch is published with.\<close>

definition frame_of :: "options \<Rightarrow> u64 \<Rightarrow> set_def \<Rightarrow> batch \<Rightarrow> frame" where
  "frame_of opts epoch d b =
     diff_frame opts epoch b \<lparr>c_Seq = pl_Seq (b_plan b), c_Hash = pl_Hash (b_plan b), c_At = b_at b,
       c_Deltas = pl_Deltas (b_plan b)\<rparr> d"

abbreviation diffs :: "holder \<Rightarrow> frame list" where
  "diffs h \<equiv> filter (\<lambda>f. f_Op f = OpDiff) (h_published h)"

definition log_inv :: "options \<Rightarrow> sset \<Rightarrow> 'r sys \<Rightarrow> bool" where
  "log_inv opts s0 y \<longleftrightarrow>
     s_Def (y_s y) = s_Def s0 \<and> s_epoch (y_s y) = s_epoch s0 \<and> s_key (y_s y) = s_key s0
     \<and> s_entries (y_s y) = replay (log_deltas (y_log y)) (s_entries s0)
     \<and> s_seq (y_s y) = s_seq s0 + of_nat (length (y_log y))
     \<and> log_ok (s_entries s0) (s_seq s0) (y_log y)
     \<and> diffs (y_h y) = map (frame_of opts (s_epoch s0) (s_Def s0)) (y_log y)
     \<and> (\<forall>b\<in>set (outstanding y @ y_log y). (b_pkgKey b, b_pkg b) = keeper_pack s0 (b_plan b))"

lemma keeper_pack_cong:
  "s_Def s = s_Def s' \<Longrightarrow> s_epoch s = s_epoch s' \<Longrightarrow> s_key s = s_key s' \<Longrightarrow> keeper_pack s p = keeper_pack s' p"
  by (simp add: keeper_pack_def)

lemma op_names [simp]: "OpTick \<noteq> OpDiff" "f_Op (frame_of opts e d b) = OpDiff" "f_Op (diff_frame opts e b ch d) = OpDiff"
  by (simp_all add: OpTick_def OpDiff_def frame_of_def diff_frame_def)

lemma diffs_tick [simp]: "diffs (publishTick h) = diffs h"
  by (simp add: publishTick_def Let_def)

lemma log_inv_same:
  assumes "log_inv opts s0 y" and "y_s y' = (y_s y)\<lparr>s_exp := x\<rparr>"
    and "set (outstanding y') \<subseteq> set (outstanding y)" and "y_log y' = y_log y" and "diffs (y_h y') = diffs (y_h y)"
  shows "log_inv opts s0 y'"
  using assms by (auto simp: log_inv_def)

lemma log_inv_finish:
  assumes inv: "pipe_inv opts y" and log: "log_inv opts s0 y"
    and pl: "y_planner y = PCollect now e js [] c clean rest"
    and fin: "plan_finish now e js c (y_h y) = (h', b)"
  shows "log_inv opts s0 (y\<lparr>y_h := h', y_planner := (case b of None \<Rightarrow> PSweep rest | Some b \<Rightarrow> PSend b rest)\<rparr>)"
proof -
  obtain s' p results where d: "decide js c (y_s y) = (s', p, results)" by (cases "decide js c (y_s y)") auto
  note D = decide_inflight [OF pipe_invD(1) [OF inv] d] and F = plan_finish_split [OF fin d]
  let ?y = "y\<lparr>y_h := h', y_planner := (case b of None \<Rightarrow> PSweep rest | Some b \<Rightarrow> PSend b rest)\<rparr>"
  have "(b_pkgKey b', b_pkg b') = keeper_pack s0 (b_plan b')" if "b' \<in> set (outstanding ?y)" for b'
  proof (cases "b' \<in> set (outstanding y)")
    case True
    then show ?thesis using log by (simp add: log_inv_def)
  next
    case False
    then have "pl_Deltas p \<noteq> []" "b = Some b'" using that F pl by (auto simp: outstanding_def split: option.splits if_splits)
    then have "(b_pkgKey b', b_pkg b') = keeper_pack s' p" "b_plan b' = p" using F by auto
    then show ?thesis using keeper_pack_cong [of s' s0 p] D log by (simp add: log_inv_def)
  qed
  then show ?thesis using log D F unfolding log_inv_def by auto
qed

lemma log_inv_stored:
  assumes inv: "pipe_inv opts y" and depth: "depth_ok opts" and log: "log_inv opts s0 y"
    and c: "y_com y = Some b" and st: "commit_stored opts b True ms (y_h y) = Some h'"
  shows "log_inv opts s0 (y\<lparr>y_h := h', y_com := None, y_store := r', y_log := y_log y @ [b]\<rparr>)"
proof -
  let ?ps = "map b_plan (h_batches (y_h y) @ planner_batch (y_planner y))" and ?p = "b_plan b"
  let ?y = "y\<lparr>y_h := h', y_com := None, y_store := r', y_log := y_log y @ [b]\<rparr>"
  have infl: "inflight (y_s y) (?p # ?ps)" using pipe_invD(1) [OF inv] unfolding com_live(1) [OF inv c] .
  then have ch: "chain (s_entries (y_s y)) (s_seq (y_s y)) (s_gen (y_s y)) (?p # ?ps)" unfolding inflight_def by blast
  then have ne: "pl_Deltas ?p \<noteq> []" by simp
  have len: "length ?ps < 2 ^ 64 - 1" by (rule live_length [OF inv c]) (use depth in \<open>simp add: depth_ok_def\<close>)
  note C = set_Commit_inflight [OF infl len, of "b_at b"] and S = commit_stored_ok [OF st]
  note F = set_Commit_fields [OF ne, of "b_at b" "y_s y"]
  have s': "h_s h' = fst (set_Commit ?p (b_at b) (y_s y))" using S by simp
  have keep: "s_Def (h_s h') = s_Def s0" "s_epoch (h_s h') = s_epoch s0" "s_key (h_s h') = s_key s0"
    using F log unfolding s' log_inv_def by auto
  have "h_published h' = h_published (y_h y) @ [frame_of opts (s_epoch s0) (s_Def s0) b]"
    using S C(2) log keep unfolding frame_of_def log_inv_def by auto
  then have "diffs h' = map (frame_of opts (s_epoch s0) (s_Def s0)) (y_log y @ [b])" using log by (simp add: log_inv_def)
  moreover have "log_ok (s_entries s0) (s_seq s0) (y_log y @ [b])"
    unfolding log_ok_append using ch log by (simp add: log_inv_def)
  moreover have "s_entries (h_s h') = replay (log_deltas (y_log y @ [b])) (s_entries s0)"
    using C(3) log unfolding s' by (simp add: log_inv_def)
  moreover have "s_seq (h_s h') = s_seq s0 + of_nat (length (y_log y @ [b]))"
    using F(4) ch log unfolding s' by (simp add: log_inv_def)
  moreover have "set (outstanding ?y @ y_log ?y) \<subseteq> set (outstanding y @ y_log y)"
    using c S by (auto simp: outstanding_def)
  ultimately show ?thesis using keep log unfolding log_inv_def by auto
qed

lemma abort_fields [simp]:
  "s_Def (set_Abort s) = s_Def s" "s_epoch (set_Abort s) = s_epoch s" "s_key (set_Abort s) = s_key s"
  "s_entries (set_Abort s) = s_entries s" "s_seq (set_Abort s) = s_seq s" "s_hash (set_Abort s) = s_hash s"
  "s_exp (set_Abort s) = s_exp s"
  by (simp_all add: set_Abort_def settle_def Let_def)

lemma log_inv_step:
  assumes "pipe_step st opts y y'" and inv: "pipe_inv opts y" and depth: "depth_ok opts" and log: "log_inv opts s0 y"
  shows "log_inv opts s0 y'"
  using assms(1)
proof cases
  case (Submit ev now w sel deadline h' reply)
  with submit_queue_frame [OF Submit(4)] show ?thesis
    by (intro log_inv_same [OF log, where x = "s_exp (y_s y)"]) (auto simp: outstanding_def)
next
  case (Finish now e js c clean rest h' b)
  then show ?thesis using log_inv_finish [OF inv log] by simp
next
  case (Sweep now s' vals)
  then show ?thesis using set_Expired_frame [OF Sweep(3)]
    by (intro log_inv_same [OF log, where x = "s_exp s'"]) (auto simp: outstanding_def)
next
  case (Stored b r' ms h')
  then show ?thesis using log_inv_stored [OF inv depth log] by simp
next
  case (Failed b r' ms h')
  have "set (outstanding y') \<subseteq> set (outstanding y)"
    using Failed commit_stored_fail [OF Failed(4)] by (auto simp: outstanding_def)
  then show ?thesis using log Failed commit_stored_fail [OF Failed(4)] by (auto simp: log_inv_def)
next
  case (Snapshot order name now at h' r' f)
  with holder_Snapshot_frame [OF Snapshot(3)] show ?thesis
    by (intro log_inv_same [OF log, where x = "s_exp (y_s y)"]) (auto simp: outstanding_def)
qed (intro log_inv_same [OF log, where x = "s_exp (y_s y)"]; auto simp: outstanding_def)+

interpretation pipe_log: step_invariant_under "pipe_step st opts" "\<lambda>y. depth_ok opts \<and> pipe_inv opts y" "log_inv opts s0"
  for st opts s0
  by unfold_locales (auto intro: log_inv_step)

lemma log_inv_init: "inflight s [] \<Longrightarrow> log_inv opts s (sys_init s r)"
  by (simp add: log_inv_def sys_init_def new_holder_def outstanding_def)

lemma pipe_reach_log:
  assumes "pipe_reach st opts (sys_init s r) y" and "inflight s []" and "depth_ok opts"
  shows "log_inv opts s y"
  using pipe_log.reach_keeps_under [OF assms(1)] sys_init_inv [OF assms(2), of opts r] log_inv_init [OF assms(2), of opts r]
    assms(3) by (simp add: depth_ok_def)

end
