(* ===== verification/PipelineAns.thy ===== *)
theory PipelineAns
  imports PipelineLog
begin

text \<open>
  The answers of a holder, over all reachable states of the pipeline.
  Reply channels are created with room for one value: a second answer would block the planner or
  the committer for ever.
\<close>

section \<open>Reply channels\<close>

definition job_ids :: "job list \<Rightarrow> nat list" where
  "job_ids js = concat (map (\<lambda>j. case j_reply j of None \<Rightarrow> [] | Some rid \<Rightarrow> [rid]) js)"

lemma job_ids_simps [simp]:
  "job_ids [] = []" "job_ids (js @ js') = job_ids js @ job_ids js'"
  "job_ids (j # js) = (case j_reply j of None \<Rightarrow> [] | Some rid \<Rightarrow> [rid]) @ job_ids js"
  by (simp_all add: job_ids_def)

definition planner_jobs :: "planner \<Rightarrow> job list" where
  "planner_jobs p = (case p of PGather js n \<Rightarrow> js | PCollect now e js todo c clean rest \<Rightarrow> js @ todo | _ \<Rightarrow> [])"

text \<open>The reply channels that still wait, and those that were answered.\<close>

definition channels :: "'r sys \<Rightarrow> nat multiset" where
  "channels y =
     mset (job_ids (h_jobs (y_h y))) + mset (job_ids (planner_jobs (y_planner y)))
     + mset (job_ids (concat (map b_jobs (outstanding y)))) + mset (map fst (h_answers (y_h y)))"

definition ans_inv :: "'r sys \<Rightarrow> bool" where
  "ans_inv y \<longleftrightarrow> channels y \<subseteq># mset [0..<y_next y]"

lemma answers_of_ids: "mset (map fst (answers_of e jrs)) \<subseteq># mset (job_ids (map fst jrs))"
proof (induction jrs)
  case (Cons jr jrs)
  obtain j r where jr: "jr = (j, r)" by (cases jr) auto
  have "mset (map fst (answers_of e [jr])) \<subseteq># mset (job_ids [j])" by (auto simp: answers_of_def jr split: option.splits)
  moreover have "answers_of e (jr # jrs) = answers_of e [jr] @ answers_of e jrs" by (simp add: answers_of_def)
  moreover have "job_ids (map fst (jr # jrs)) = job_ids [j] @ job_ids (map fst jrs)" by (simp add: jr)
  ultimately show ?case using Cons.IH by (simp only: map_append mset_append subset_mset.add_mono)
qed (simp add: answers_of_def)

lemma job_ids_partition:
  "mset (job_ids (map fst (filter P jrs))) + mset (job_ids (map fst (filter (\<lambda>x. \<not> P x) jrs))) = mset (job_ids (map fst jrs))"
  by (induction jrs) auto

lemma job_ids_zip: "mset (job_ids (map fst (zip js rs))) \<subseteq># mset (job_ids js)"
proof -
  have "map fst (zip js rs) = take (length rs) js" by (metis map_fst_zip_take take_all_iff min_def nat_le_linear)
  moreover have "mset (job_ids js) = mset (job_ids (take (length rs) js)) + mset (job_ids (drop (length rs) js))"
    by (metis append_take_drop_id job_ids_simps(2) mset_append)
  ultimately show ?thesis by simp
qed

lemma answers_zip: "mset (map fst (answers_of e (zip js rs))) \<subseteq># mset (job_ids js)"
  using answers_of_ids job_ids_zip subset_mset.order_trans by blast

lemma ans_inv_mono: "ans_inv y \<Longrightarrow> channels y' \<subseteq># channels y \<Longrightarrow> y_next y' = y_next y \<Longrightarrow> ans_inv y'"
  unfolding ans_inv_def using subset_mset.order_trans by metis

lemma planner_jobs_simps [simp]:
  "planner_jobs PIdle = []" "planner_jobs (PGather js n) = js" "planner_jobs (PSweep vs) = []"
  "planner_jobs (PCollect now e js todo c clean rest) = js @ todo" "planner_jobs (PSend b rest) = []"
  "planner_jobs (taint p) = planner_jobs p" "planner_jobs (start_collect now js s rest) = js"
  by (cases p; simp add: planner_jobs_def start_collect_def)+

lemma sweep_job_reply [simp]: "j_reply (sweep_job opts vals) = None"
  by (simp add: sweep_job_def)

lemma channels_finish:
  assumes pl: "y_planner y = PCollect now e js [] c clean rest"
    and fin: "plan_finish now e js c (y_h y) = (h', b)"
  shows "channels (y\<lparr>y_h := h', y_planner := (case b of None \<Rightarrow> PSweep rest | Some b \<Rightarrow> PSend b rest)\<rparr>) \<subseteq># channels y"
proof -
  obtain s' p results where d: "decide js c (y_s y) = (s', p, results)" by (cases "decide js c (y_s y)") auto
  note F = plan_finish_split [OF fin d]
  let ?jrs = "zip js results" and ?P = "\<lambda>jr. q_code (snd jr) = []"
  show ?thesis
  proof (cases "pl_Deltas p = []")
    case True
    then show ?thesis using F pl answers_zip [of e js results] by (simp add: channels_def outstanding_def)
  next
    case False
    then obtain b' where b: "b = Some b'" "b_jobs b' = map fst (filter ?P ?jrs)"
      and ans: "h_answers h' = h_answers (y_h y) @ answers_of e (filter (\<lambda>jr. \<not> ?P jr) ?jrs)" using F by auto
    have "mset (job_ids (b_jobs b')) + mset (map fst (answers_of e (filter (\<lambda>jr. \<not> ?P jr) ?jrs)))
        \<subseteq># mset (job_ids (map fst (filter ?P ?jrs))) + mset (job_ids (map fst (filter (\<lambda>jr. \<not> ?P jr) ?jrs)))"
      unfolding b by (rule subset_mset.add_mono [OF subset_mset.order_refl answers_of_ids])
    also have "\<dots> \<subseteq># mset (job_ids js)" unfolding job_ids_partition by (rule job_ids_zip)
    finally show ?thesis using b ans F pl by (simp add: channels_def outstanding_def ac_simps)
  qed
qed

lemma channels_commit:
  assumes "h_jobs h' = h_jobs (y_h y)" and "planner_jobs (y_planner y') = planner_jobs (y_planner y)"
    and "outstanding y = b # outstanding y'" and "y_h y' = h'"
    and "h_answers h' = h_answers (y_h y) @ answers_of e (zip (b_jobs b) rs)"
  shows "channels y' \<subseteq># channels y"
  using answers_zip [of e "b_jobs b" rs] assms by (simp add: channels_def ac_simps)

lemma commit_fail_answers:
  "h_answers (commit_fail e b h) = h_answers h @ answers_of e (zip (b_jobs b) (map (\<lambda>r. r\<lparr>q_code := ErrStoreUnavailable\<rparr>) (b_results b)))"
  by (simp add: commit_fail_def answers_fold)

lemma commit_stored_fail_answers:
  assumes "commit_stored opts b False ms h = Some h'"
  shows "h_answers h' = h_answers h
    @ answers_of (s_epoch (h_s h)) (zip (b_jobs b) (map (\<lambda>r. r\<lparr>q_code := ErrStoreUnavailable\<rparr>) (b_results b)))"
  using assms by (auto simp: commit_stored_def Let_def commit_fail_answers)

lemma submit_queue_jobs:
  assumes "submit_queue opts w rid dl sel h = (h', reply)"
  shows "h_jobs h' = h_jobs h \<or> (\<exists>j. h_jobs h' = h_jobs h @ [j] \<and> j_reply j = Some rid)"
  using assms by (auto simp: submit_queue_def Let_def split: prod.splits if_splits queue_select.splits)

lemma channels_submit:
  assumes "submit_queue opts w (y_next y) dl sel (y_h y) = (h', reply)" and inv: "ans_inv y"
  shows "ans_inv (y\<lparr>y_h := h', y_next := Suc (y_next y)\<rparr>)"
proof -
  let ?y = "y\<lparr>y_h := h', y_next := Suc (y_next y)\<rparr>"
  have "channels ?y \<subseteq># channels y + {#y_next y#}"
    using submit_queue_frame [OF assms(1)] submit_queue_jobs [OF assms(1)]
    by (auto simp: channels_def outstanding_def ac_simps)
  also have "\<dots> \<subseteq># mset [0..<y_next y] + {#y_next y#}" using inv unfolding ans_inv_def by simp
  finally show ?thesis by (simp add: ans_inv_def)
qed

lemma ans_inv_step:
  assumes "pipe_step st opts y y'" and inv: "ans_inv y"
  shows "ans_inv y'"
  using assms(1)
proof cases
  case (Submit ev now w sel deadline h' reply)
  then show ?thesis using channels_submit inv by simp
next
  case (Finish now e js c clean rest h' b)
  then show ?thesis using channels_finish [OF Finish(2,3)] by (intro ans_inv_mono [OF inv]) auto
next
  case (Outdated b bs)
  have "h_answers (y_h y') = h_answers (y_h y) @ answers_of (s_epoch (y_s y))
      (zip (b_jobs b) (map (\<lambda>r. r\<lparr>q_code := ErrStoreUnavailable\<rparr>) (b_results b)))"
    using Outdated by (simp add: commit_fail_answers)
  from channels_commit [where b = b, OF _ _ _ refl this] have "channels y' \<subseteq># channels y"
    using Outdated by (simp add: outstanding_def)
  then show ?thesis using Outdated by (intro ans_inv_mono [OF inv]) auto
next
  case (Stored b r' ms h')
  obtain ch :: change where ans: "h_answers h' = h_answers (y_h y)
      @ answers_of (s_epoch (y_s y)) (zip (b_jobs b) (map (\<lambda>r. r\<lparr>q_seq := c_Seq ch\<rparr>) (b_results b)))"
    using commit_stored_ok [OF Stored(4)] by blast
  have "channels y' \<subseteq># channels y"
    by (rule channels_commit [where b = b, OF _ _ _ _ ans])
      (use Stored commit_stored_ok [OF Stored(4)] in \<open>auto simp: outstanding_def\<close>)
  then show ?thesis using Stored by (intro ans_inv_mono [OF inv]) auto
next
  case (Failed b r' ms h')
  have "channels y' \<subseteq># channels y"
    by (rule channels_commit [where b = b, OF _ _ _ _ commit_stored_fail_answers [OF Failed(4)]])
      (use Failed commit_stored_fail [OF Failed(4)] in \<open>auto simp: outstanding_def\<close>)
  then show ?thesis using Failed by (intro ans_inv_mono [OF inv]) auto
next
  case (Snapshot order name now at h' r' f)
  with holder_Snapshot_frame [OF Snapshot(3)] show ?thesis
    by (intro ans_inv_mono [OF inv]) (auto simp: channels_def outstanding_def)
qed (intro ans_inv_mono [OF inv]; simp add: channels_def outstanding_def ac_simps)+

interpretation pipe_ans: step_invariant "pipe_step st opts" ans_inv for st opts
  by unfold_locales (rule ans_inv_step)

lemma ans_inv_init: "ans_inv (sys_init s r)"
  by (simp add: ans_inv_def channels_def sys_init_def new_holder_def outstanding_def)

lemma pipe_reach_ans: "pipe_reach st opts (sys_init s r) y \<Longrightarrow> ans_inv y"
  by (rule pipe_ans.reach_keeps [OF _ ans_inv_init])

lemma submset_distinct:
  assumes "mset xs \<subseteq># mset ys" and "distinct ys"
  shows "distinct xs"
proof -
  have "count (mset xs) a = (if a \<in> set xs then 1 else 0)" for a
  proof -
    have "count (mset xs) a \<le> count (mset ys) a" using assms(1) by (rule mset_subset_eq_count)
    also have "\<dots> \<le> 1" using assms(2) by (simp add: distinct_count_atmost_1)
    finally show ?thesis using count_greater_zero_iff [of "mset xs" a] by (simp add: count_eq_zero_iff le_Suc_eq)
  qed
  then show ?thesis by (simp add: distinct_count_atmost_1)
qed

lemma ans_inv_distinct:
  assumes "ans_inv y"
  shows "distinct (map fst (h_answers (y_h y)))"
proof (rule submset_distinct)
  show "mset (map fst (h_answers (y_h y))) \<subseteq># mset [0..<y_next y]"
    using assms unfolding ans_inv_def channels_def by (metis mset_subset_eq_add_right subset_mset.order_trans)
qed simp

section \<open>Positive answers\<close>

text \<open>A positive answer carries the epoch of the set and a sequence number that is committed.\<close>

definition ack_inv :: "sset \<Rightarrow> 'r sys \<Rightarrow> bool" where
  "ack_inv s0 y \<longleftrightarrow>
     (\<forall>(rid, r)\<in>set (h_answers (y_h y)). q_code r = [] \<longrightarrow>
        q_epoch r = s_epoch s0 \<and> (\<exists>k\<le>length (y_log y). q_seq r = s_seq s0 + of_nat k))"

lemma answers_of_set:
  "(rid, r) \<in> set (answers_of e jrs) \<Longrightarrow> \<exists>j r'. (j, r') \<in> set jrs \<and> r = r'\<lparr>q_epoch := e\<rparr>"
  by (auto simp: answers_of_def split: option.splits if_splits)

lemma ack_inv_add:
  assumes "ack_inv s0 y" and "h_answers (y_h y') = h_answers (y_h y) @ answers_of (s_epoch s0) jrs"
    and "length (y_log y) \<le> length (y_log y')"
    and "\<And>j r. (j, r) \<in> set jrs \<Longrightarrow> q_code r = [] \<Longrightarrow> \<exists>k\<le>length (y_log y'). q_seq r = s_seq s0 + of_nat k"
  shows "ack_inv s0 y'"
  unfolding ack_inv_def
proof (clarify)
  fix rid r
  assume a: "(rid, r) \<in> set (h_answers (y_h y'))" "q_code r = []"
  show "q_epoch r = s_epoch s0 \<and> (\<exists>k\<le>length (y_log y'). q_seq r = s_seq s0 + of_nat k)"
  proof (cases "(rid, r) \<in> set (h_answers (y_h y))")
    case True
    then show ?thesis using assms(1,3) a(2) order_trans unfolding ack_inv_def by fastforce
  next
    case False
    then have "(rid, r) \<in> set (answers_of (s_epoch s0) jrs)" using a assms(2) by auto
    from answers_of_set [OF this] obtain j r' where "(j, r') \<in> set jrs" "r = r'\<lparr>q_epoch := s_epoch s0\<rparr>" by blast
    then show ?thesis using assms(4) [of j r'] a(2) by simp
  qed
qed

lemma ack_inv_same: "ack_inv s0 y \<Longrightarrow> h_answers (y_h y') = h_answers (y_h y) \<Longrightarrow> y_log y' = y_log y \<Longrightarrow> ack_inv s0 y'"
  by (simp add: ack_inv_def)

text \<open>A plan without deltas answers with the sequence number of the set.\<close>

lemma decide_ack:
  assumes shape: "collect_shape js c" and d: "decide js c s = (s', p, results)" and empty: "pl_Deltas p = []"
    and r: "(j, r) \<in> set (zip js results)" "q_code r = []"
  shows "q_seq r = s_seq s"
proof (cases "g_deltas c = []")
  case True
  then have "results = g_results c" using d by (simp add: decide_def)
  moreover have "\<forall>r\<in>set (g_results c). q_code r \<noteq> []" using True shape
    by (fastforce simp: collect_shape_def accepted_jobs_def job_deltas_def in_set_conv_nth set_zip filter_empty_conv)
  ultimately show ?thesis using r by (auto dest: set_zip_rightD)
next
  case False
  then have pl: "set_Plan (g_deltas c) s = (s', p)"
    and res: "results = fold (mark_result js p) (g_accepted c) (g_results c)"
    using d by (auto simp: decide_def split: prod.splits)
  have seq: "pl_Seq p = s_seq s" using pl empty by (auto simp: set_Plan_def Let_def split: if_splits)
  have inv: "(\<forall>i<length rs. q_code (rs ! i) = [] \<longrightarrow> i \<in> set todo \<or> q_seq (rs ! i) = pl_Seq p) \<Longrightarrow>
      \<forall>i<length (fold (mark_result js p) todo rs).
        q_code (fold (mark_result js p) todo rs ! i) = [] \<longrightarrow> q_seq (fold (mark_result js p) todo rs ! i) = pl_Seq p" for todo rs
  proof (induction todo arbitrary: rs)
    case (Cons i todo)
    have "\<forall>k<length (mark_result js p i rs). q_code (mark_result js p i rs ! k) = [] \<longrightarrow>
        k \<in> set todo \<or> q_seq (mark_result js p i rs ! k) = pl_Seq p"
      using Cons.prems
      by (cases "i < length rs") (auto simp: mark_result_def Let_def nth_list_update list_update_beyond split: if_splits)
    from Cons.IH [OF this] show ?case by simp
  qed simp
  have "\<forall>i<length (g_results c). q_code (g_results c ! i) = [] \<longrightarrow> i \<in> set (g_accepted c) \<or> q_seq (g_results c ! i) = pl_Seq p"
    using shape by (auto simp: collect_shape_def)
  from inv [OF this] have "\<forall>r\<in>set results. q_code r = [] \<longrightarrow> q_seq r = pl_Seq p"
    unfolding res [symmetric] by (auto simp: in_set_conv_nth)
  then show ?thesis using r seq by (auto dest: set_zip_rightD)
qed

lemma ack_inv_finish:
  assumes ack: "ack_inv s0 y" and log: "log_inv opts s0 y" and shape: "collect_shape js c"
    and f: "plan_finish now (s_epoch s0) js c (y_h y) = (h', b)"
    and y': "y_h y' = h'" "y_log y' = y_log y"
  shows "ack_inv s0 y'"
proof -
  obtain s' p results where d: "decide js c (y_s y) = (s', p, results)" by (cases "decide js c (y_s y)") auto
  note F = plan_finish_split [OF f d]
  show ?thesis
  proof (cases "pl_Deltas p = []")
    case True
    have "\<exists>k\<le>length (y_log y). q_seq r = s_seq s0 + of_nat k" if "(j, r) \<in> set (zip js results)" "q_code r = []" for j r
      using decide_ack [OF shape d True that] log by (auto simp: log_inv_def)
    then show ?thesis using True F y' by (intro ack_inv_add [OF ack, where jrs = "zip js results"]) auto
  next
    case False
    then show ?thesis using F y'
      by (intro ack_inv_add [OF ack, where jrs = "filter (\<lambda>jr. q_code (snd jr) \<noteq> []) (zip js results)"]) auto
  qed
qed

text \<open>A commit answers with the sequence number of its batch, which is the last of the log.\<close>

lemma ack_inv_stored:
  assumes ack: "ack_inv s0 y" and inv: "pipe_inv opts y" and depth: "depth_ok opts" and log: "log_inv opts s0 y"
    and log': "log_inv opts s0 y'" and c: "y_com y = Some b" and com: "commit_stored opts b True ms (y_h y) = Some h'"
    and y': "y_h y' = h'" "y_log y' = y_log y @ [b]"
  shows "ack_inv s0 y'"
proof -
  let ?ps = "map b_plan (h_batches (y_h y) @ planner_batch (y_planner y))"
  have infl: "inflight (y_s y) (b_plan b # ?ps)" using pipe_invD(1) [OF inv] unfolding com_live(1) [OF inv c] .
  have len: "length ?ps < 2 ^ 64 - 1" by (rule live_length [OF inv c]) (use depth in \<open>simp add: depth_ok_def\<close>)
  have seq: "pl_Seq (b_plan b) = s_seq s0 + of_nat (length (y_log y'))"
    using log_ok_nth [of "s_entries s0" "s_seq s0" "y_log y'" "length (y_log y)"] log' y' by (simp add: log_inv_def)
  obtain ch where ch: "snd (set_Commit (b_plan b) (b_at b) (y_s y)) = Some ch"
    and ans: "h_answers h' = h_answers (y_h y)
      @ answers_of (s_epoch (y_s y)) (zip (b_jobs b) (map (\<lambda>r. r\<lparr>q_seq := c_Seq ch\<rparr>) (b_results b)))"
    using commit_stored_ok [OF com] by blast
  have "c_Seq ch = s_seq s0 + of_nat (length (y_log y'))"
    using set_Commit_inflight(2) [OF infl len, of "b_at b"] ch seq by simp
  then have k: "\<exists>k\<le>length (y_log y'). q_seq r = s_seq s0 + of_nat k"
    if "(j, r) \<in> set (zip (b_jobs b) (map (\<lambda>r. r\<lparr>q_seq := c_Seq ch\<rparr>) (b_results b)))" for j r
    using set_zip_rightD [OF that] by auto
  show ?thesis
    by (rule ack_inv_add [OF ack, where jrs = "zip (b_jobs b) (map (\<lambda>r. r\<lparr>q_seq := c_Seq ch\<rparr>) (b_results b))"])
      (use y' ans log k in \<open>auto simp: log_inv_def\<close>)
qed

lemma ack_inv_step:
  assumes "pipe_step st opts y y'" and inv: "pipe_inv opts y" and depth: "depth_ok opts"
    and log: "log_inv opts s0 y" and coll: "\<And>now e js todo c clean rest. y_planner y = PCollect now e js todo c clean rest \<Longrightarrow> e = s_epoch s0"
    and ack: "ack_inv s0 y"
  shows "ack_inv s0 y'"
  using assms(1)
proof cases
  case (Submit ev now w sel deadline h' reply)
  with submit_queue_frame [OF Submit(4)] show ?thesis by (intro ack_inv_same [OF ack]) auto
next
  case (Finish now e js c clean rest h' b)
  have "collect_shape js c" using pipe_invD(5) [OF inv] Finish by (simp add: planner_ok_def)
  moreover have "e = s_epoch s0" using coll Finish(2) by blast
  ultimately show ?thesis using Finish by (intro ack_inv_finish [OF ack log, where h' = h']) auto
next
  case (Outdated b bs)
  then show ?thesis using log
    by (intro ack_inv_add [OF ack, where jrs = "zip (b_jobs b) (map (\<lambda>r. r\<lparr>q_code := ErrStoreUnavailable\<rparr>) (b_results b))"])
      (auto simp: commit_fail_answers log_inv_def dest!: set_zip_rightD)
next
  case (Stored b r' ms h')
  then show ?thesis using ack_inv_stored [OF ack inv depth log log_inv_step [OF assms(1) inv depth log] Stored(2,4)] by simp
next
  case (Failed b r' ms h')
  then show ?thesis using log commit_stored_fail_answers [OF Failed(4)]
    by (intro ack_inv_add [OF ack, where jrs = "zip (b_jobs b) (map (\<lambda>r. r\<lparr>q_code := ErrStoreUnavailable\<rparr>) (b_results b))"])
      (auto simp: log_inv_def dest!: set_zip_rightD)
next
  case (Snapshot order name now at h' r' f)
  with holder_Snapshot_frame [OF Snapshot(3)] show ?thesis by (intro ack_inv_same [OF ack]) auto
qed (intro ack_inv_same [OF ack]; simp)+

definition epoch_inv :: "sset \<Rightarrow> 'r sys \<Rightarrow> bool" where
  "epoch_inv s0 y \<longleftrightarrow> (case y_planner y of PCollect now e js todo c clean rest \<Rightarrow> e = s_epoch s0 | _ \<Rightarrow> True)"

lemma epoch_inv_step:
  assumes "pipe_step st opts y y'" and "log_inv opts s0 y" and "epoch_inv s0 y"
  shows "epoch_inv s0 y'"
  using assms
proof cases
  case (Failed b r' ms h')
  then show ?thesis using assms(3) by (cases "y_planner y") (auto simp: epoch_inv_def)
qed (auto simp: epoch_inv_def start_collect_def log_inv_def split: option.splits)

interpretation pipe_ack: step_invariant_under "pipe_step st opts"
    "\<lambda>y. (depth_ok opts \<and> pipe_inv opts y) \<and> log_inv opts s0 y" "\<lambda>y. epoch_inv s0 y \<and> ack_inv s0 y" for st opts s0
proof unfold_locales
  show "epoch_inv s0 y' \<and> ack_inv s0 y'"
    if "(depth_ok opts \<and> pipe_inv opts y) \<and> log_inv opts s0 y" "epoch_inv s0 y \<and> ack_inv s0 y" "pipe_step st opts y y'" for y y'
  proof
    show "epoch_inv s0 y'" using that epoch_inv_step by blast
    show "ack_inv s0 y'" using that by (intro ack_inv_step [OF that(3)]) (auto simp: epoch_inv_def)
  qed
qed

lemma pipe_reach_ack:
  assumes "pipe_reach st opts (sys_init s r) y" and "inflight s []" and "depth_ok opts"
  shows "ack_inv s y"
  using pipe_ack.reach_keeps_under [OF assms(1), of s] sys_init_inv [OF assms(2), of opts r]
    log_inv_init [OF assms(2), of opts r] assms(3)
  by (simp add: depth_ok_def epoch_inv_def ack_inv_def sys_init_def new_holder_def)

end
