(* ===== verification/PipelineView.thy ===== *)
theory PipelineView
  imports PipelineAns
begin

text \<open>
  Properties that every content of the pipeline has: the committed one and each one a plan in
  flight leads to. The contract \<open>fed_requests\<close> follows a property of the requests from \<open>Submit\<close> and the sweep to
  the planner; its extension \<open>planned_property\<close> asks that \<open>Plan\<close> with such requests keeps a property of the
  content; commits, aborts and sweeps then keep it in every reachable state. It is met by the limit of
  the set here and by the types of the values in \<open>PipelineType\<close>.
\<close>

section \<open>What reaches the planner\<close>

text \<open>
  Every request that reaches \<open>Plan\<close> was prepared by \<open>Submit\<close> for the definition of the set or is a removal of a
  sweep. A property \<open>D\<close> of both holds for all requests in the queue, gathered and collected.
\<close>

locale fed_requests =
  fixes s0 :: sset and D :: "delta \<Rightarrow> bool"
  assumes submit_fed: "submit_prepare (s_Def s0) ev now = Inr (op, recs) \<Longrightarrow> q \<in> set recs \<Longrightarrow>
      D \<lparr>dl_Op = op, dl_Rec = q, dl_hash = 0\<rparr>"
    and sweep_fed: "d \<in> set (job_deltas (sweep_job opts vals)) \<Longrightarrow> D d"
begin

definition job_fed :: "job \<Rightarrow> bool" where
  "job_fed j \<longleftrightarrow> (\<forall>d\<in>set (job_deltas j). D d)"

definition fed :: "'r sys \<Rightarrow> bool" where
  "fed y \<longleftrightarrow> (\<forall>j\<in>set (h_jobs (y_h y)). job_fed j)
     \<and> (case y_planner y of
          PGather js n \<Rightarrow> \<forall>j\<in>set js. job_fed j
        | PCollect now e js todo c clean rest \<Rightarrow> (\<forall>j\<in>set todo. job_fed j) \<and> (\<forall>d\<in>set (g_deltas c). D d)
        | _ \<Rightarrow> True)"

lemma fed_init: "fed (sys_init s r)"
  by (simp add: fed_def sys_init_def new_holder_def)

lemma fed_same: "fed y \<Longrightarrow> h_jobs (y_h y') = h_jobs (y_h y) \<Longrightarrow> y_planner y' = y_planner y \<Longrightarrow> fed y'"
  by (simp add: fed_def)

lemma fed_taint:
  "fed y \<Longrightarrow> h_jobs (y_h y') = h_jobs (y_h y) \<Longrightarrow> y_planner y' = taint (y_planner y) \<Longrightarrow> fed y'"
  by (cases "y_planner y") (auto simp: fed_def)

lemma submit_job_fed:
  assumes "submit_prepare (s_Def s0) ev now = Inr w" and "submit_queue opts w rid deadline sel h = (h', reply)"
    and "\<forall>j\<in>set (h_jobs h). job_fed j"
  shows "\<forall>j\<in>set (h_jobs h'). job_fed j"
proof -
  obtain op recs where w: "w = (op, recs)" by (cases w) auto
  have "job_fed \<lparr>j_op = op, j_recs = recs, j_reply = Some rid, j_deadline = deadline\<rparr>"
    using submit_fed [OF assms(1) [unfolded w]] by (auto simp: job_fed_def job_deltas_def)
  then show ?thesis
    using assms(2,3) by (auto simp: w submit_queue_def Let_def split: if_splits queue_select.splits)
qed

lemma collect_job_deltas: "set (g_deltas (collect_job now s j c)) \<subseteq> set (g_deltas c) \<union> set (job_deltas j)"
  by (auto simp: collect_job_def collect_refuse_def collect_accept_def Let_def)

lemma fed_step:
  assumes "pipe_step st opts y y'" and "h_Def (y_h y) = s_Def s0" and ok: "fed y"
  shows "fed y'"
  using assms(1)
proof cases
  case (Submit ev now w sel deadline h' reply)
  then show ?thesis using submit_job_fed [of ev now w] assms(2) ok by (auto simp: fed_def)
next
  case (SweepNext vals rest now)
  then show ?thesis using ok sweep_fed by (auto simp: fed_def start_collect_def collect_init_def job_fed_def)
next
  case (Collect now e js j todo c clean rest)
  then show ?thesis using ok collect_job_deltas [of now "y_s y" j c] by (auto simp: fed_def job_fed_def)
next
  case (Finish now e js c clean rest h' b)
  obtain s' p results where d: "decide js c (y_s y) = (s', p, results)" by (cases "decide js c (y_s y)") auto
  show ?thesis using Finish ok plan_finish_split [OF Finish(3) d] by (auto simp: fed_def split: option.splits)
next
  case (Outdated b bs)
  then show ?thesis by (intro fed_same [OF ok]) simp_all
next
  case (Stored b r' ms h')
  then show ?thesis using commit_stored_ok [OF Stored(4)] by (intro fed_same [OF ok]) simp_all
next
  case (Failed b r' ms h')
  then show ?thesis using commit_stored_fail [OF Failed(4)] by (intro fed_taint [OF ok]) simp_all
next
  case (Snapshot order name now at h' r' f)
  then show ?thesis using holder_Snapshot_frame [OF Snapshot(3)] by (intro fed_same [OF ok]) auto
qed (use ok in \<open>auto simp: fed_def take_job_def start_collect_def collect_init_def send_batch_def publishTick_def Let_def split: if_splits\<close>)

end

section \<open>Properties of all planned contents\<close>

locale planned_property = fed_requests s0 D
  for s0 :: sset and D :: "delta \<Rightarrow> bool" +
  fixes P :: "entries \<Rightarrow> bool"
  assumes plan_keeps: "inflight s ps \<Longrightarrow> s_Def s = s_Def s0 \<Longrightarrow> s_key s = s_key s0 \<Longrightarrow>
      P (final ps (s_entries s)) \<Longrightarrow> \<forall>d\<in>set ds. D d \<Longrightarrow> set_Plan ds s = (s', p) \<Longrightarrow> pl_Deltas p \<noteq> [] \<Longrightarrow>
      P (final (ps @ [p]) (s_entries s))"
begin

definition prefix_inv :: "'r sys \<Rightarrow> bool" where
  "prefix_inv y \<longleftrightarrow> (\<forall>k\<le>length (live_plans y). P (final (take k (live_plans y)) (s_entries (y_s y))))"

lemma prefix_inv_view: "prefix_inv y \<Longrightarrow> P (s_entries (y_s y)) \<and> P (y_view y)"
  unfolding prefix_inv_def y_view_def by (metis final_simps(1) le_refl take_0 take_all zero_le)

lemma prefix_inv_same:
  "prefix_inv y \<Longrightarrow> live_plans y' = live_plans y \<Longrightarrow> s_entries (y_s y') = s_entries (y_s y) \<Longrightarrow> prefix_inv y'"
  by (simp add: prefix_inv_def)

lemma prefix_inv_frame:
  "prefix_inv y \<Longrightarrow> outstanding y' = outstanding y \<Longrightarrow> y_s y' = (y_s y)\<lparr>s_exp := x\<rparr> \<Longrightarrow> prefix_inv y'"
  by (rule prefix_inv_same) (simp_all add: live_plans_def)

lemma prefix_inv_finish:
  assumes inv: "pipe_inv opts y" and log: "log_inv opts s0 y" and fed: "fed y" and ok: "prefix_inv y"
    and pl: "y_planner y = PCollect now e js [] c clean rest"
    and fin: "plan_finish now e js c (y_h y) = (h', b)"
  shows "prefix_inv (y\<lparr>y_h := h', y_planner := (case b of None \<Rightarrow> PSweep rest | Some b \<Rightarrow> PSend b rest)\<rparr>)"
proof -
  let ?y = "y\<lparr>y_h := h', y_planner := (case b of None \<Rightarrow> PSweep rest | Some b \<Rightarrow> PSend b rest)\<rparr>"
  obtain s' p results where d: "decide js c (y_s y) = (s', p, results)" by (cases "decide js c (y_s y)") auto
  note infl = pipe_invD(1) [OF inv]
  note D = decide_inflight [OF infl d] and F = plan_finish_split [OF fin d]
  show ?thesis
  proof (cases "pl_Deltas p = []")
    case True
    then show ?thesis using D F pl
      by (intro prefix_inv_frame [OF ok, where x = "s_exp (y_s y)"]) (auto simp: outstanding_def)
  next
    case False
    then obtain b' where b: "b = Some b'" "b_plan b' = p" using F by auto
    have o: "outstanding ?y = outstanding y @ [b']" using F pl b by (simp add: outstanding_def)
    have g: "s_gen (h_s h') = s_gen (y_s y)" "pl_Gen p = s_gen (y_s y)" "h_s h' = s'" using D F False by auto
    have lp: "live_plans ?y = live_plans y @ [p]" using g b o by (simp add: live_plans_def)
    have plan: "set_Plan (g_deltas c) (y_s y) = (s', p)" using d False by (auto simp: decide_def zero_plan_def split: prod.splits if_splits)
    have "P (final (live_plans y) (s_entries (y_s y)))" using prefix_inv_view [OF ok] by (simp add: y_view_def)
    then have size: "P (final (live_plans y @ [p]) (s_entries (y_s y)))"
      using plan_keeps [OF infl _ _ _ _ plan False] log fed pl by (simp add: log_inv_def fed_def del: final_simps)
    have "P (final (take k (live_plans y @ [p])) (s_entries (y_s y)))" if "k \<le> length (live_plans y @ [p])" for k
    proof (cases "k \<le> length (live_plans y)")
      case True
      then show ?thesis using ok unfolding prefix_inv_def by simp
    next
      case False
      then have "take k (live_plans y @ [p]) = live_plans y @ [p]" using that by simp
      then show ?thesis using size by (simp only:)
    qed
    then show ?thesis unfolding prefix_inv_def lp using F D by simp
  qed
qed

lemma prefix_inv_stored:
  assumes inv: "pipe_inv opts y" and depth: "depth_ok opts" and ok: "prefix_inv y" and c: "y_com y = Some b"
    and st: "commit_stored opts b True ms (y_h y) = Some h'"
  shows "prefix_inv (y\<lparr>y_h := h', y_com := None, y_store := r', y_log := log\<rparr>)"
proof -
  let ?ps = "map b_plan (h_batches (y_h y) @ planner_batch (y_planner y))" and ?p = "b_plan b"
  let ?y = "y\<lparr>y_h := h', y_com := None, y_store := r', y_log := log\<rparr>"
  note L = com_live [OF inv c]
  have infl: "inflight (y_s y) (?p # ?ps)" using pipe_invD(1) [OF inv] unfolding L(1) .
  have len: "length ?ps < 2 ^ 64 - 1" by (rule live_length [OF inv c]) (use depth in \<open>simp add: depth_ok_def\<close>)
  have s': "h_s h' = fst (set_Commit ?p (b_at b) (y_s y))" "h_batches h' = h_batches (y_h y)"
    using commit_stored_ok [OF st] by auto
  have ent: "s_entries (h_s h') = replay (pl_Deltas ?p) (s_entries (y_s y))"
    unfolding s' by (rule set_Commit_inflight(3) [OF infl len])
  have "pl_Deltas ?p \<noteq> []" using infl unfolding inflight_def chain.simps by blast
  then have g: "s_gen (y_s ?y) = s_gen (y_s y)" using s' by (simp add: set_Commit_fields)
  have o: "map b_plan (outstanding ?y) = ?ps" using s' by (simp add: outstanding_def)
  have lp: "live_plans ?y = ?ps" unfolding live_plans_def o g by (rule filter_True [OF L(2)])
  show ?thesis unfolding prefix_inv_def lp
  proof (intro allI impI)
    fix k assume "k \<le> length ?ps"
    then have "P (final (take (Suc k) (?p # ?ps)) (s_entries (y_s y)))"
      using ok unfolding prefix_inv_def L(1) by (metis Suc_le_mono length_Cons)
    then show "P (final (take k ?ps) (s_entries (y_s ?y)))" using ent by simp
  qed
qed

lemma prefix_inv_step:
  assumes "pipe_step st opts y y'" and inv: "pipe_inv opts y" and depth: "depth_ok opts"
    and log: "log_inv opts s0 y" and fed: "fed y" and ok: "prefix_inv y"
  shows "prefix_inv y'"
  using assms(1)
proof cases
  case (Submit ev now w sel deadline h' reply)
  with submit_queue_frame [OF Submit(4)] show ?thesis
    by (intro prefix_inv_frame [OF ok, where x = "s_exp (y_s y)"]) (auto simp: outstanding_def)
next
  case (Sweep now s' vals)
  then show ?thesis using set_Expired_frame [OF Sweep(3)]
    by (intro prefix_inv_frame [OF ok, where x = "s_exp s'"]) (auto simp: outstanding_def)
next
  case (Finish now e js c clean rest h' b)
  then show ?thesis using prefix_inv_finish [OF inv log fed ok] by simp
next
  case (Outdated b bs)
  then have "outstanding y = b # outstanding y'" by (simp add: outstanding_def)
  then have "live_plans y' = live_plans y" using Outdated by (simp add: live_plans_def set_Gen_def)
  then show ?thesis using Outdated by (intro prefix_inv_same [OF ok]) auto
next
  case (Stored b r' ms h')
  then show ?thesis using prefix_inv_stored [OF inv depth ok] by simp
next
  case (Failed b r' ms h')
  have "pipe_inv opts y'" by (rule pipe_step_inv [OF assms(1) inv]) (use depth in \<open>simp add: depth_ok_def\<close>)
  have e: "s_entries (y_s y') = s_entries (y_s y)" using Failed commit_stored_fail [OF Failed(4)] by simp
  have g: "s_gen (y_s y') = s_gen (y_s y) + 1"
    using Failed commit_stored_fail [OF Failed(4)] by (simp add: set_Abort_def settle_def Let_def)
  have o: "map b_plan (outstanding y') = map b_plan (h_batches (y_h y) @ planner_batch (y_planner y))"
    using Failed commit_stored_fail [OF Failed(4)] by (simp add: outstanding_def)
  have "\<forall>p\<in>set (map b_plan (h_batches (y_h y) @ planner_batch (y_planner y))). pl_Gen p \<noteq> s_gen (y_s y) + 1"
    using com_live(2) [OF inv Failed(2)] by (metis add_cancel_right_right one_neq_zero)
  then have lp: "live_plans y' = []" unfolding live_plans_def o g by (rule filter_False)
  show ?thesis using ok unfolding prefix_inv_def lp e by (metis le_zero_eq list.size(3) take_0 zero_le)
next
  case (Snapshot order name now at h' r' f)
  with holder_Snapshot_frame [OF Snapshot(3)] show ?thesis
    by (intro prefix_inv_frame [OF ok, where x = "s_exp (y_s y)"]) (auto simp: outstanding_def)
qed (intro prefix_inv_frame [OF ok, where x = "s_exp (y_s y)"]; auto simp: outstanding_def)+

lemma pipe_reach_all:
  assumes "pipe_reach st opts (sys_init s0 r) y" and "inflight s0 []" and "depth_ok opts" and "P (s_entries s0)"
  shows "(depth_ok opts \<and> pipe_inv opts y) \<and> log_inv opts s0 y \<and> fed y \<and> prefix_inv y"
  using assms(1)
proof (induction rule: rtranclp_induct)
  case base
  have "prefix_inv (sys_init s0 r)" using assms(4)
    by (simp add: prefix_inv_def live_plans_def outstanding_def sys_init_def new_holder_def)
  then show ?case
    using assms(3) sys_init_inv [OF assms(2), of opts r] log_inv_init [OF assms(2), of opts r] fed_init
    by (simp add: depth_ok_def)
next
  case (step y z)
  have "h_Def (y_h y) = s_Def s0" using step.IH by (simp add: log_inv_def)
  then show ?case using step pipe.step_keeps log_inv_step prefix_inv_step fed_step by blast
qed

lemma pipe_reach_property:
  assumes "pipe_reach st opts (sys_init s0 r) y" and "inflight s0 []" and "depth_ok opts" and "P (s_entries s0)"
  shows "P (s_entries (y_s y)) \<and> P (y_view y)"
  using pipe_reach_all [OF assms] prefix_inv_view by blast

end

text \<open>When such plans consist of deltas with a property \<open>E\<close>, so do all batches, on their way or committed.\<close>

locale planned_deltas = planned_property s0 D P
  for s0 :: sset and D :: "delta \<Rightarrow> bool" and P :: "entries \<Rightarrow> bool" +
  fixes E :: "delta \<Rightarrow> bool"
  assumes plan_deltas: "inflight s ps \<Longrightarrow> s_Def s = s_Def s0 \<Longrightarrow> s_key s = s_key s0 \<Longrightarrow>
      P (final ps (s_entries s)) \<Longrightarrow> \<forall>d\<in>set ds. D d \<Longrightarrow> set_Plan ds s = (s', p) \<Longrightarrow> d \<in> set (pl_Deltas p) \<Longrightarrow> E d"
begin

definition batches_ok :: "'r sys \<Rightarrow> bool" where
  "batches_ok y \<longleftrightarrow> (\<forall>b\<in>set (outstanding y) \<union> set (y_log y). \<forall>d\<in>set (pl_Deltas (b_plan b)). E d)"

lemma batches_ok_mono:
  "batches_ok y \<Longrightarrow> set (outstanding y') \<union> set (y_log y') \<subseteq> set (outstanding y) \<union> set (y_log y) \<Longrightarrow> batches_ok y'"
  unfolding batches_ok_def by blast

lemma batches_ok_finish:
  assumes inv: "pipe_inv opts y" and log: "log_inv opts s0 y" and fed: "fed y" and ok: "prefix_inv y" and bs: "batches_ok y"
    and pl: "y_planner y = PCollect now e js [] c clean rest"
    and fin: "plan_finish now e js c (y_h y) = (h', b)"
  shows "batches_ok (y\<lparr>y_h := h', y_planner := (case b of None \<Rightarrow> PSweep rest | Some b \<Rightarrow> PSend b rest)\<rparr>)"
proof -
  obtain s' p results where d: "decide js c (y_s y) = (s', p, results)" by (cases "decide js c (y_s y)") auto
  note F = plan_finish_split [OF fin d]
  show ?thesis
  proof (cases "pl_Deltas p = []")
    case True
    then show ?thesis using F pl by (intro batches_ok_mono [OF bs]) (auto simp: outstanding_def)
  next
    case False
    then obtain b' where b: "b = Some b'" "b_plan b' = p" using F by auto
    have plan: "set_Plan (g_deltas c) (y_s y) = (s', p)"
      using d False by (auto simp: decide_def zero_plan_def split: prod.splits if_splits)
    have "P (final (live_plans y) (s_entries (y_s y)))" using prefix_inv_view [OF ok] by (simp add: y_view_def)
    then have "\<forall>d\<in>set (pl_Deltas p). E d"
      using plan_deltas [OF pipe_invD(1) [OF inv] _ _ _ _ plan] log fed pl by (simp add: log_inv_def fed_def)
    then show ?thesis using bs b F pl by (auto simp: batches_ok_def outstanding_def)
  qed
qed

lemma batches_ok_step:
  assumes "pipe_step st opts y y'" and inv: "pipe_inv opts y" and log: "log_inv opts s0 y" and fed: "fed y"
    and ok: "prefix_inv y" and bs: "batches_ok y"
  shows "batches_ok y'"
  using assms(1)
proof cases
  case (Submit ev now w sel deadline h' reply)
  with submit_queue_frame [OF Submit(4)] show ?thesis by (intro batches_ok_mono [OF bs]) (auto simp: outstanding_def)
next
  case (Finish now e js c clean rest h' b)
  then show ?thesis using batches_ok_finish [OF inv log fed ok bs] by simp
next
  case (Stored b r' ms h')
  then show ?thesis using commit_stored_ok [OF Stored(4)] by (intro batches_ok_mono [OF bs]) (auto simp: outstanding_def)
next
  case (Failed b r' ms h')
  then show ?thesis using commit_stored_fail [OF Failed(4)] by (intro batches_ok_mono [OF bs]) (auto simp: outstanding_def)
next
  case (Snapshot order name now at h' r' f)
  with holder_Snapshot_frame [OF Snapshot(3)] show ?thesis by (intro batches_ok_mono [OF bs]) (auto simp: outstanding_def)
qed (intro batches_ok_mono [OF bs]; auto simp: outstanding_def send_batch_def take_job_def publishTick_def Let_def)+

lemma pipe_reach_deltas:
  assumes "pipe_reach st opts (sys_init s0 r) y" and "inflight s0 []" and "depth_ok opts" and "P (s_entries s0)"
  shows "\<forall>d\<in>set (log_deltas (y_log y)). E d"
proof -
  have "batches_ok y" using assms(1)
  proof (induction rule: rtranclp_induct)
    case base
    show ?case by (simp add: batches_ok_def outstanding_def sys_init_def new_holder_def)
  next
    case (step y z)
    then show ?case using pipe_reach_all [OF step.hyps(1) assms(2-4)] batches_ok_step by blast
  qed
  then show ?thesis by (auto simp: batches_ok_def log_deltas_def)
qed

end

section \<open>The limit\<close>

definition within_limit :: "sset \<Rightarrow> entries \<Rightarrow> bool" where
  "within_limit s0 m \<longleftrightarrow> (0 < d_Limit (s_Def s0) \<longrightarrow> map_len m \<le> d_Limit (s_Def s0))"

lemma plan_within_limit:
  assumes "inflight s ps" and "s_Def s = s_Def s0" and "within_limit s0 (final ps (s_entries s))"
    and "set_Plan ds s = (s', p)" and "pl_Deltas p \<noteq> []"
  shows "within_limit s0 (final (ps @ [p]) (s_entries s))"
proof -
  have "inflight s' (ps @ [p])" using set_Plan_inflight [OF assms(1,4)] assms(5) by simp
  moreover have "s_entries s' = s_entries s" using assms(4) by (auto simp: set_Plan_def Let_def split: if_splits)
  ultimately have "s_pendSize s' = map_len (final (ps @ [p]) (s_entries s))" unfolding inflight_def by metis
  moreover have "s_pendSize s = map_len (final ps (s_entries s))" using assms(1) by (simp add: inflight_def)
  ultimately show ?thesis
    using set_Plan_limit [of s ds] assms(2-4) unfolding within_limit_def by (metis fst_conv)
qed

interpretation limit: planned_property s0 "\<lambda>_. True" "within_limit s0" for s0
  by unfold_locales (auto intro: plan_within_limit simp del: final_simps)

section \<open>Hashes of the entries\<close>

definition hash_map :: "sset \<Rightarrow> entries \<Rightarrow> bool" where
  "hash_map s0 m \<longleftrightarrow>
     (\<forall>v e. fmlookup m v = Some e \<longrightarrow> e_hash e = HashValue (s_key s0) (d_Type (s_Def s0)) v)"

end
