(* ===== verification/RedisProps.thy ===== *)
theory RedisProps
  imports PipelineView
begin

text \<open>
  What the store of \<open>src/internal/state/state.go\<close> keeps: the contract \<open>durable_store\<close> that the keeper
  relies on, the proof that the Redis store meets it for a Redis that behaves as documented, and
  its client: as long as no commit failed, the store holds the committed content of the set and the
  meta that goes with it.
\<close>

section \<open>Meta\<close>

lemma fmupds_simps [simp]:
  "fmupds [] m = m" "fmupds ((k, v) # kvs) m = fmupds kvs (fmupd k v m)"
  by (simp_all add: fmupds_def)

definition meta_ok :: "meta \<Rightarrow> bool" where
  "meta_ok m \<longleftrightarrow> length (m_Key m) = 16 \<and> int64_range (m_Type m)"

lemma parseMeta_metaFields:
  assumes "meta_ok m"
  shows "parseMeta (fmupds (metaFields m) f) = Some m"
  using assms by (simp add: parseMeta_def metaFields_def field_def ParseInt10_FormatInt meta_ok_def)

lemma parseMeta_commit:
  assumes "parseMeta f = Some m"
  shows "parseMeta (fmupds [(''seq'', FormatUint seq), (''hash'', Hex hash)] f) = Some (m\<lparr>m_Seq := seq, m_Hash := hash\<rparr>)"
  using assms by (auto simp: parseMeta_def field_def split: option.splits if_splits)

section \<open>Scores and reasons\<close>

lemma float64_small:
  assumes "\<bar>x\<bar> < 2 ^ 53"
  shows "float64_of_int x = x"
proof -
  have "f64_shift \<bar>x\<bar> = 0" using assms by (simp add: f64_shift.simps [of "\<bar>x\<bar>"])
  then show ?thesis by (simp add: float64_of_int_def Let_def sgn_mult_abs)
qed

lemma int64_of_float_small: "\<bar>x\<bar> < 2 ^ 53 \<Longrightarrow> int64_of_float x = x"
  by (auto simp: int64_of_float_def int64_range_def)

text \<open>The content two Redis values stand for: the sorted set of the values and the hash of their reasons.\<close>

definition stored_content :: "(string, int) fmap \<Rightarrow> (string, string) fmap \<Rightarrow> content" where
  "stored_content z w =
     fmmap_keys (\<lambda>v score. let r = load_record w (v, score) in (r_Exp r, r_Origin r, r_Reason r)) z"

lemma stored_content_empty [simp]: "stored_content fmempty w = fmempty"
  by (rule fmap_ext) (simp add: stored_content_def)

text \<open>A record that survives storage: an exact score and an origin without the separator.\<close>

definition storable :: "delta \<Rightarrow> bool" where
  "storable d \<longleftrightarrow> (dl_Op d = OpAdd \<or> dl_Op d = OpRemove) \<and>
     (dl_Op d = OpAdd \<longrightarrow> \<bar>r_Exp (dl_Rec d)\<bar> < 2 ^ 53 \<and> whySep \<notin> set (r_Origin (dl_Rec d)))"

lemma stored_content_add:
  assumes "storable d" and "dl_Op d = OpAdd"
  shows "stored_content (fmupd (r_Value (dl_Rec d)) (float64_of_int (r_Exp (dl_Rec d))) z)
      (fmupd (r_Value (dl_Rec d)) (r_Origin (dl_Rec d) @ whySep # r_Reason (dl_Rec d)) w)
    = request d (stored_content z w)"
proof (rule fmap_ext)
  fix v
  show "fmlookup (stored_content (fmupd (r_Value (dl_Rec d)) (float64_of_int (r_Exp (dl_Rec d))) z)
      (fmupd (r_Value (dl_Rec d)) (r_Origin (dl_Rec d) @ whySep # r_Reason (dl_Rec d)) w)) v
    = fmlookup (request d (stored_content z w)) v"
    using assms
    by (auto simp: stored_content_def request_def load_record_def Let_def storable_def float64_small
        int64_of_float_small Cut_append split: prod.splits option.splits)
qed

lemma stored_content_remove:
  assumes "dl_Op d = OpRemove"
  shows "stored_content (fmdrop (r_Value (dl_Rec d)) z) (fmdrop (r_Value (dl_Rec d)) w) = request d (stored_content z w)"
  by (rule fmap_ext) (use assms in \<open>auto simp: stored_content_def request_def load_record_def Let_def split: prod.splits option.splits\<close>)

lemma run_add_content:
  assumes "\<forall>d\<in>set run. storable d \<and> dl_Op d = OpAdd"
  shows "stored_content (fmupds (map (\<lambda>d. (r_Value (dl_Rec d), float64_of_int (r_Exp (dl_Rec d)))) run) z)
      (fmupds (map (\<lambda>d. (r_Value (dl_Rec d), r_Origin (dl_Rec d) @ whySep # r_Reason (dl_Rec d))) run) w)
    = fold request run (stored_content z w)"
  using assms by (induction run arbitrary: z w) (simp_all add: stored_content_add)

lemma run_remove_content:
  assumes "\<forall>d\<in>set run. dl_Op d = OpRemove"
  shows "stored_content (fold fmdrop (map (\<lambda>d. r_Value (dl_Rec d)) run) z) (fold fmdrop (map (\<lambda>d. r_Value (dl_Rec d)) run) w)
    = fold request run (stored_content z w)"
  using assms by (induction run arbitrary: z w) (simp_all add: stored_content_remove)

section \<open>Commands\<close>

lemma keys_distinct [simp]:
  "MetaKey n \<noteq> WhyKey n" "WhyKey n \<noteq> MetaKey n" "DiffKey n' q \<noteq> SetKey n" "DiffKey n' q \<noteq> WhyKey n" "DiffKey n' q \<noteq> MetaKey n"
  "SetKey n \<noteq> DiffKey n' q" "WhyKey n \<noteq> DiffKey n' q" "MetaKey n \<noteq> DiffKey n' q"
  "SnapKey n' e q \<noteq> SetKey n" "SnapKey n' e q \<noteq> WhyKey n" "SnapKey n' e q \<noteq> MetaKey n"
  "SetKey n \<noteq> SnapKey n' e q" "WhyKey n \<noteq> SnapKey n' e q" "MetaKey n \<noteq> SnapKey n' e q"
  "SetKey n \<noteq> MetaKey n" "MetaKey n \<noteq> SetKey n" "WhyKey n \<noteq> SetKey n" "SetKey n \<noteq> WhyKey n"
  by (simp_all add: MetaKey_def WhyKey_def DiffKey_def SetKey_def SnapKey_def)

definition db_content :: "redis_db \<Rightarrow> string \<Rightarrow> content" where
  "db_content db name = stored_content (db_zset db (SetKey name)) (db_hash db (WhyKey name))"

lemma run_cmds_effect:
  assumes "run \<noteq> []" and "\<forall>d\<in>set run. storable d \<and> dl_Op d = dl_Op (hd run)"
  shows "db_content (fold cmd_effect (run_cmds name run) db) name = fold request run (db_content db name)
    \<and> db_hash (fold cmd_effect (run_cmds name run) db) (MetaKey name) = db_hash db (MetaKey name)"
proof (cases "dl_Op (hd run) = OpAdd")
  case True
  then have "\<forall>d\<in>set run. storable d \<and> dl_Op d = OpAdd" using assms(2) by metis
  from run_add_content [OF this] show ?thesis using True by (simp add: run_cmds_def db_content_def)
next
  case False
  then have "\<forall>d\<in>set run. dl_Op d = OpRemove" using assms by (metis storable_def hd_in_set)
  from run_remove_content [OF this] show ?thesis using False by (simp add: run_cmds_def db_content_def)
qed

lemma commit_runs_effect:
  assumes "\<forall>d\<in>set ds. storable d"
  shows "db_content (fold cmd_effect (commit_runs name ds) db) name = fold request ds (db_content db name)
    \<and> db_hash (fold cmd_effect (commit_runs name ds) db) (MetaKey name) = db_hash db (MetaKey name)"
  using assms
proof (induction name ds arbitrary: db rule: commit_runs.induct)
  case (2 name d ds)
  let ?P = "\<lambda>e. dl_Op e = dl_Op d"
  let ?run = "d # takeWhile ?P ds" and ?rest = "dropWhile ?P ds"
  have run: "?run \<noteq> []" "\<forall>e\<in>set ?run. storable e \<and> dl_Op e = dl_Op (hd ?run)"
    using "2.prems" by (auto dest: set_takeWhileD)
  have rest: "\<forall>d\<in>set ?rest. storable d" using "2.prems" by (auto dest: set_dropWhileD)
  have all: "?run @ ?rest = d # ds" by simp
  then have "fold request (d # ds) c = fold request ?rest (fold request ?run c)" for c
    by (metis fold_append comp_apply)
  then show ?case using run_cmds_effect [OF run, of name db] "2.IH" [OF rest, of "fold cmd_effect (run_cmds name ?run) db"]
    by (simp del: fold_Cons)
qed simp

section \<open>The contract of the store\<close>

text \<open>\<open>holds r name m c\<close>: the store keeps the meta \<open>m\<close> and the content \<open>c\<close> under \<open>name\<close>.\<close>

locale durable_store =
  fixes st :: "'r store"
    and holds :: "'r \<Rightarrow> string \<Rightarrow> meta \<Rightarrow> content \<Rightarrow> bool"
  assumes commit_holds: "holds r name m c \<Longrightarrow> \<forall>d\<in>set ds. storable d \<Longrightarrow>
      st_Commit st name ds seq hash (DiffKey name' q) pkg ttl r = (r', True) \<Longrightarrow>
      holds r' name (m\<lparr>m_Seq := seq, m_Hash := hash\<rparr>) (fold request ds c)"
    and put_holds: "holds r name m c \<Longrightarrow> st_Put st (SnapKey name' e q) data ttl r = (r', ok) \<Longrightarrow> holds r' name m c"
    and reset_holds: "holds r name m c \<Longrightarrow> meta_ok m' \<Longrightarrow> st_Reset st name m' keep r = (r', True) \<Longrightarrow>
      holds r' name m' (if keep then c else fmempty)"
    and load_holds: "holds r name m c \<Longrightarrow> st_Load st name r = Some out \<Longrightarrow>
      \<exists>recs. out = (Some m, recs, False) \<and> distinct (map r_Value recs) \<and> (\<forall>q\<in>set recs. r_Prefix q = zero_prefix)
        \<and> fmap_of_list (map (\<lambda>q. (r_Value q, (r_Exp q, r_Origin q, r_Reason q))) recs) = c"

definition redis_holds :: "'r redis_api \<Rightarrow> ('r \<Rightarrow> redis_db) \<Rightarrow> 'r \<Rightarrow> string \<Rightarrow> meta \<Rightarrow> content \<Rightarrow> bool" where
  "redis_holds api view r name m c \<longleftrightarrow>
     redis_ok api view \<and> parseMeta (db_hash (view r) (MetaKey name)) = Some m \<and> db_content (view r) name = c"

lemma redis_tx:
  "redis_ok api view \<Longrightarrow> api_Tx api cmds r = (r', True) \<Longrightarrow> view r' = fold cmd_effect cmds (view r)"
  by (simp add: redis_ok_def)

lemma redis_single:
  assumes "redis_ok api view" and "api_Tx api [c] r = (r', ok)"
  shows "view r' = view r \<or> view r' = cmd_effect c (view r)"
proof (cases ok)
  case True
  then show ?thesis using redis_tx [OF assms(1), of "[c]" r r'] assms(2) by simp
next
  case False
  then have "api_Tx api [c] r = (r', False)" using assms(2) by simp
  then show ?thesis using assms(1) unfolding redis_ok_def by blast
qed

lemma redis_commit_holds:
  assumes "redis_holds api view r name m c" and "\<forall>d\<in>set ds. storable d"
    and "state_Commit api name ds seq hash (DiffKey name' q) pkg ttl r = (r', True)"
  shows "redis_holds api view r' name (m\<lparr>m_Seq := seq, m_Hash := hash\<rparr>) (fold request ds c)"
proof -
  let ?db = "fold cmd_effect (commit_runs name ds) (view r)"
  have v: "view r' = fold cmd_effect (commit_cmds name ds seq hash (DiffKey name' q) pkg ttl) (view r)"
    by (rule redis_tx) (use assms in \<open>auto simp: redis_holds_def state_Commit_def\<close>)
  have runs: "db_content ?db name = fold request ds c" "db_hash ?db (MetaKey name) = db_hash (view r) (MetaKey name)"
    using commit_runs_effect [OF assms(2), of name "view r"] assms(1) by (auto simp: redis_holds_def)
  have "parseMeta (db_hash (view r') (MetaKey name)) = Some (m\<lparr>m_Seq := seq, m_Hash := hash\<rparr>)"
    using parseMeta_commit [of "db_hash (view r) (MetaKey name)" m seq hash] assms(1) runs(2)
    by (simp add: v commit_cmds_def redis_holds_def)
  moreover have "db_content (view r') name = fold request ds c"
    using runs(1) by (simp add: v commit_cmds_def db_content_def)
  ultimately show ?thesis using assms(1) by (simp add: redis_holds_def)
qed

lemma load_record_content:
  assumes "distinct (map fst zs)" and "map_of zs = fmlookup z"
  shows "fmap_of_list (map (\<lambda>q. (r_Value q, (r_Exp q, r_Origin q, r_Reason q))) (map (load_record w) zs)) = stored_content z w"
proof (rule fmap_ext)
  fix v
  have "map_of (map (\<lambda>x. (r_Value (load_record w x), r_Exp (load_record w x), r_Origin (load_record w x), r_Reason (load_record w x))) zs) v
      = map_option (\<lambda>score. let r = load_record w (v, score) in (r_Exp r, r_Origin r, r_Reason r)) (map_of zs v)"
    by (induction zs) (auto simp: load_record_def Let_def split: prod.splits)
  then show "fmlookup (fmap_of_list (map (\<lambda>q. (r_Value q, (r_Exp q, r_Origin q, r_Reason q))) (map (load_record w) zs))) v
      = fmlookup (stored_content z w) v"
    using assms(2) by (simp add: stored_content_def fmlookup_of_list comp_def)
qed

lemma load_record_value [simp]: "r_Value (load_record w x) = fst x" "r_Prefix (load_record w x) = zero_prefix"
  by (simp_all add: load_record_def Let_def split: prod.splits)

lemma redis_load_holds:
  assumes "redis_holds api view r name m c" and "state_Load api name r = Some out"
  shows "\<exists>recs. out = (Some m, recs, False) \<and> distinct (map r_Value recs) \<and> (\<forall>q\<in>set recs. r_Prefix q = zero_prefix)
    \<and> fmap_of_list (map (\<lambda>q. (r_Value q, (r_Exp q, r_Origin q, r_Reason q))) recs) = c"
proof -
  have ok: "redis_ok api view" and pm: "parseMeta (db_hash (view r) (MetaKey name)) = Some m"
    and c: "db_content (view r) name = c" using assms(1) by (auto simp: redis_holds_def)
  have ne: "db_hash (view r) (MetaKey name) \<noteq> fmempty"
    using pm by (auto simp: parseMeta_def field_def ParseInt10_def split: option.splits)
  obtain flds where f: "api_HGetAll api (MetaKey name) r = Some flds" using assms(2) by (auto simp: state_Load_def split: option.splits)
  have fl: "flds = db_hash (view r) (MetaKey name)" using ok f by (simp add: redis_ok_def)
  obtain zs whys where z: "api_ZRange api (SetKey name) r = Some zs" "api_HGetAll api (WhyKey name) r = Some whys"
    and out: "out = (Some m, map (load_record whys) zs, False)"
    using assms(2) f ne pm unfolding fl by (auto simp: state_Load_def Let_def split: option.splits)
  have d: "distinct (map fst zs)" "map_of zs = fmlookup (db_zset (view r) (SetKey name))"
    and w: "whys = db_hash (view r) (WhyKey name)" using ok z by (simp_all add: redis_ok_def)
  show ?thesis
    using out d(1) load_record_content [OF d, of whys] c w
    by (intro exI [of _ "map (load_record whys) zs"]) (auto simp: db_content_def comp_def)
qed

interpretation redis: durable_store "redis_store api" "redis_holds api view" for api view
proof unfold_locales
  show "redis_holds api view r' name (m\<lparr>m_Seq := seq, m_Hash := hash\<rparr>) (fold request ds c)"
    if "redis_holds api view r name m c" "\<forall>d\<in>set ds. storable d"
      "st_Commit (redis_store api) name ds seq hash (DiffKey name' q) pkg ttl r = (r', True)"
    for r name m c ds seq hash name' q pkg ttl r'
    using redis_commit_holds [OF that(1,2)] that(3) by (simp add: redis_store_def)
  show "redis_holds api view r' name m c"
    if "redis_holds api view r name m c" "st_Put (redis_store api) (SnapKey name' e q) data ttl r = (r', ok)"
    for r name m c name' e q data ttl r' ok
  proof -
    have "view r' = view r \<or> view r' = cmd_effect (SetEx (SnapKey name' e q) data ttl) (view r)"
      by (rule redis_single) (use that in \<open>auto simp: redis_holds_def redis_store_def state_Put_def\<close>)
    then show ?thesis using that(1) by (auto simp: redis_holds_def db_content_def)
  qed
  show "redis_holds api view r' name m' (if keep then c else fmempty)"
    if "redis_holds api view r name m c" "meta_ok m'" "st_Reset (redis_store api) name m' keep r = (r', True)"
    for r name m c m' keep r'
  proof -
    have "view r' = fold cmd_effect (reset_cmds name m' keep) (view r)"
      by (rule redis_tx) (use that in \<open>auto simp: redis_holds_def redis_store_def state_Reset_def\<close>)
    then show ?thesis
      using that(1) parseMeta_metaFields [OF that(2)] by (cases keep) (simp_all add: redis_holds_def db_content_def reset_cmds_def)
  qed
  show "\<exists>recs. out = (Some m, recs, False) \<and> distinct (map r_Value recs) \<and> (\<forall>q\<in>set recs. r_Prefix q = zero_prefix)
        \<and> fmap_of_list (map (\<lambda>q. (r_Value q, (r_Exp q, r_Origin q, r_Reason q))) recs) = c"
    if "redis_holds api view r name m c" "st_Load (redis_store api) name r = Some out" for r name m c out
    using redis_load_holds [OF that(1)] that(2) by (simp add: redis_store_def)
qed

section \<open>The store follows the set\<close>

context durable_store
begin

definition store_inv :: "sset \<Rightarrow> meta \<Rightarrow> 'r sys \<Rightarrow> bool" where
  "store_inv s0 m0 y \<longleftrightarrow>
     (\<not> y_failed y \<longrightarrow> (\<forall>d\<in>set (log_deltas (y_log y)). storable d) \<longrightarrow>
        holds (y_store y) (d_Name (s_Def s0)) (m0\<lparr>m_Seq := s_seq (y_s y), m_Hash := s_hash (y_s y)\<rparr>)
          (content (s_entries (y_s y))))"

lemma store_inv_same:
  "store_inv s0 m0 y \<Longrightarrow> y_store y' = y_store y \<Longrightarrow> y_log y' = y_log y \<Longrightarrow> y_failed y' = y_failed y \<Longrightarrow>
   s_seq (y_s y') = s_seq (y_s y) \<Longrightarrow> s_hash (y_s y') = s_hash (y_s y) \<Longrightarrow> s_entries (y_s y') = s_entries (y_s y) \<Longrightarrow>
   store_inv s0 m0 y'"
  by (simp add: store_inv_def)

lemma store_inv_stored:
  assumes inv: "pipe_inv opts y" and depth: "depth_ok opts" and log: "log_inv opts s0 y" and ok: "store_inv s0 m0 y"
    and c: "y_com y = Some b" and st: "commit_stored opts b True ms (y_h y) = Some h'"
    and tx: "st_Commit st (d_Name (h_Def (y_h y))) (pl_Deltas (b_plan b)) (pl_Seq (b_plan b)) (pl_Hash (b_plan b))
       (b_pkgKey b) (b_pkg b) ttl (y_store y) = (r', True)"
  shows "store_inv s0 m0 (y\<lparr>y_h := h', y_com := None, y_store := r', y_log := y_log y @ [b]\<rparr>)"
proof -
  let ?ps = "map b_plan (h_batches (y_h y) @ planner_batch (y_planner y))" and ?p = "b_plan b"
  let ?ds = "pl_Deltas (b_plan b)" and ?m = "m0\<lparr>m_Seq := s_seq (y_s y), m_Hash := s_hash (y_s y)\<rparr>"
  have infl: "inflight (y_s y) (?p # ?ps)" using pipe_invD(1) [OF inv] unfolding com_live(1) [OF inv c] .
  have len: "length ?ps < 2 ^ 64 - 1" by (rule live_length [OF inv c]) (use depth in \<open>simp add: depth_ok_def\<close>)
  note C = set_Commit_inflight [OF infl len, of "b_at b"]
  have ne: "?ds \<noteq> []" using infl unfolding inflight_def chain.simps by blast
  have s': "h_s h' = fst (set_Commit ?p (b_at b) (y_s y))" using commit_stored_ok [OF st] by simp
  have f: "s_seq (h_s h') = pl_Seq ?p" "s_entries (h_s h') = replay ?ds (s_entries (y_s y))" "s_hash (h_s h') = pl_Hash ?p"
    unfolding s' using set_Commit_fields(4,10) [OF ne, of "b_at b" "y_s y"] C by simp_all
  have "b \<in> set (outstanding y @ y_log y)" using c by (simp add: outstanding_def)
  then have key: "b_pkgKey b = DiffKey (d_Name (s_Def s0)) (pl_Seq ?p)" and n: "d_Name (h_Def (y_h y)) = d_Name (s_Def s0)"
    using log unfolding log_inv_def keeper_pack_def Let_def by auto
  have "holds r' (d_Name (s_Def s0)) (?m\<lparr>m_Seq := pl_Seq ?p, m_Hash := pl_Hash ?p\<rparr>) (fold request ?ds (content (s_entries (y_s y))))"
    if "\<not> y_failed y" "\<forall>d\<in>set (log_deltas (y_log y @ [b])). storable d"
    by (rule commit_holds [OF _ _ tx [unfolded key n]]) (use ok that in \<open>auto simp: store_inv_def\<close>)
  then show ?thesis by (simp add: store_inv_def f content_replay)
qed

lemma store_inv_snapshot:
  assumes "store_inv s0 m0 y" and "holder_Snapshot st opts name order now at (y_h y) (y_store y) = (h', r', f)"
  shows "store_inv s0 m0 (y\<lparr>y_h := h', y_store := r'\<rparr>)"
proof (cases "r' = y_store y")
  case True
  then show ?thesis using assms(1) holder_Snapshot_frame [OF assms(2)] by (auto simp: store_inv_def)
next
  case False
  then obtain key data ttl ok where put: "st_Put st key data ttl (y_store y) = (r', ok)"
    and key: "key = SnapKey (d_Name (h_Def (y_h y))) (s_epoch (y_s y)) (s_seq (y_s y))"
    using assms(2)
    by (auto simp: holder_Snapshot_def packSnapshot_def set_Snapshot_def Let_def split: prod.splits if_splits option.splits)
  from put_holds [OF _ put [unfolded key]] assms(1) holder_Snapshot_frame [OF assms(2)] show ?thesis
    by (auto simp: store_inv_def)
qed

lemma store_inv_step:
  assumes "pipe_step st opts y y'" and inv: "pipe_inv opts y" and depth: "depth_ok opts"
    and log: "log_inv opts s0 y" and ok: "store_inv s0 m0 y"
  shows "store_inv s0 m0 y'"
  using assms(1)
proof cases
  case (Submit ev now w sel deadline h' reply)
  with submit_queue_frame [OF Submit(4)] show ?thesis by (intro store_inv_same [OF ok]) auto
next
  case (Sweep now s' vals)
  then show ?thesis using set_Expired_fields [OF Sweep(3)] by (intro store_inv_same [OF ok]) auto
next
  case (Finish now e js c clean rest h' b)
  obtain s' p results where d: "decide js c (y_s y) = (s', p, results)" by (cases "decide js c (y_s y)") auto
  then show ?thesis
    using decide_inflight [OF pipe_invD(1) [OF inv] d] plan_finish_split [OF Finish(3) d] Finish
    by (intro store_inv_same [OF ok]) auto
next
  case (Stored b r' ms h')
  then show ?thesis using store_inv_stored [OF inv depth log ok] by simp
next
  case (Failed b r' ms h')
  then show ?thesis by (simp add: store_inv_def)
next
  case (Snapshot order name now at h' r' f)
  then show ?thesis using store_inv_snapshot [OF ok] by simp
qed (intro store_inv_same [OF ok]; simp)+

lemma store_follows:
  assumes "pipe_reach st opts (sys_init s r) y" and "inflight s []" and "depth_ok opts"
    and "holds r (d_Name (s_Def s)) m (content (s_entries s))" and "m_Seq m = s_seq s" and "m_Hash m = s_hash s"
    and "\<not> y_failed y" and "\<forall>d\<in>set (log_deltas (y_log y)). storable d"
  shows "holds (y_store y) (d_Name (s_Def s)) (m\<lparr>m_Seq := s_seq (y_s y), m_Hash := s_hash (y_s y)\<rparr>) (content (s_entries (y_s y)))"
proof -
  have "(depth_ok opts \<and> pipe_inv opts y) \<and> log_inv opts s y \<and> store_inv s m y"
    using assms(1)
  proof (induction rule: rtranclp_induct)
    case base
    have m: "m\<lparr>m_Seq := s_seq s, m_Hash := s_hash s\<rparr> = m" using assms(5,6) by (cases m) simp
    have "store_inv s m (sys_init s r)" using assms(4) by (simp add: store_inv_def sys_init_def new_holder_def m)
    then show ?case
      using assms(3) sys_init_inv [OF assms(2), of opts r] log_inv_init [OF assms(2), of opts r] by (simp add: depth_ok_def)
  next
    case (step y z)
    then show ?case using pipe.step_keeps log_inv_step store_inv_step by blast
  qed
  with assms(7,8) show ?thesis by (simp add: store_inv_def)
qed

end

end
