(* ===== verification/KeeperSets.thy ===== *)
theory KeeperSets
  imports RedisProps
begin

text \<open>
  \<open>src/internal/keeper/keeper.go\<close>, the operations on the map of sets: mounting a definition with
  the state found in the store, defining, reloading and dropping sets, and the requests that first
  find the holder by its name. Random bytes, the clock and the order in which Go reads a map
  are arguments.
\<close>

section \<open>State\<close>

record keeper =
  k_opts :: options
  k_sets :: "(string, holder) fmap"
  k_ready :: bool

definition keeper_New :: "options \<Rightarrow> keeper" where
  "keeper_New op = \<lparr>k_opts = keeper_New_opts op, k_sets = fmempty, k_ready = False\<rparr>"

text \<open>What a new set takes from outside: the clock for the first sequence number and random bytes.\<close>

record newset =
  w_now :: int
  w_rnd :: "byte list"
  w_key :: "byte list"

definition seq0 :: "int \<Rightarrow> u64" where
  "seq0 now = push_bit 4 (word_of_int (UnixMilli now))"

definition new_set :: "set_def \<Rightarrow> newset \<Rightarrow> sset" where
  "new_set d w = set_New d (seq0 (w_now w)) (w_rnd w) (w_key w)"

section \<open>mount\<close>

definition meta_matches :: "set_def \<Rightarrow> meta option \<Rightarrow> bool" where
  "meta_matches d m = (case m of None \<Rightarrow> False | Some m \<Rightarrow> m_ID m = d_ID d \<and> m_Type m = d_Type d)"

text \<open>The set a definition is mounted with and whether the stored records are kept.\<close>

definition mount_set ::
  "set_def \<Rightarrow> bool \<Rightarrow> meta option \<times> rec list \<times> bool \<Rightarrow> newset \<Rightarrow> newset \<Rightarrow> sset \<times> bool" where
  "mount_set d fresh out w1 w2 =
     (let (meta, recs, badMeta) = out;
          keep = (badMeta \<or> meta_matches d meta);
          resume = (keep \<and> \<not> fresh \<and> \<not> badMeta);
          s = new_set d w1
      in (if resume then
            let m = the meta;
                s = set_Resume (m_Epoch m) (m_Key m) (m_Seq m) recs s
            in if s_hash s \<noteq> m_Hash m then set_Load recs (new_set d w2) else s
          else if keep then set_Load recs s
          else s, keep))"

definition meta_of :: "set_def \<Rightarrow> sset \<Rightarrow> meta" where
  "meta_of d s =
     \<lparr>m_ID = d_ID d, m_Type = d_Type d, m_Epoch = s_epoch s, m_Key = s_key s, m_Seq = s_seq s, m_Hash = s_hash s\<rparr>"

definition mounted :: "(string, holder) fmap \<Rightarrow> set_def \<Rightarrow> bool" where
  "mounted sets d = (case fmlookup sets (d_Name d) of None \<Rightarrow> False | Some old \<Rightarrow> h_Def old = d)"

text \<open>The other holders with the identifier of \<open>d\<close>, in the order the map is read.\<close>

definition renamed_sets :: "set_def \<Rightarrow> string list \<Rightarrow> (string, holder) fmap \<Rightarrow> string list" where
  "renamed_sets d order sets =
     filter (\<lambda>n. n \<noteq> d_Name d \<and> (case fmlookup sets n of None \<Rightarrow> False | Some h \<Rightarrow> d_ID (h_Def h) = d_ID d)) order"

definition drop_state :: "'r store \<Rightarrow> (string, holder) fmap \<Rightarrow> string \<Rightarrow> 'r \<Rightarrow> 'r" where
  "drop_state st sets n r =
     (case fmlookup sets n of None \<Rightarrow> r | Some h \<Rightarrow> fst (st_Drop st (d_Name (h_Def h)) r))"

text \<open>\<open>False\<close> is an error of the store; the old holders are stopped and leave the map.\<close>

definition mount ::
  "'r store \<Rightarrow> set_def \<Rightarrow> bool \<Rightarrow> newset \<times> newset \<Rightarrow> ((string, holder) fmap \<Rightarrow> string list) \<Rightarrow> keeper \<times> 'r
   \<Rightarrow> (keeper \<times> 'r) \<times> bool" where
  "mount st d fresh w ord kr =
     (let (k, r) = kr
      in if \<not> fresh \<and> mounted (k_sets k) d then ((k, r), True)
         else case st_Load st (d_Name d) r of
                None \<Rightarrow> ((k, r), False)
              | Some out \<Rightarrow>
                  let (s, keep) = mount_set d fresh out (fst w) (snd w);
                      (r, ok) = st_Reset st (d_Name d) (meta_of d s) keep r
                  in if \<not> ok then ((k, r), False)
                     else
                       let sets = fmupd (d_Name d) (publishTick (new_holder s)) (k_sets k);
                           renamed = renamed_sets d (ord sets) sets;
                           r = fold (drop_state st sets) renamed r
                       in ((k\<lparr>k_sets := fold fmdrop renamed sets\<rparr>, r), True))"

section \<open>Define, Reload and Start\<close>

definition keeper_drop :: "'r store \<Rightarrow> string \<Rightarrow> keeper \<times> 'r \<Rightarrow> keeper \<times> 'r" where
  "keeper_drop st name kr =
     (let (k, r) = kr
      in case fmlookup (k_sets k) name of
           None \<Rightarrow> (k, r)
         | Some h \<Rightarrow> (k\<lparr>k_sets := fmdrop name (k_sets k)\<rparr>, fst (st_Drop st name r)))"

text \<open>\<open>found\<close> is what the definitions store answers: \<open>None\<close> an error, \<open>Some None\<close> no such set.\<close>

definition keeper_Define ::
  "'r store \<Rightarrow> set_def option option \<Rightarrow> string \<Rightarrow> newset \<times> newset \<Rightarrow> ((string, holder) fmap \<Rightarrow> string list)
   \<Rightarrow> keeper \<times> 'r \<Rightarrow> (keeper \<times> 'r) \<times> define_reply" where
  "keeper_Define st found name w ord kr =
     (case found of
        None \<Rightarrow> (kr, \<lparr>dr_OK = False, dr_Epoch = [], dr_Error = ErrStoreUnavailable\<rparr>)
      | Some None \<Rightarrow> (keeper_drop st name kr, \<lparr>dr_OK = True, dr_Epoch = [], dr_Error = []\<rparr>)
      | Some (Some d) \<Rightarrow>
          if \<not> d_Active d then (keeper_drop st name kr, \<lparr>dr_OK = True, dr_Epoch = [], dr_Error = []\<rparr>)
          else
            let (kr', ok) = mount st d True w ord kr
            in if \<not> ok then (kr', \<lparr>dr_OK = False, dr_Epoch = [], dr_Error = ErrStoreUnavailable\<rparr>)
               else (kr', \<lparr>dr_OK = True,
                           dr_Epoch = Hex (s_epoch (h_s (the (fmlookup (k_sets (fst kr')) name)))), dr_Error = []\<rparr>))"

fun mount_all ::
  "'r store \<Rightarrow> set_def list \<Rightarrow> (nat \<Rightarrow> newset \<times> newset) \<Rightarrow> ((string, holder) fmap \<Rightarrow> string list) \<Rightarrow> keeper \<times> 'r
   \<Rightarrow> (keeper \<times> 'r) \<times> bool" where
  "mount_all st [] w ord kr = (kr, True)"
| "mount_all st (d # ds) w ord kr =
     (let (kr', ok) = mount st d False (w 0) ord kr
      in if \<not> ok then (kr', False) else mount_all st ds (\<lambda>i. w (Suc i)) ord kr')"

definition keeper_Start ::
  "'r store \<Rightarrow> set_def list option \<Rightarrow> (nat \<Rightarrow> newset \<times> newset) \<Rightarrow> ((string, holder) fmap \<Rightarrow> string list) \<Rightarrow> keeper \<times> 'r
   \<Rightarrow> (keeper \<times> 'r) \<times> bool" where
  "keeper_Start st defs w ord kr =
     (case defs of
        None \<Rightarrow> (kr, False)
      | Some ds \<Rightarrow>
          let ((k, r), ok) = mount_all st ds w ord kr
          in if \<not> ok then ((k, r), False) else ((k\<lparr>k_ready := True\<rparr>, r), True))"

definition keeper_Reload ::
  "'r store \<Rightarrow> set_def list option \<Rightarrow> (nat \<Rightarrow> newset \<times> newset) \<Rightarrow> ((string, holder) fmap \<Rightarrow> string list) \<Rightarrow> keeper \<times> 'r
   \<Rightarrow> (keeper \<times> 'r) \<times> bool" where
  "keeper_Reload st defs w ord kr =
     (case defs of
        None \<Rightarrow> (kr, False)
      | Some ds \<Rightarrow>
          let (kr', ok) = mount_all st ds w ord kr
          in if \<not> ok then (kr', False)
             else
               let seen = map d_Name ds;
                   gone = filter (\<lambda>n. n \<notin> set seen) (ord (k_sets (fst kr')))
               in (fold (keeper_drop st) gone kr', True))"

section \<open>Requests\<close>

definition on_holder :: "string \<Rightarrow> holder \<Rightarrow> keeper \<Rightarrow> keeper" where
  "on_holder name h k = k\<lparr>k_sets := fmupd name h (k_sets k)\<rparr>"

text \<open>The reply that is already known, or \<open>None\<close> when the job was queued and its result is awaited.\<close>

definition keeper_Submit ::
  "string \<Rightarrow> event \<Rightarrow> int \<Rightarrow> nat \<Rightarrow> int option \<Rightarrow> queue_select \<Rightarrow> keeper \<Rightarrow> keeper \<times> event_reply option" where
  "keeper_Submit name ev now rid deadline sel k =
     (if \<not> k_ready k then (k, Some (event_error ErrNotReady))
      else case fmlookup (k_sets k) name of
             None \<Rightarrow> (k, Some (event_error ErrUnknownSet))
           | Some h \<Rightarrow>
               (case submit_prepare (h_Def h) ev now of
                  Inl code \<Rightarrow> (k, Some (event_error code))
                | Inr w \<Rightarrow>
                    let (h', reply) = submit_queue (k_opts k) w rid deadline sel h
                    in (on_holder name h' k, reply)))"

definition keeper_Snapshot ::
  "'r store \<Rightarrow> string \<Rightarrow> string list \<Rightarrow> int \<Rightarrow> int \<Rightarrow> keeper \<Rightarrow> 'r \<Rightarrow> keeper \<times> 'r \<times> frame" where
  "keeper_Snapshot st name order now at k r =
     (if \<not> k_ready k then (k, r, snap_error name OpNotReady)
      else case fmlookup (k_sets k) name of
             None \<Rightarrow> (k, r, snap_error name OpUnknownSet)
           | Some h \<Rightarrow>
               let (h', r', f) = holder_Snapshot st (k_opts k) name order now at h r
               in (on_holder name h' k, r', f))"

definition keeper_Lookup :: "string \<Rightarrow> string \<Rightarrow> int \<Rightarrow> keeper \<Rightarrow> lookup_reply" where
  "keeper_Lookup name value now k =
     (case fmlookup (k_sets k) name of
        None \<Rightarrow> \<lparr>lr_OK = False, lr_Found = False, lr_Exp = 0, lr_Error = ErrUnknownSet\<rparr>
      | Some h \<Rightarrow> holder_Lookup value now h)"

text \<open>One round of \<open>tickLoop\<close>.\<close>

definition tick_round :: "keeper \<Rightarrow> keeper" where
  "tick_round k = (if o_Tick (k_opts k) \<le> 0 then k else k\<lparr>k_sets := fmmap publishTick (k_sets k)\<rparr>)"

record set_stat =
  z_Name :: string
  z_Entries :: int
  z_Epoch :: string
  z_Seq :: u64
  z_Hash :: string
  z_Limit :: int
  z_Writes :: int
  z_Rejects :: int
  z_Diffs :: int
  z_Inline :: int
  z_Expired :: int
  z_Snapshots :: int
  z_Packs :: int
  z_StoreErr :: int
  z_StoreMs :: int
  z_Queued :: int
  z_Overloaded :: int
  z_Stale :: int

definition stat_of :: "string \<Rightarrow> holder \<Rightarrow> set_stat" where
  "stat_of name h =
     (let s = h_s h; t = h_stats h
      in \<lparr>z_Name = name, z_Entries = set_Len s, z_Epoch = Hex (s_epoch s), z_Seq = s_seq s, z_Hash = Hex (s_hash s),
          z_Limit = d_Limit (s_Def s), z_Writes = t_Writes t, z_Rejects = t_Rejects t, z_Diffs = t_Diffs t,
          z_Inline = t_Inline t, z_Expired = t_Expired t, z_Snapshots = t_Snapshots t, z_Packs = t_Packs t,
          z_StoreErr = t_StoreErr t, z_StoreMs = t_StoreMs t, z_Queued = h_queued h, z_Overloaded = t_Overloaded t,
          z_Stale = t_Stale t\<rparr>)"

definition keeper_Stats :: "string list \<Rightarrow> keeper \<Rightarrow> set_stat list" where
  "keeper_Stats order k =
     concat (map (\<lambda>n. case fmlookup (k_sets k) n of None \<Rightarrow> [] | Some h \<Rightarrow> [stat_of n h]) order)"

end
