(* ===== verification/Json.thy ===== *)
theory Json
  imports GoText
begin

text \<open>
  The part of \<open>encoding/json\<close> that \<open>src/internal/wire/wire.go\<close> and \<open>src/internal/bus/bus.go\<close> call: the text of a
  value with the escapes of \<open>json.Marshal\<close>, and its reader, with the tokens of the scanner and a stack of open
  objects and arrays. Strings are bytes; \<open>unicode/utf8\<close> says which of them are runes.
\<close>

section \<open>unicode/utf8\<close>

abbreviation byte_val :: "char \<Rightarrow> nat" where
  "byte_val c \<equiv> of_char c"

definition in_range :: "nat \<Rightarrow> nat \<Rightarrow> char \<Rightarrow> bool" where
  "in_range lo hi c \<longleftrightarrow> lo \<le> byte_val c \<and> byte_val c \<le> hi"

abbreviation continuation :: "char \<Rightarrow> bool" where
  "continuation \<equiv> in_range 128 191"

text \<open>
  The size of the rune at the start of a text, as \<open>utf8.DecodeRuneInString\<close> finds it; 0 where it finds none. The first
  byte tells how many follow and the range of the second.
\<close>

definition rune_lead :: "char \<Rightarrow> (nat \<times> nat \<times> nat) option" where
  "rune_lead a =
     (if byte_val a < 128 then Some (0, 0, 0)
      else if in_range 194 223 a then Some (1, 128, 191)
      else if byte_val a = 224 then Some (2, 160, 191)
      else if byte_val a = 237 then Some (2, 128, 159)
      else if in_range 225 239 a then Some (2, 128, 191)
      else if byte_val a = 240 then Some (3, 144, 191)
      else if in_range 241 243 a then Some (3, 128, 191)
      else if byte_val a = 244 then Some (3, 128, 143)
      else None)"

definition rune_trail :: "nat \<Rightarrow> nat \<Rightarrow> nat \<Rightarrow> string \<Rightarrow> bool" where
  "rune_trail k lo hi t \<longleftrightarrow>
     length t = k \<and> (case t of [] \<Rightarrow> True | b # t' \<Rightarrow> in_range lo hi b \<and> list_all continuation t')"

fun rune_size :: "string \<Rightarrow> nat" where
  "rune_size [] = 0"
| "rune_size (a # s) =
     (case rune_lead a of
        None \<Rightarrow> 0
      | Some (k, lo, hi) \<Rightarrow> if rune_trail k lo hi (take k s) then Suc k else 0)"

declare rune_size.simps(2) [simp del]

text \<open>\<open>utf8.AppendRune\<close>; surrogates and numbers past the last rune give the replacement character.\<close>

definition utf8_char :: "nat \<Rightarrow> char" where
  "utf8_char n = char_of n"

definition replacement :: string where
  "replacement = map utf8_char [239, 191, 189]"

definition AppendRune :: "nat \<Rightarrow> string" where
  "AppendRune r =
     (if r < 128 then [utf8_char r]
      else if r < 2048 then map utf8_char [192 + r div 64, 128 + r mod 64]
      else if 55296 \<le> r \<and> r < 57344 \<or> 1114111 < r then replacement
      else if r < 65536 then map utf8_char [224 + r div 4096, 128 + r div 64 mod 64, 128 + r mod 64]
      else map utf8_char [240 + r div 262144, 128 + r div 4096 mod 64, 128 + r div 64 mod 64, 128 + r mod 64])"

text \<open>\<open>utf8.Valid\<close>.\<close>

lemma rune_size_le: "rune_size s \<le> length s"
  by (cases s) (auto simp: rune_size.simps rune_trail_def split: option.splits)

function utf8_valid :: "string \<Rightarrow> bool" where
  "utf8_valid s =
     (if s = [] then True else if rune_size s = 0 then False else utf8_valid (drop (rune_size s) s))"
  by pat_completeness auto
termination
  by (relation "measure length") auto

declare utf8_valid.simps [simp del]

section \<open>Values and their text\<close>

datatype json =
    JNull
  | JBool bool
  | JNum string
  | JStr string
  | JArr "json list"
  | JObj "(string \<times> json) list"

text \<open>The escapes of \<open>json.Marshal\<close>, with those for HTML; bytes that are no rune become the replacement character.\<close>

definition dquote :: char where "dquote = CHR 0x22"
definition bslash :: char where "bslash = CHR 0x5C"

definition esc_u :: "nat \<Rightarrow> string" where
  "esc_u n = bslash # CHR ''u'' # map digit_char [n div 4096 mod 16, n div 256 mod 16, n div 16 mod 16, n mod 16]"

definition esc_ascii :: "char \<Rightarrow> string" where
  "esc_ascii c =
     (if c = dquote \<or> c = bslash then [bslash, c]
      else if byte_val c = 8 then [bslash, CHR ''b'']
      else if byte_val c = 12 then [bslash, CHR ''f'']
      else if byte_val c = 10 then [bslash, CHR ''n'']
      else if byte_val c = 13 then [bslash, CHR ''r'']
      else if byte_val c = 9 then [bslash, CHR ''t'']
      else if byte_val c < 32 \<or> c = CHR ''<'' \<or> c = CHR ''>'' \<or> c = CHR ''&'' then esc_u (byte_val c)
      else [c])"

definition line_separator :: string where "line_separator = map utf8_char [226, 128, 168]"
definition paragraph_separator :: string where "paragraph_separator = map utf8_char [226, 128, 169]"

definition esc_rune :: "string \<Rightarrow> string" where
  "esc_rune r =
     (if r = line_separator then esc_u 8232 else if r = paragraph_separator then esc_u 8233 else r)"

function escape :: "string \<Rightarrow> string" where
  "escape [] = []"
| "escape (c # s) =
     (if byte_val c < 128 then esc_ascii c @ escape s
      else if rune_size (c # s) = 0 then esc_u 65533 @ escape s
      else esc_rune (take (rune_size (c # s)) (c # s)) @ escape (drop (rune_size (c # s)) (c # s)))"
  by pat_completeness auto
termination
  by (relation "measure length") (auto simp: Suc_le_eq)

declare escape.simps(2) [simp del]

definition print_string :: "string \<Rightarrow> string" where
  "print_string s = dquote # escape s @ [dquote]"

fun join :: "'a \<Rightarrow> 'a list list \<Rightarrow> 'a list" where
  "join c [] = []"
| "join c [x] = x"
| "join c (x # y # zs) = x @ c # join c (y # zs)"

fun print_json :: "json \<Rightarrow> string" where
  "print_json JNull = ''null''"
| "print_json (JBool b) = (if b then ''true'' else ''false'')"
| "print_json (JNum n) = n"
| "print_json (JStr s) = print_string s"
| "print_json (JArr js) = CHR ''['' # join (CHR '','') (map print_json js) @ '']''"
| "print_json (JObj fs) = CHR ''{'' # join (CHR '','') (map (\<lambda>(k, j). print_string k @ CHR '':'' # print_json j) fs) @ ''}''"

section \<open>The scanner\<close>

definition hex4 :: "string \<Rightarrow> nat option" where
  "hex4 s =
     (if length s = 4 then digits_val 16 0 s else None)"

text \<open>\<open>getu4\<close> of a text that starts with \<open>\u\<close>.\<close>

definition getu4 :: "string \<Rightarrow> nat option" where
  "getu4 s = (case s of b # u # r \<Rightarrow> if b = bslash \<and> u = CHR ''u'' then hex4 (take 4 r) else None | _ \<Rightarrow> None)"

definition surrogate :: "nat \<Rightarrow> bool" where
  "surrogate r \<longleftrightarrow> 55296 \<le> r \<and> r < 57344"

text \<open>\<open>utf16.DecodeRune\<close>.\<close>

definition pair_rune :: "nat \<Rightarrow> nat \<Rightarrow> nat option" where
  "pair_rune r1 r2 =
     (if 55296 \<le> r1 \<and> r1 < 56320 \<and> 56320 \<le> r2 \<and> r2 < 57344
      then Some ((r1 - 55296) * 1024 + (r2 - 56320) + 65536) else None)"

text \<open>What an escape stands for, from the letter after the backslash on, and the text after it.\<close>

definition simple_escapes :: "(char \<times> nat) list" where
  "simple_escapes = [(dquote, 34), (bslash, 92), (CHR ''/'', 47), (CHR ''b'', 8), (CHR ''f'', 12), (CHR ''n'', 10),
     (CHR ''r'', 13), (CHR ''t'', 9)]"

definition read_escape :: "string \<Rightarrow> (string \<times> string) option" where
  "read_escape s =
     (case s of
        [] \<Rightarrow> None
      | e # s' \<Rightarrow>
          (case map_of simple_escapes e of
             Some n \<Rightarrow> Some ([utf8_char n], s')
           | None \<Rightarrow>
               if e \<noteq> CHR ''u'' then None
               else (case hex4 (take 4 s') of
                  None \<Rightarrow> None
                | Some r \<Rightarrow>
                    let rest = drop 4 s'
                    in if surrogate r
                       then (case Option.bind (getu4 rest) (pair_rune r) of
                               Some d \<Rightarrow> Some (AppendRune d, drop 6 rest)
                             | None \<Rightarrow> Some (replacement, rest))
                       else Some (AppendRune r, rest))))"

lemma read_escape_shorter: "read_escape s = Some (x, r) \<Longrightarrow> length r < length s"
  by (auto simp: read_escape_def Let_def split: list.splits option.splits if_splits)

text \<open>The content of a string after its opening quote, unquoted, and the text after the closing one.\<close>

function read_string :: "string \<Rightarrow> (string \<times> string) option" where
  "read_string [] = None"
| "read_string (c # s) =
     (if c = dquote then Some ([], s)
      else if c = bslash then
        (case read_escape s of
           None \<Rightarrow> None
         | Some (x, r) \<Rightarrow> map_option (\<lambda>(y, t). (x @ y, t)) (read_string r))
      else if byte_val c < 32 then None
      else if rune_size (c # s) = 0 then map_option (\<lambda>(y, t). (replacement @ y, t)) (read_string s)
      else map_option (\<lambda>(y, t). (take (rune_size (c # s)) (c # s) @ y, t)) (read_string (drop (rune_size (c # s)) (c # s))))"
  by pat_completeness auto
termination
  by (relation "measure length") (auto dest: read_escape_shorter)

declare read_string.simps(2) [simp del]

lemma read_string_shorter: "read_string s = Some (x, r) \<Longrightarrow> length r < length s"
proof (induction s arbitrary: x r rule: read_string.induct)
  case (2 c s)
  then show ?case
    by (auto simp: read_string.simps(2) split: if_splits option.splits dest!: read_escape_shorter)
      (meson le_less_trans less_SucI less_trans)+
qed simp

text \<open>A number literal and the text after it.\<close>

definition is_digit :: "char \<Rightarrow> bool" where
  "is_digit = in_range 48 57"

definition read_int :: "string \<Rightarrow> (string \<times> string) option" where
  "read_int s =
     (case s of
        [] \<Rightarrow> None
      | c # s' \<Rightarrow>
          if c = CHR ''0'' then Some ([c], s')
          else if is_digit c then Some (takeWhile is_digit s, dropWhile is_digit s)
          else None)"

definition read_frac :: "string \<Rightarrow> (string \<times> string) option" where
  "read_frac s =
     (case s of
        c # s' \<Rightarrow>
          if c = CHR ''.'' then
            if takeWhile is_digit s' = [] then None else Some (c # takeWhile is_digit s', dropWhile is_digit s')
          else Some ([], s)
      | [] \<Rightarrow> Some ([], s))"

definition read_exp :: "string \<Rightarrow> (string \<times> string) option" where
  "read_exp s =
     (case s of
        c # s' \<Rightarrow>
          if c = CHR ''e'' \<or> c = CHR ''E'' then
            (let sgn = takeWhile (\<lambda>d. d = CHR ''+'' \<or> d = CHR ''-'') (take 1 s'); t = drop (length sgn) s'
             in if takeWhile is_digit t = [] then None
                else Some (c # sgn @ takeWhile is_digit t, dropWhile is_digit t))
          else Some ([], s)
      | [] \<Rightarrow> Some ([], s))"

fun read_minus :: "string \<Rightarrow> string \<times> string" where
  "read_minus [] = ([], [])"
| "read_minus (c # s) = (if c = CHR ''-'' then ([c], s) else ([], c # s))"

definition read_num :: "string \<Rightarrow> (string \<times> string) option" where
  "read_num s =
     (let (m, s1) = read_minus s
      in case read_int s1 of None \<Rightarrow> None | Some (i, s2) \<Rightarrow>
         (case read_frac s2 of None \<Rightarrow> None | Some (f, s3) \<Rightarrow>
            (case read_exp s3 of None \<Rightarrow> None | Some (e, s4) \<Rightarrow> Some (m @ i @ f @ e, s4))))"

lemma read_minus_split: "read_minus s = (m, t) \<Longrightarrow> s = m @ t"
  by (cases s) (auto split: if_splits)

lemma read_int_split: "read_int s = Some (x, r) \<Longrightarrow> s = x @ r \<and> x \<noteq> []"
  by (auto simp: read_int_def split: list.splits if_splits)

lemma read_frac_split: "read_frac s = Some (x, r) \<Longrightarrow> s = x @ r"
  by (auto simp: read_frac_def split: list.splits if_splits)

lemma read_exp_split: "read_exp s = Some (x, r) \<Longrightarrow> s = x @ r"
  by (cases s; cases "tl s") (auto simp: read_exp_def split: if_splits)

lemma read_num_split: "read_num s = Some (x, r) \<Longrightarrow> s = x @ r \<and> x \<noteq> []"
  by (auto simp: read_num_def dest!: read_minus_split read_int_split read_frac_split read_exp_split
      split: option.splits prod.splits)

datatype token =
    TObj | TEndObj | TArr | TEndArr | TColon | TComma
  | TNull | TBool bool | TNum string | TStr string

definition is_space :: "char \<Rightarrow> bool" where
  "is_space c \<longleftrightarrow> byte_val c \<in> {32, 9, 10, 13}"

definition punctuation :: "(char \<times> token) list" where
  "punctuation = [(CHR ''{'', TObj), (CHR ''}'', TEndObj), (CHR ''['', TArr), (CHR '']'', TEndArr),
     (CHR '':'', TColon), (CHR '','', TComma)]"

definition literals :: "(string \<times> token) list" where
  "literals = [(''null'', TNull), (''true'', TBool True), (''false'', TBool False)]"

definition read_literal :: "string \<Rightarrow> (token \<times> string) option" where
  "read_literal s =
     map_option (\<lambda>(l, t). (t, drop (length l) s)) (find (\<lambda>(l, t). take (length l) s = l) literals)"

definition read_token :: "string \<Rightarrow> (token \<times> string) option" where
  "read_token s =
     (case s of
        [] \<Rightarrow> None
      | c # s' \<Rightarrow>
          (case map_of punctuation c of
             Some t \<Rightarrow> Some (t, s')
           | None \<Rightarrow>
               if c = dquote then map_option (\<lambda>(x, r). (TStr x, r)) (read_string s')
               else if c = CHR ''-'' \<or> is_digit c then map_option (\<lambda>(x, r). (TNum x, r)) (read_num s)
               else read_literal s))"

lemma read_num_shorter: "read_num s = Some (x, r) \<Longrightarrow> length r < length s"
  using read_num_split [of s x r] by auto

lemma read_token_shorter: "read_token s = Some (t, r) \<Longrightarrow> length r < length s"
  by (auto simp: read_token_def read_literal_def literals_def split: list.splits option.splits if_splits
      dest!: read_string_shorter read_num_shorter)

function tokens :: "string \<Rightarrow> token list option" where
  "tokens s =
     (case s of
        [] \<Rightarrow> Some []
      | c # s' \<Rightarrow>
          if is_space c then tokens s'
          else (case read_token s of
                  None \<Rightarrow> None
                | Some (t, r) \<Rightarrow> map_option (Cons t) (tokens r)))"
  by pat_completeness auto
termination
  by (relation "measure length") (auto dest: read_token_shorter)

declare tokens.simps [simp del]

section \<open>The reader\<close>

text \<open>
  The values that are open, innermost first: an array with the elements so far, or an object with the fields so
  far and the name whose value is read. At most \<open>maxNestingDepth\<close> may be open.
\<close>

datatype opened = InArr "json list" | InObj "(string \<times> json) list" string

datatype reader =
    WantValue
  | WantElement
  | WantKey "(string \<times> json) list" bool
  | WantColon "(string \<times> json) list" string
  | GotValue json

definition maxNestingDepth :: nat where "maxNestingDepth = 10000"

definition start_value :: "token \<Rightarrow> opened list \<Rightarrow> (reader \<times> opened list) option" where
  "start_value t os =
     (case t of
        TNull \<Rightarrow> Some (GotValue JNull, os)
      | TBool b \<Rightarrow> Some (GotValue (JBool b), os)
      | TNum n \<Rightarrow> Some (GotValue (JNum n), os)
      | TStr s \<Rightarrow> Some (GotValue (JStr s), os)
      | TArr \<Rightarrow> if length os < maxNestingDepth then Some (WantElement, InArr [] # os) else None
      | TObj \<Rightarrow> if length os < maxNestingDepth then Some (WantKey [] True, os) else None
      | _ \<Rightarrow> None)"

definition end_value :: "json \<Rightarrow> token \<Rightarrow> opened list \<Rightarrow> (reader \<times> opened list) option" where
  "end_value v t os =
     (case os of
        [] \<Rightarrow> None
      | InArr js # os' \<Rightarrow>
          if t = TComma then Some (WantValue, InArr (js @ [v]) # os')
          else if t = TEndArr then Some (GotValue (JArr (js @ [v])), os') else None
      | InObj fs k # os' \<Rightarrow>
          if t = TComma then Some (WantKey (fs @ [(k, v)]) False, os')
          else if t = TEndObj then Some (GotValue (JObj (fs @ [(k, v)])), os') else None)"

definition json_step :: "token \<Rightarrow> reader \<times> opened list \<Rightarrow> (reader \<times> opened list) option" where
  "json_step t ro =
     (case ro of (r, os) \<Rightarrow>
        (case r of
           WantValue \<Rightarrow> start_value t os
         | WantElement \<Rightarrow>
             (case os of InArr [] # os' \<Rightarrow> if t = TEndArr then Some (GotValue (JArr []), os') else start_value t os
                       | _ \<Rightarrow> start_value t os)
         | WantKey fs start \<Rightarrow>
             (case t of TStr k \<Rightarrow> Some (WantColon fs k, os)
                      | TEndObj \<Rightarrow> if start then Some (GotValue (JObj fs), os) else None
                      | _ \<Rightarrow> None)
         | WantColon fs k \<Rightarrow> if t = TColon then Some (WantValue, InObj fs k # os) else None
         | GotValue v \<Rightarrow> end_value v t os))"

fun json_run :: "reader \<times> opened list \<Rightarrow> token list \<Rightarrow> (reader \<times> opened list) option" where
  "json_run ro [] = Some ro"
| "json_run ro (t # ts) = (case json_step t ro of None \<Rightarrow> None | Some ro' \<Rightarrow> json_run ro' ts)"

definition parse_json :: "string \<Rightarrow> json option" where
  "parse_json s =
     (case tokens s of
        None \<Rightarrow> None
      | Some ts \<Rightarrow> (case json_run (WantValue, []) ts of Some (GotValue v, []) \<Rightarrow> Some v | _ \<Rightarrow> None))"

end
