(* ===== verification/JsonRound.thy ===== *)
theory JsonRound
  imports Json
begin

text \<open>
  The reader of \<open>Json\<close> gives back every value that was printed: strings through their escapes, numbers as literals,
  arrays and objects through the stack of the reader. Every string it gives is valid UTF-8.
\<close>

section \<open>Strings\<close>

lemma utf8_valid_Nil [simp]: "utf8_valid []"
  by (simp add: utf8_valid.simps)

lemma utf8_valid_Cons:
  "utf8_valid (c # s) \<longleftrightarrow> rune_size (c # s) \<noteq> 0 \<and> utf8_valid (drop (rune_size (c # s)) (c # s))"
  by (subst utf8_valid.simps) simp

lemma rune_size_ascii [simp]: "byte_val c < 128 \<Longrightarrow> rune_size (c # s) = 1"
  by (simp add: rune_size.simps rune_lead_def rune_trail_def)

lemma rune_size_take:
  assumes "rune_size s \<noteq> 0"
  shows "rune_size (take (rune_size s) s @ x) = rune_size s"
proof (cases s)
  case (Cons a t)
  then obtain k lo hi where "rune_lead a = Some (k, lo, hi)" "rune_trail k lo hi (take k t)"
    using assms by (auto simp: rune_size.simps split: option.splits if_splits)
  moreover from this have "k \<le> length t" by (auto simp: rune_trail_def)
  ultimately show ?thesis using Cons by (simp add: rune_size.simps)
qed (use assms in simp)

lemma hex4_digits:
  assumes "n < 65536"
  shows "hex4 (map digit_char [n div 4096 mod 16, n div 256 mod 16, n div 16 mod 16, n mod 16]) = Some n"
proof -
  define a b c where "a = n div 16" and "b = a div 16" and "c = b div 16"
  have "n div 256 = b" "n div 4096 = c"
    by (simp_all add: a_def b_def c_def flip: div_mult2_eq)
  moreover have "c < 16" using assms unfolding a_def b_def c_def by linarith
  moreover have "((c * 16 + b mod 16) * 16 + a mod 16) * 16 + n mod 16 = n"
    by (simp add: a_def b_def c_def)
  ultimately show ?thesis by (simp add: hex4_def a_def)
qed

lemma read_escape_u:
  assumes "n < 65536" "\<not> surrogate n"
  shows "read_escape (tl (esc_u n) @ x) = Some (AppendRune n, x)"
proof -
  have "map_of simple_escapes (CHR ''u'') = None" by (simp add: simple_escapes_def dquote_def bslash_def)
  then show ?thesis
    using assms hex4_digits [OF assms(1)] by (simp add: read_escape_def esc_u_def)
qed

abbreviation put :: "string \<Rightarrow> (string \<times> string) option \<Rightarrow> (string \<times> string) option" where
  "put x \<equiv> map_option (\<lambda>(y, t). (x @ y, t))"

lemma read_string_esc_u:
  "n < 65536 \<Longrightarrow> \<not> surrogate n \<Longrightarrow> read_string (esc_u n @ x) = put (AppendRune n) (read_string x)"
  using read_escape_u [of n x] by (simp add: esc_u_def read_string.simps(2) dquote_def bslash_def)

lemma utf8_char_code [simp]: "utf8_char (byte_val c) = c"
  by (simp add: utf8_char_def)

lemma read_string_esc_ascii:
  assumes "byte_val c < 128"
  shows "read_string (esc_ascii c @ x) = put [c] (read_string x)"
proof -
  have u: "read_string (esc_u (byte_val c) @ x) = put [c] (read_string x)"
    using assms by (subst read_string_esc_u) (auto simp: surrogate_def AppendRune_def)
  have b: "read_string (bslash # e # x) = put [c] (read_string x)" if "map_of simple_escapes e = Some (byte_val c)" for e
    using that by (simp add: read_string.simps(2) read_escape_def dquote_def bslash_def)
  have p: "read_string (c # x) = put [c] (read_string x)" if "c \<noteq> dquote" "c \<noteq> bslash" "\<not> byte_val c < 32"
    using assms that by (simp add: read_string.simps(2))
  have "c = dquote \<Longrightarrow> read_string (bslash # dquote # x) = put [c] (read_string x)"
    "c = bslash \<Longrightarrow> read_string (bslash # bslash # x) = put [c] (read_string x)"
    "byte_val c = 8 \<Longrightarrow> read_string (bslash # CHR ''b'' # x) = put [c] (read_string x)"
    "byte_val c = 12 \<Longrightarrow> read_string (bslash # CHR ''f'' # x) = put [c] (read_string x)"
    "byte_val c = 10 \<Longrightarrow> read_string (bslash # CHR ''n'' # x) = put [c] (read_string x)"
    "byte_val c = 13 \<Longrightarrow> read_string (bslash # CHR ''r'' # x) = put [c] (read_string x)"
    "byte_val c = 9 \<Longrightarrow> read_string (bslash # CHR ''t'' # x) = put [c] (read_string x)"
    by (rule b, simp add: simple_escapes_def dquote_def bslash_def)+
  then show ?thesis using u p by (simp add: esc_ascii_def)
qed

lemma AppendRune_separators: "AppendRune 8232 = line_separator" "AppendRune 8233 = paragraph_separator"
  by (simp_all add: AppendRune_def line_separator_def paragraph_separator_def)

lemma read_string_esc_rune:
  assumes "\<not> byte_val c < 128" "rune_size (c # s) = n" "n \<noteq> 0"
  shows "read_string (esc_rune (take n (c # s)) @ x) = put (take n (c # s)) (read_string x)"
proof -
  have n: "rune_size (take n (c # s) @ x) = n" "n \<le> length (c # s)"
    using rune_size_take [of "c # s" x] rune_size_le [of "c # s"] assms by simp_all
  obtain m where m: "n = Suc m" using assms by (cases n) auto
  have "c \<noteq> dquote" "c \<noteq> bslash" "\<not> byte_val c < 32" using assms by (auto simp: dquote_def bslash_def)
  then have "read_string (take n (c # s) @ x) = put (take n (c # s)) (read_string x)"
    using n m by (simp add: read_string.simps(2))
  then show ?thesis
    using read_string_esc_u [of 8232 x] read_string_esc_u [of 8233 x]
    by (auto simp: esc_rune_def AppendRune_separators surrogate_def)
qed

lemma read_string_escape: "utf8_valid s \<Longrightarrow> read_string (escape s @ dquote # r) = Some (s, r)"
proof (induction s rule: escape.induct)
  case 1
  then show ?case by (simp add: read_string.simps(2))
next
  case (2 c s)
  show ?case
  proof (cases "byte_val c < 128")
    case True
    then show ?thesis using 2 by (simp add: escape.simps(2) utf8_valid_Cons read_string_esc_ascii)
  next
    case False
    moreover have "take n (c # s) @ drop n (c # s) = c # s" for n by (rule append_take_drop_id)
    ultimately show ?thesis
      using 2 by (simp add: escape.simps(2) utf8_valid_Cons read_string_esc_rune)
  qed
qed

section \<open>Numbers\<close>

text \<open>A literal ends where the text ends or a newline or one of the signs of the grammar follows.\<close>

definition delimited :: "string \<Rightarrow> bool" where
  "delimited r \<longleftrightarrow> r = [] \<or> hd r \<in> {CHR '','', CHR '']'', CHR ''}'', CHR 0x0A}"

lemma delimited_simps [simp]:
  "delimited []" "delimited (CHR '','' # r)" "delimited (CHR '']'' # r)" "delimited (CHR ''}'' # r)" "delimited (CHR 0x0A # r)"
  by (simp_all add: delimited_def)

lemma delimited_stops:
  assumes "delimited r"
  shows "takeWhile is_digit (s @ r) = takeWhile is_digit s" and "dropWhile is_digit (s @ r) = dropWhile is_digit s @ r"
  using assms
  by (induction s) (cases r; auto simp: delimited_def is_digit_def in_range_def)+

lemma read_int_append: "delimited r \<Longrightarrow> read_int s = Some (i, t) \<Longrightarrow> read_int (s @ r) = Some (i, t @ r)"
  using delimited_stops [of r s] by (cases s) (auto simp: read_int_def split: if_splits)

lemma read_frac_append: "delimited r \<Longrightarrow> read_frac s = Some (i, t) \<Longrightarrow> read_frac (s @ r) = Some (i, t @ r)"
  using delimited_stops [of r "tl s"]
  by (cases s; cases r) (auto simp: read_frac_def delimited_def split: if_splits)

lemma read_exp_append: "delimited r \<Longrightarrow> read_exp s = Some (i, t) \<Longrightarrow> read_exp (s @ r) = Some (i, t @ r)"
  using delimited_stops [of r "tl s"] delimited_stops [of r "tl (tl s)"]
  by (cases s; cases r; cases "tl s") (auto simp: read_exp_def delimited_def split: if_splits)

lemma read_minus_append: "s \<noteq> [] \<Longrightarrow> read_minus s = (m, t) \<Longrightarrow> read_minus (s @ r) = (m, t @ r)"
  by (cases s) (auto split: if_splits)

lemma read_num_append:
  assumes d: "delimited r" and n: "read_num s = Some (x, t)"
  shows "read_num (s @ r) = Some (x, t @ r)"
proof -
  have ne: "s \<noteq> []" using n read_num_split by fastforce
  obtain m s1 i s2 f s3 e where "read_minus s = (m, s1)" "read_int s1 = Some (i, s2)" "read_frac s2 = Some (f, s3)"
    and "read_exp s3 = Some (e, t)" "x = m @ i @ f @ e"
    using n by (auto simp: read_num_def split: prod.splits option.splits)
  then show ?thesis
    by (simp add: read_num_def read_minus_append [OF ne] read_int_append [OF d] read_frac_append [OF d]
        read_exp_append [OF d])
qed

definition number_ok :: "string \<Rightarrow> bool" where
  "number_ok n \<longleftrightarrow> read_num n = Some (n, [])"

lemma digit_char_decimal:
  "d < 16 \<Longrightarrow> (d < 10 \<longrightarrow> is_digit (digit_char d)) \<and> (d \<noteq> 0 \<longrightarrow> digit_char d \<noteq> CHR ''0'')"
  by (rule digit_char_cases [of d]) (simp_all add: is_digit_def in_range_def digit_char_def)

lemma nat_digits_is_digit: "c \<in> set (nat_digits 10 n) \<Longrightarrow> is_digit c"
  using nat_digits_chars [of 10 c n] digit_char_decimal by auto

lemma hd_nat_digits: "n \<noteq> 0 \<Longrightarrow> hd (nat_digits 10 n) \<noteq> CHR ''0''"
proof (induction "10 :: nat" n rule: nat_digits.induct)
  case (1 n)
  show ?case
  proof (cases "n < 10")
    case True
    then show ?thesis using 1 digit_char_decimal [of n] by (simp add: nat_digits.simps)
  next
    case False
    then have "hd (nat_digits 10 (n div 10)) \<noteq> CHR ''0''" using 1 by simp
    then show ?thesis using False by (simp add: nat_digits.simps [of 10 n])
  qed
qed

lemma read_int_digits: "read_int (nat_digits 10 n) = Some (nat_digits 10 n, [])"
proof (cases "n = 0")
  case True
  then show ?thesis by (simp add: nat_digits.simps digit_char_def read_int_def)
next
  case False
  have "takeWhile is_digit (nat_digits 10 n) = nat_digits 10 n" "dropWhile is_digit (nat_digits 10 n) = []"
    using nat_digits_is_digit by (auto simp: takeWhile_eq_all_conv dropWhile_eq_Nil_conv)
  then show ?thesis
    using hd_nat_digits [OF False] nat_digits_is_digit [of "hd (nat_digits 10 n)" n]
    by (cases "nat_digits 10 n") (auto simp: read_int_def)
qed

lemma number_ok_digits: "number_ok (nat_digits 10 n)" "number_ok (CHR ''-'' # nat_digits 10 n)"
proof -
  have "hd (nat_digits 10 n) \<noteq> CHR ''-''"
    using nat_digits_is_digit [of "hd (nat_digits 10 n)" n] by (auto simp: is_digit_def in_range_def)
  then show "number_ok (nat_digits 10 n)"
    using read_int_digits [of n]
    by (cases "nat_digits 10 n") (auto simp: number_ok_def read_num_def read_frac_def read_exp_def)
  show "number_ok (CHR ''-'' # nat_digits 10 n)"
    by (simp add: number_ok_def read_num_def read_int_digits read_frac_def read_exp_def)
qed

lemma number_ok_Format [simp]: "number_ok (FormatInt i)" "number_ok (FormatUint w)"
  by (simp_all add: FormatInt_def FormatUint_def number_ok_digits)

section \<open>Tokens\<close>

fun json_tokens :: "json \<Rightarrow> token list" where
  "json_tokens JNull = [TNull]"
| "json_tokens (JBool b) = [TBool b]"
| "json_tokens (JNum n) = [TNum n]"
| "json_tokens (JStr s) = [TStr s]"
| "json_tokens (JArr js) = TArr # join TComma (map json_tokens js) @ [TEndArr]"
| "json_tokens (JObj fs) = TObj # join TComma (map (\<lambda>(k, j). TStr k # TColon # json_tokens j) fs) @ [TEndObj]"

text \<open>Strings are valid and numbers are literals.\<close>

fun json_ok :: "json \<Rightarrow> bool" where
  "json_ok (JNum n) = number_ok n"
| "json_ok (JStr s) = utf8_valid s"
| "json_ok (JArr js) = list_all json_ok js"
| "json_ok (JObj fs) = list_all (\<lambda>(k, j). utf8_valid k \<and> json_ok j) fs"
| "json_ok _ = True"

lemma tokens_Nil [simp]: "tokens [] = Some []"
  by (simp add: tokens.simps)

lemma tokens_punctuation:
  "map_of punctuation c = Some t \<Longrightarrow> tokens (c # s) = map_option (Cons t) (tokens s)"
  by (subst tokens.simps) (auto simp: read_token_def punctuation_def is_space_def split: if_splits)

lemma tokens_sign [simp]:
  "tokens (CHR ''{'' # s) = map_option (Cons TObj) (tokens s)"
  "tokens (CHR ''}'' # s) = map_option (Cons TEndObj) (tokens s)"
  "tokens (CHR ''['' # s) = map_option (Cons TArr) (tokens s)"
  "tokens (CHR '']'' # s) = map_option (Cons TEndArr) (tokens s)"
  "tokens (CHR '':'' # s) = map_option (Cons TColon) (tokens s)"
  "tokens (CHR '','' # s) = map_option (Cons TComma) (tokens s)"
  by (rule tokens_punctuation, simp add: punctuation_def)+

lemma tokens_string: "utf8_valid s \<Longrightarrow> tokens (print_string s @ r) = map_option (Cons (TStr s)) (tokens r)"
  using read_string_escape [of s r]
  by (subst tokens.simps)
    (simp add: print_string_def read_token_def is_space_def punctuation_def dquote_def)

lemma tokens_literal:
  "tokens (''null'' @ r) = map_option (Cons TNull) (tokens r)"
  "tokens (''true'' @ r) = map_option (Cons (TBool True)) (tokens r)"
  "tokens (''false'' @ r) = map_option (Cons (TBool False)) (tokens r)"
  by (subst tokens.simps, simp add: read_token_def read_literal_def literals_def punctuation_def is_space_def
      dquote_def is_digit_def in_range_def)+

lemma number_starts:
  assumes "number_ok n"
  obtains c n' where "n = c # n'" "c = CHR ''-'' \<or> is_digit c"
proof (cases n)
  case Nil
  then show ?thesis using assms by (simp add: number_ok_def read_num_def read_int_def)
next
  case (Cons c n')
  then have "c = CHR ''-'' \<or> is_digit c"
    using assms
    by (auto simp: number_ok_def read_num_def read_int_def is_digit_def in_range_def split: if_splits option.splits)
  with Cons that show ?thesis by blast
qed

lemma tokens_number:
  assumes n: "number_ok n" and d: "delimited r"
  shows "tokens (n @ r) = map_option (Cons (TNum n)) (tokens r)"
proof -
  obtain c n' where c: "n = c # n'" "c = CHR ''-'' \<or> is_digit c" using n by (rule number_starts)
  then have p: "map_of punctuation c = None" "c \<noteq> dquote" "\<not> is_space c"
    by (auto simp: punctuation_def dquote_def is_space_def is_digit_def in_range_def)
  have "read_num (n @ r) = Some (n, r)"
    using read_num_append [OF d] n by (fastforce simp: number_ok_def)
  then have "read_token (n @ r) = Some (TNum n, r)"
    using c p by (simp add: read_token_def)
  then show ?thesis using c p by (subst tokens.simps) simp
qed

text \<open>A list of texts with commas between them, each read as its tokens when a delimiter follows.\<close>

lemma tokens_join:
  assumes each: "\<And>x r. x \<in> set xs \<Longrightarrow> delimited r \<Longrightarrow> tokens (p x @ r) = map_option ((@) (q x)) (tokens r)"
    and "delimited r"
  shows "tokens (join (CHR '','') (map p xs) @ r) = map_option ((@) (join TComma (map q xs))) (tokens r)"
  using assms
proof (induction xs rule: induct_list012)
  case 1
  then show ?case by (simp add: option.map_ident)
next
  case (3 x y zs)
  then have "tokens (join (CHR '','') (map p (y # zs)) @ r) = map_option ((@) (join TComma (map q (y # zs)))) (tokens r)"
    by simp
  then show ?case using 3 by (simp add: option.map_comp comp_def)
qed simp

lemma tokens_print:
  "json_ok j \<Longrightarrow> delimited r \<Longrightarrow> tokens (print_json j @ r) = map_option ((@) (json_tokens j)) (tokens r)"
proof (induction j arbitrary: r rule: print_json.induct)
  case (5 js)
  then have "tokens (join (CHR '','') (map print_json js) @ CHR '']'' # r)
    = map_option ((@) (join TComma (map json_tokens js))) (tokens (CHR '']'' # r))"
    by (intro tokens_join) (auto simp: list_all_iff)
  then show ?case by (simp add: option.map_comp comp_def)
next
  case (6 fs)
  have "tokens (print_string k @ CHR '':'' # print_json j @ s) = map_option ((@) (TStr k # TColon # json_tokens j)) (tokens s)"
    if "(k, j) \<in> set fs" "delimited s" for k j s
  proof -
    have "utf8_valid k" "json_ok j" using 6 that by (auto simp: list_all_iff)
    then show ?thesis
      using "6.IH" [OF that(1) refl _ that(2)] by (cases "tokens s") (simp_all add: tokens_string)
  qed
  then have "tokens (join (CHR '','') (map (\<lambda>(k, j). print_string k @ CHR '':'' # print_json j) fs) @ CHR ''}'' # r)
    = map_option ((@) (join TComma (map (\<lambda>(k, j). TStr k # TColon # json_tokens j) fs))) (tokens (CHR ''}'' # r))"
    by (intro tokens_join) auto
  then show ?case by (simp add: option.map_comp comp_def)
qed (auto simp: tokens_string tokens_number tokens_literal [unfolded append_Cons append_Nil] intro: option.map_cong0)

section \<open>Nesting\<close>

fun json_depth :: "json \<Rightarrow> nat" where
  "json_depth (JArr js) = Suc (Max (insert 0 (set (map json_depth js))))"
| "json_depth (JObj fs) = Suc (Max (insert 0 (set (map (\<lambda>(k, j). json_depth j) fs))))"
| "json_depth _ = 0"

lemma json_run_append:
  "json_run ro (ts @ us) = (case json_run ro ts of None \<Rightarrow> None | Some ro' \<Rightarrow> json_run ro' us)"
  by (induction ts arbitrary: ro) (auto split: option.splits)

lemma json_tokens_start: "\<exists>t ts. json_tokens j = t # ts \<and> t \<noteq> TEndArr"
  by (cases j) auto

lemma want_element:
  "ts \<noteq> [] \<Longrightarrow> hd ts \<noteq> TEndArr \<Longrightarrow> json_run (WantElement, os) ts = json_run (WantValue, os) ts"
  by (cases ts) (auto simp: json_step_def split: list.splits opened.splits)

lemma read_elements:
  assumes "\<And>j os. j \<in> set js \<Longrightarrow> length os \<le> d \<Longrightarrow> json_run (WantValue, os) (json_tokens j) = Some (GotValue j, os)"
    and "js \<noteq> []" and "Suc (length os) \<le> d"
  shows "json_run (WantValue, InArr acc # os) (join TComma (map json_tokens js))
    = Some (GotValue (last js), InArr (acc @ butlast js) # os)"
  using assms
proof (induction js arbitrary: acc rule: induct_list012)
  case (3 x y zs)
  then show ?case by (simp add: json_run_append json_step_def end_value_def)
qed simp_all

lemma read_fields:
  assumes "\<And>f os. f \<in> set fs \<Longrightarrow> length os \<le> d \<Longrightarrow> json_run (WantValue, os) (json_tokens (snd f)) = Some (GotValue (snd f), os)"
    and "fs \<noteq> []" and "Suc (length os) \<le> d"
  shows "json_run (WantKey acc st, os) (join TComma (map (\<lambda>(k, j). TStr k # TColon # json_tokens j) fs))
    = Some (GotValue (snd (last fs)), InObj (acc @ butlast fs) (fst (last fs)) # os)"
  using assms
proof (induction fs arbitrary: acc st rule: induct_list012)
  case (2 f)
  then show ?case by (simp add: json_step_def case_prod_beta)
next
  case (3 f g fs)
  then show ?case by (simp add: json_run_append json_step_def end_value_def case_prod_beta)
qed simp

lemma le_Max_image: "x \<in> A \<Longrightarrow> finite A \<Longrightarrow> f x \<le> Max (insert (0 :: nat) (f ` A))"
  by (intro Max_ge) auto

lemma json_run_tokens:
  "length os + json_depth j \<le> maxNestingDepth \<Longrightarrow> json_run (WantValue, os) (json_tokens j) = Some (GotValue j, os)"
proof (induction j arbitrary: os rule: json_tokens.induct)
  case (5 js)
  show ?case
  proof (cases "js = []")
    case False
    have d: "Suc (length os + json_depth j) \<le> maxNestingDepth" if "j \<in> set js" for j
      using "5.prems" le_Max_image [OF that, of json_depth] by simp
    have "json_run (WantValue, os') (json_tokens j) = Some (GotValue j, os')"
      if "j \<in> set js" "length os' \<le> Suc (length os)" for j os'
      using "5.IH" [of j os'] d [of j] that by simp
    then have "json_run (WantValue, [InArr []] @ os) (join TComma (map json_tokens js))
      = Some (GotValue (last js), InArr (butlast js) # os)"
      using read_elements [of js "Suc (length os)" os "[]"] False by simp
    moreover have "join TComma (map json_tokens js) \<noteq> [] \<and> hd (join TComma (map json_tokens js)) \<noteq> TEndArr"
      using False json_tokens_start [of "hd js"] by (cases js; cases "tl js") auto
    ultimately show ?thesis
      using "5.prems" False
      by (simp add: json_step_def start_value_def json_run_append want_element end_value_def)
  qed (use "5.prems" in \<open>simp add: json_step_def start_value_def\<close>)
next
  case (6 fs)
  show ?case
  proof (cases "fs = []")
    case False
    have d: "Suc (length os + json_depth j) \<le> maxNestingDepth" if "(k, j) \<in> set fs" for k j
      using "6.prems" le_Max_image [OF that, of "\<lambda>(k, j). json_depth j"] by simp
    have "json_run (WantValue, os') (json_tokens (snd f)) = Some (GotValue (snd f), os')"
      if "f \<in> set fs" "length os' \<le> Suc (length os)" for f os'
      using "6.IH" [of f "fst f" "snd f" os'] d [of "fst f" "snd f"] that by simp
    then have "json_run (WantKey [] True, os) (join TComma (map (\<lambda>(k, j). TStr k # TColon # json_tokens j) fs))
      = Some (GotValue (snd (last fs)), InObj (butlast fs) (fst (last fs)) # os)"
      using read_fields [of fs "Suc (length os)" os "[]" True] False by simp
    then show ?thesis
      using "6.prems" False by (simp add: json_step_def start_value_def json_run_append end_value_def)
  qed (use "6.prems" in \<open>simp add: json_step_def start_value_def\<close>)
qed (simp_all add: json_step_def start_value_def)

lemma parse_print_json: "json_ok j \<Longrightarrow> json_depth j \<le> maxNestingDepth \<Longrightarrow> parse_json (print_json j) = Some j"
  using tokens_print [of j "[]"] json_run_tokens [of "[]" j] by (simp add: parse_json_def)

lemma parse_print_json_line:
  assumes "json_ok j" and "json_depth j \<le> maxNestingDepth"
  shows "parse_json (print_json j @ [CHR 0x0A]) = Some j"
proof -
  have "tokens [CHR 0x0A] = Some []" by (subst tokens.simps) (simp add: is_space_def)
  then show ?thesis
    using tokens_print [of j "[CHR 0x0A]"] json_run_tokens [of "[]" j] assms by (simp add: parse_json_def)
qed

section \<open>Strings that were read are valid\<close>

lemma rune_size_append: "rune_size a \<noteq> 0 \<Longrightarrow> rune_size (a @ b) = rune_size a"
  using rune_size_take [of a "drop (rune_size a) a @ b"] by (simp flip: append_assoc)

lemma utf8_valid_append: "utf8_valid a \<Longrightarrow> utf8_valid b \<Longrightarrow> utf8_valid (a @ b)"
proof (induction a rule: utf8_valid.induct)
  case (1 a)
  show ?case
  proof (cases "a = []")
    case False
    then have n: "rune_size a \<noteq> 0" "utf8_valid (drop (rune_size a) a)" using "1.prems"(1) by (simp_all add: utf8_valid.simps [of a] split: if_splits)
    then have "utf8_valid (drop (rune_size a) a @ b)" using 1 False by simp
    then show ?thesis
      using n False rune_size_le [of a] by (subst utf8_valid.simps) (simp add: rune_size_append)
  qed (use 1 in simp)
qed

lemma utf8_valid_rune: "rune_size s \<noteq> 0 \<Longrightarrow> utf8_valid (take (rune_size s) s)"
  using rune_size_take [of s "[]"] rune_size_le [of s] by (subst utf8_valid.simps) simp

lemma code_utf8_char [simp]: "n < 256 \<Longrightarrow> byte_val (utf8_char n) = n"
  by (simp add: utf8_char_def of_char_of)

lemma utf8_valid_one_rune: "rune_size s = length s \<Longrightarrow> s \<noteq> [] \<Longrightarrow> utf8_valid s"
  by (subst utf8_valid.simps) simp

lemma utf8_valid_replacement: "utf8_valid replacement"
  by (rule utf8_valid_one_rune)
    (simp_all add: replacement_def rune_size.simps rune_lead_def rune_trail_def in_range_def)

lemma AppendRune_three:
  assumes "2048 \<le> r" "r < 65536" "\<not> (55296 \<le> r \<and> r < 57344)"
  shows "utf8_valid (map utf8_char [224 + r div 4096, 128 + r div 64 mod 64, 128 + r mod 64])"
proof (rule utf8_valid_one_rune)
  define a b c where "a = r div 4096" and "b = r div 64 mod 64" and "c = r mod 64"
  have "r div 64 div 64 = a" unfolding a_def by (simp flip: div_mult2_eq)
  then have "r = (a * 64 + b) * 64 + c" unfolding b_def c_def by (metis div_mult_mod_eq)
  then have r: "r = 4096 * a + 64 * b + c" by simp
  have "b < 64" "c < 64" unfolding b_def c_def by simp_all
  moreover have "a < 16" using r assms by linarith
  moreover have "32 \<le> b" if "a = 0" using r assms that \<open>c < 64\<close> by linarith
  moreover have "b < 32" if "a = 13" using r assms that \<open>b < 64\<close> \<open>c < 64\<close> by (cases "55296 \<le> r"; linarith)
  ultimately
  show "rune_size (map utf8_char [224 + r div 4096, 128 + r div 64 mod 64, 128 + r mod 64])
    = length (map utf8_char [224 + r div 4096, 128 + r div 64 mod 64, 128 + r mod 64])"
    unfolding a_def [symmetric] b_def [symmetric] c_def [symmetric]
    by (auto simp: rune_size.simps rune_lead_def rune_trail_def in_range_def)
qed simp

lemma AppendRune_four:
  assumes "65536 \<le> r" "r \<le> 1114111"
  shows "utf8_valid (map utf8_char [240 + r div 262144, 128 + r div 4096 mod 64, 128 + r div 64 mod 64, 128 + r mod 64])"
proof (rule utf8_valid_one_rune)
  define a b c d where "a = r div 262144" and "b = r div 4096 mod 64" and "c = r div 64 mod 64" and "d = r mod 64"
  have "r div 64 div 64 = r div 4096" "r div 4096 div 64 = a" unfolding a_def by (simp_all flip: div_mult2_eq)
  then have "r = ((a * 64 + b) * 64 + c) * 64 + d" unfolding b_def c_def d_def by (metis div_mult_mod_eq)
  then have r: "r = 262144 * a + 4096 * b + 64 * c + d" by simp
  have "b < 64" "c < 64" "d < 64" unfolding b_def c_def d_def by simp_all
  moreover have "a < 5" using r assms by linarith
  moreover have "16 \<le> b" if "a = 0" using r assms that \<open>c < 64\<close> \<open>d < 64\<close> by linarith
  moreover have "b < 16" if "a = 4" using r assms that \<open>b < 64\<close> \<open>c < 64\<close> by linarith
  ultimately
  show "rune_size (map utf8_char [240 + r div 262144, 128 + r div 4096 mod 64, 128 + r div 64 mod 64, 128 + r mod 64])
    = length (map utf8_char [240 + r div 262144, 128 + r div 4096 mod 64, 128 + r div 64 mod 64, 128 + r mod 64])"
    unfolding a_def [symmetric] b_def [symmetric] c_def [symmetric] d_def [symmetric]
    by (cases "a = 4") (auto simp: rune_size.simps rune_lead_def rune_trail_def in_range_def)
qed simp

lemma AppendRune_two:
  assumes "128 \<le> r" "r < 2048"
  shows "utf8_valid (map utf8_char [192 + r div 64, 128 + r mod 64])"
proof (rule utf8_valid_one_rune)
  define a b where "a = r div 64" and "b = r mod 64"
  have "r = a * 64 + b" "b < 64" unfolding a_def b_def by simp_all
  with assms have "2 \<le> a" "a < 32" by linarith+
  with \<open>b < 64\<close> show "rune_size (map utf8_char [192 + r div 64, 128 + r mod 64])
    = length (map utf8_char [192 + r div 64, 128 + r mod 64])"
    unfolding a_def [symmetric] b_def [symmetric]
    by (auto simp: rune_size.simps rune_lead_def rune_trail_def in_range_def)
qed simp

lemma utf8_valid_AppendRune: "utf8_valid (AppendRune r)"
proof -
  have "utf8_valid [utf8_char r]" if "r < 128"
    using that by (simp add: utf8_valid_Cons)
  then show ?thesis
    using AppendRune_two [of r] AppendRune_three [of r] AppendRune_four [of r] utf8_valid_replacement
    unfolding AppendRune_def by auto
qed

lemma read_escape_valid: "read_escape s = Some (x, r) \<Longrightarrow> utf8_valid x"
proof -
  have "utf8_valid [utf8_char n]" if "map_of simple_escapes e = Some n" for e n
    using map_of_SomeD [OF that] by (auto simp: simple_escapes_def utf8_valid_Cons)
  then show "read_escape s = Some (x, r) \<Longrightarrow> utf8_valid x"
    by (auto simp: read_escape_def Let_def utf8_valid_AppendRune utf8_valid_replacement
        split: list.splits option.splits if_splits)
qed

lemma read_string_valid: "read_string s = Some (x, r) \<Longrightarrow> utf8_valid x"
proof (induction s arbitrary: x r rule: read_string.induct)
  case (2 c s)
  then show ?case
    by (auto simp: read_string.simps(2) split: if_splits option.splits
        intro!: utf8_valid_append intro: read_escape_valid utf8_valid_replacement utf8_valid_rune)
qed simp

fun json_valid :: "json \<Rightarrow> bool" where
  "json_valid (JStr s) = utf8_valid s"
| "json_valid (JArr js) = list_all json_valid js"
| "json_valid (JObj fs) = list_all (\<lambda>(k, j). json_valid j) fs"
| "json_valid _ = True"

definition token_valid :: "token \<Rightarrow> bool" where
  "token_valid t = (case t of TStr s \<Rightarrow> utf8_valid s | _ \<Rightarrow> True)"

lemma read_literal_valid: "read_literal s = Some (t, r) \<Longrightarrow> token_valid t"
  by (auto simp: read_literal_def literals_def token_valid_def split: if_splits)

lemma punctuation_valid: "map_of punctuation c = Some t \<Longrightarrow> token_valid t"
  by (drule map_of_SomeD) (auto simp: punctuation_def token_valid_def)

lemma read_token_valid:
  assumes "read_token s = Some (t, r)"
  shows "token_valid t"
proof (cases s)
  case (Cons c s')
  show ?thesis
  proof (cases "map_of punctuation c")
    case None
    then consider x where "t = TStr x" "read_string s' = Some (x, r)" | x where "t = TNum x" | "read_literal s = Some (t, r)"
      using assms Cons by (auto simp: read_token_def split: if_splits)
    then show ?thesis by cases (auto simp: token_valid_def dest: read_string_valid read_literal_valid)
  qed (use assms Cons in \<open>simp add: read_token_def punctuation_valid\<close>)
qed (use assms in \<open>simp add: read_token_def\<close>)

lemma tokens_valid: "tokens s = Some ts \<Longrightarrow> list_all token_valid ts"
proof (induction s arbitrary: ts rule: tokens.induct)
  case (1 s)
  show ?case
    using 1 by (subst (asm) (3) tokens.simps) (auto split: list.splits if_splits option.splits dest: read_token_valid)
qed

fun opened_valid :: "opened \<Rightarrow> bool" where
  "opened_valid (InArr js) = list_all json_valid js"
| "opened_valid (InObj fs k) = list_all (\<lambda>(k, j). json_valid j) fs"

fun reader_valid :: "reader \<Rightarrow> bool" where
  "reader_valid (WantKey fs st) = list_all (\<lambda>(k, j). json_valid j) fs"
| "reader_valid (WantColon fs k) = list_all (\<lambda>(k, j). json_valid j) fs"
| "reader_valid (GotValue v) = json_valid v"
| "reader_valid _ = True"

lemma start_value_valid:
  "start_value t os = Some (r, os') \<Longrightarrow> token_valid t \<Longrightarrow> list_all opened_valid os \<Longrightarrow> reader_valid r \<and> list_all opened_valid os'"
  by (cases t) (auto simp: start_value_def token_valid_def split: if_splits)

lemma end_value_valid:
  "end_value v t os = Some (r, os') \<Longrightarrow> json_valid v \<Longrightarrow> list_all opened_valid os \<Longrightarrow> reader_valid r \<and> list_all opened_valid os'"
  by (auto simp: end_value_def split: list.splits opened.splits if_splits)

lemma json_step_valid:
  assumes step: "json_step t (r, os) = Some (r', os')" and ok: "token_valid t" "reader_valid r" "list_all opened_valid os"
  shows "reader_valid r' \<and> list_all opened_valid os'"
proof (cases r)
  case WantElement
  then have "json_step t (r, os) =
    (if t = TEndArr \<and> os \<noteq> [] \<and> hd os = InArr [] then Some (GotValue (JArr []), tl os) else start_value t os)"
    by (simp add: json_step_def split: list.split opened.split)
  moreover have "list_all opened_valid (tl os)" using ok by (cases os) simp_all
  ultimately show ?thesis
    using step ok start_value_valid [of t os r' os']
    by (cases "t = TEndArr \<and> os \<noteq> [] \<and> hd os = InArr []") auto
next
  case (WantKey fs st)
  then show ?thesis using step ok by (cases t) (auto simp: json_step_def split: if_splits)
qed (use step ok start_value_valid end_value_valid in \<open>auto simp: json_step_def split: if_splits\<close>)

lemma json_run_valid:
  "json_run (r, os) ts = Some (r', os') \<Longrightarrow> list_all token_valid ts \<Longrightarrow> reader_valid r \<Longrightarrow> list_all opened_valid os
    \<Longrightarrow> reader_valid r' \<and> list_all opened_valid os'"
proof (induction ts arbitrary: r os)
  case (Cons t ts)
  then obtain r1 os1 where "json_step t (r, os) = Some (r1, os1)" "json_run (r1, os1) ts = Some (r', os')"
    by (auto split: option.splits)
  with Cons json_step_valid [of t r os r1 os1] show ?case by simp
qed simp

lemma parse_json_valid: "parse_json s = Some j \<Longrightarrow> json_valid j"
  using json_run_valid [of WantValue "[]"]
  by (fastforce simp: parse_json_def dest: tokens_valid split: option.splits reader.splits list.splits prod.splits)

end
