(* ===== verification/Message.thy ===== *)
theory Message
  imports Wire JsonRound
begin

text \<open>
  The text of the messages of \<open>src/internal/wire/wire.go\<close>: \<open>json.Marshal\<close> and \<open>json.Unmarshal\<close> of a struct, driven by the
  names of its tags, and each message as its fields. \<open>Encode\<close> is what the keeper publishes and replies with; the
  \<open>Unmarshal\<close> functions are what the bus reads.
\<close>

section \<open>Structs\<close>

text \<open>
  A field has its name in JSON and whether it is left out when empty. The strings of a slice are its length and the
  array behind it, which a later decoding into the same slice writes over.
\<close>

type_synonym fields = "(string \<times> bool) list"

datatype goval = VInt int | VUint u64 | VString string | VBool bool | VStrings nat "string list"

fun goval_zero :: "goval \<Rightarrow> goval" where
  "goval_zero (VInt _) = VInt 0"
| "goval_zero (VUint _) = VUint 0"
| "goval_zero (VString _) = VString []"
| "goval_zero (VBool _) = VBool False"
| "goval_zero (VStrings _ _) = VStrings 0 []"

fun goval_empty :: "goval \<Rightarrow> bool" where
  "goval_empty (VInt i) = (i = 0)"
| "goval_empty (VUint w) = (w = 0)"
| "goval_empty (VString s) = (s = [])"
| "goval_empty (VBool b) = (\<not> b)"
| "goval_empty (VStrings n _) = (n = 0)"

fun goval_json :: "goval \<Rightarrow> json" where
  "goval_json (VInt i) = JNum (FormatInt i)"
| "goval_json (VUint w) = JNum (FormatUint w)"
| "goval_json (VString s) = JStr s"
| "goval_json (VBool b) = JBool b"
| "goval_json (VStrings n ss) = JArr (map JStr (take n ss))"

fun marshal_fields :: "fields \<Rightarrow> goval list \<Rightarrow> (string \<times> json) list" where
  "marshal_fields ((n, omit) # fs) (v # vs) =
     (if omit \<and> goval_empty v then [] else [(n, goval_json v)]) @ marshal_fields fs vs"
| "marshal_fields _ _ = []"

definition Encode :: "fields \<Rightarrow> goval list \<Rightarrow> byte list" where
  "Encode fs vs = bytes_of_string (print_json (JObj (marshal_fields fs vs)))"

text \<open>
  Names match exactly, or else without regard to case: \<open>foldName\<close>, which also takes the long s and the Kelvin sign for
  the letters S and K.
\<close>

function fold_name :: "string \<Rightarrow> string" where
  "fold_name [] = []"
| "fold_name (c # s) =
     (if take 2 (c # s) = map utf8_char [197, 191] then CHR ''S'' # fold_name (drop 1 s)
      else if take 3 (c # s) = map utf8_char [226, 132, 170] then CHR ''K'' # fold_name (drop 2 s)
      else (if in_range 97 122 c then char_of (byte_val c - 32) else c) # fold_name s)"
  by pat_completeness auto
termination
  by (relation "measure length") auto

definition field_index :: "fields \<Rightarrow> string \<Rightarrow> nat option" where
  "field_index fs k =
     (case find (\<lambda>i. fst (fs ! i) = k) [0..<length fs] of
        Some i \<Rightarrow> Some i
      | None \<Rightarrow> find (\<lambda>i. fold_name (fst (fs ! i)) = fold_name k) [0..<length fs])"

text \<open>A value of another type leaves the field as it was and makes the call fail; \<open>null\<close> leaves it as it was.\<close>

fun store_elements :: "json list \<Rightarrow> string list \<Rightarrow> string list \<times> bool" where
  "store_elements [] old = ([], True)"
| "store_elements (j # js) old =
     (let e = (case old of [] \<Rightarrow> [] | x # _ \<Rightarrow> x);
          (e, ok) = (case j of JStr s \<Rightarrow> (s, True) | JNull \<Rightarrow> (e, True) | _ \<Rightarrow> (e, False));
          (es, oks) = store_elements js (tl old)
      in (e # es, ok \<and> oks))"

definition store_value :: "json \<Rightarrow> goval \<Rightarrow> goval \<times> bool" where
  "store_value j v =
     (case j of
        JNull \<Rightarrow> ((case v of VStrings _ _ \<Rightarrow> VStrings 0 [] | _ \<Rightarrow> v), True)
      | JBool b \<Rightarrow> (case v of VBool _ \<Rightarrow> (VBool b, True) | _ \<Rightarrow> (v, False))
      | JStr s \<Rightarrow> (case v of VString _ \<Rightarrow> (VString s, True) | _ \<Rightarrow> (v, False))
      | JNum l \<Rightarrow>
          (case v of
             VInt _ \<Rightarrow> (case ParseInt10 l of Some i \<Rightarrow> (VInt i, True) | None \<Rightarrow> (v, False))
           | VUint _ \<Rightarrow> (case ParseUint 10 l of Some n \<Rightarrow> (VUint (of_nat n), True) | None \<Rightarrow> (v, False))
           | _ \<Rightarrow> (v, False))
      | JArr js \<Rightarrow>
          (case v of
             VStrings n old \<Rightarrow>
               if js = [] then (VStrings 0 [], True)
               else let (es, ok) = store_elements js old in (VStrings (length js) (es @ drop (length js) old), ok)
           | _ \<Rightarrow> (v, False))
      | JObj _ \<Rightarrow> (v, False))"

fun unmarshal_object :: "fields \<Rightarrow> (string \<times> json) list \<Rightarrow> goval list \<Rightarrow> goval list \<times> bool" where
  "unmarshal_object fs [] vs = (vs, True)"
| "unmarshal_object fs ((k, j) # kjs) vs =
     (case field_index fs k of
        None \<Rightarrow> unmarshal_object fs kjs vs
      | Some i \<Rightarrow>
          let (v, ok) = store_value j (vs ! i); (vs', oks) = unmarshal_object fs kjs (vs[i := v])
          in (vs', ok \<and> oks))"

definition Unmarshal :: "fields \<Rightarrow> byte list \<Rightarrow> goval list \<Rightarrow> goval list \<times> bool" where
  "Unmarshal fs data vs =
     (case parse_json (string_of_bytes data) of
        Some (JObj kjs) \<Rightarrow> unmarshal_object fs kjs vs
      | Some JNull \<Rightarrow> (vs, True)
      | _ \<Rightarrow> (vs, False))"

section \<open>What is written is read\<close>

definition goval_ok :: "goval \<Rightarrow> bool" where
  "goval_ok v =
     (case v of
        VInt i \<Rightarrow> int64_range i
      | VString s \<Rightarrow> utf8_valid s
      | VStrings n ss \<Rightarrow> n = length ss \<and> list_all utf8_valid ss
      | _ \<Rightarrow> True)"

lemma goval_json_ok: "goval_ok v \<Longrightarrow> json_ok (goval_json v)"
  by (cases v) (auto simp: goval_ok_def list_all_iff)

lemma goval_json_depth: "json_depth (goval_json v) \<le> 1"
  by (cases v) (auto simp: image_image image_constant_conv)

lemma goval_json_depth' [simp]: "json_depth (goval_json v) \<le> Suc 0"
  using goval_json_depth by simp

lemma goval_empty_zero: "goval_ok v \<Longrightarrow> goval_empty v \<Longrightarrow> goval_zero v = v"
  by (cases v) (auto simp: goval_ok_def)

lemma store_elements_strings: "store_elements (map JStr ss) old = (ss, True)"
  by (induction ss arbitrary: old) simp_all

lemma store_value_json: "goval_ok v \<Longrightarrow> store_value (goval_json v) (goval_zero v) = (v, True)"
  by (cases v)
    (auto simp: store_value_def goval_ok_def ParseInt10_FormatInt store_elements_strings)

lemma field_index_exact:
  assumes "distinct (map fst fs)" "i < length fs"
  shows "field_index fs (fst (fs ! i)) = Some i"
proof -
  have "j = i" if "fst (fs ! j) = fst (fs ! i)" "j < length fs" for j
    using that assms nth_eq_iff_index_eq [of "map fst fs" j i] by simp
  then have "find (\<lambda>j. fst (fs ! j) = fst (fs ! i)) [0..<length fs] = Some i"
    using assms by (fastforce simp: find_Some_iff)
  then show ?thesis by (simp add: field_index_def)
qed

lemma marshal_fields_ok:
  assumes "length fs = length vs" and "list_all (\<lambda>f. utf8_valid (fst f)) fs" and "list_all goval_ok vs"
  shows "json_ok (JObj (marshal_fields fs vs))" and "json_depth (JObj (marshal_fields fs vs)) \<le> maxNestingDepth"
proof -
  have "list_all (\<lambda>(k, j). utf8_valid k \<and> json_ok j \<and> json_depth j \<le> 1) (marshal_fields fs vs)"
    using assms
    by (induction fs vs rule: list_induct2) (auto simp: goval_json_ok)
  then have j: "\<And>k j. (k, j) \<in> set (marshal_fields fs vs) \<Longrightarrow> utf8_valid k \<and> json_ok j \<and> json_depth j \<le> 1"
    by (auto simp: list_all_iff)
  then show "json_ok (JObj (marshal_fields fs vs))" by (auto simp: list_all_iff)
  have "Max (insert 0 ((\<lambda>(k, j). json_depth j) ` set (marshal_fields fs vs))) \<le> 1" using j by auto
  then show "json_depth (JObj (marshal_fields fs vs)) \<le> maxNestingDepth"
    unfolding maxNestingDepth_def json_depth.simps set_map by linarith
qed

lemma unmarshal_marshal:
  assumes "length gs = length ws" and "distinct (map fst (fs @ gs))" and "length fs = length vs" and "list_all goval_ok ws"
  shows "unmarshal_object (fs @ gs) (marshal_fields gs ws) (vs @ map goval_zero ws) = (vs @ ws, True)"
  using assms
proof (induction gs ws arbitrary: fs vs rule: list_induct2)
  case (Cons g gs w ws)
  obtain n omit where g: "g = (n, omit)" by (cases g)
  have i: "field_index (fs @ g # gs) n = Some (length fs)"
    using field_index_exact [of "fs @ g # gs" "length fs"] Cons.prems g by (simp add: nth_append)
  have "unmarshal_object ((fs @ [g]) @ gs) (marshal_fields gs ws) ((vs @ [w]) @ map goval_zero ws) = ((vs @ [w]) @ ws, True)"
    using Cons by (intro Cons.IH) auto
  moreover have "store_value (goval_json w) (goval_zero w) = (w, True)"
    using Cons.prems by (simp add: store_value_json)
  ultimately show ?case
    using Cons.prems i g goval_empty_zero [of w] by (auto simp: nth_append)
qed simp

lemma Unmarshal_Encode:
  assumes "length fs = length vs" and "distinct (map fst fs)" and "list_all (\<lambda>f. utf8_valid (fst f)) fs"
    and "list_all goval_ok vs"
  shows "Unmarshal fs (Encode fs vs) (map goval_zero vs) = (vs, True)"
proof -
  have "parse_json (print_json (JObj (marshal_fields fs vs))) = Some (JObj (marshal_fields fs vs))"
    using assms by (intro parse_print_json marshal_fields_ok)
  then show ?thesis
    using assms unmarshal_marshal [of fs vs "[]" "[]"] by (simp add: Unmarshal_def Encode_def)
qed

section \<open>The messages\<close>

fun v_int :: "goval \<Rightarrow> int" where "v_int (VInt i) = i" | "v_int _ = 0"
fun v_uint :: "goval \<Rightarrow> u64" where "v_uint (VUint w) = w" | "v_uint _ = 0"
fun v_string :: "goval \<Rightarrow> string" where "v_string (VString s) = s" | "v_string _ = []"
fun v_bool :: "goval \<Rightarrow> bool" where "v_bool (VBool b) = b" | "v_bool _ = False"
fun v_strings :: "goval \<Rightarrow> string list" where "v_strings (VStrings n ss) = take n ss" | "v_strings _ = []"

record snapshot_request =
  sq_From :: string

record define_request =
  dq_Name :: string

record lookup_request =
  lq_Set :: string
  lq_Value :: string

datatype wire_message =
    MFrame frame
  | MSnapshotRequest snapshot_request
  | MEvent event
  | MEventReply event_reply
  | MDefineRequest define_request
  | MDefineReply define_reply
  | MLookupRequest lookup_request
  | MLookupReply lookup_reply

definition frame_fields :: fields where
  "frame_fields = [(''v'', False), (''set'', False), (''epoch'', False), (''seq'', False), (''op'', False), (''hash'', True),
     (''key'', True), (''package'', True), (''inline'', True), (''object'', True), (''count'', True), (''bytes'', True),
     (''ttl'', True)]"

definition frame_values :: "frame \<Rightarrow> goval list" where
  "frame_values f = [VInt (f_V f), VString (f_Set f), VString (f_Epoch f), VUint (f_Seq f), VString (f_Op f),
     VString (f_Hash f), VString (f_Key f), VString (f_Package f), VString (f_Inline f), VString (f_Object f),
     VInt (f_Count f), VInt (f_Bytes f), VInt (f_TTL f)]"

definition frame_from :: "goval list \<Rightarrow> frame" where
  "frame_from vs = \<lparr>f_V = v_int (vs ! 0), f_Set = v_string (vs ! 1), f_Epoch = v_string (vs ! 2), f_Seq = v_uint (vs ! 3),
     f_Op = v_string (vs ! 4), f_Hash = v_string (vs ! 5), f_Key = v_string (vs ! 6), f_Package = v_string (vs ! 7),
     f_Inline = v_string (vs ! 8), f_Object = v_string (vs ! 9), f_Count = v_int (vs ! 10), f_Bytes = v_int (vs ! 11),
     f_TTL = v_int (vs ! 12)\<rparr>"

definition event_fields :: fields where
  "event_fields = [(''v'', False), (''set'', False), (''op'', False), (''value'', False), (''values'', True), (''ttl'', False),
     (''origin'', False), (''reason'', False), (''forever'', True), (''hashed'', True)]"

definition event_values :: "event \<Rightarrow> goval list" where
  "event_values e = [VInt (ev_V e), VString (ev_Set e), VString (ev_Op e), VString (ev_Value e),
     VStrings (length (ev_Values e)) (ev_Values e), VInt (ev_TTL e), VString (ev_Origin e), VString (ev_Reason e),
     VBool (ev_Forever e), VBool (ev_Hashed e)]"

definition event_from :: "goval list \<Rightarrow> event" where
  "event_from vs = \<lparr>ev_V = v_int (vs ! 0), ev_Set = v_string (vs ! 1), ev_Op = v_string (vs ! 2), ev_Value = v_string (vs ! 3),
     ev_Values = v_strings (vs ! 4), ev_TTL = v_int (vs ! 5), ev_Origin = v_string (vs ! 6), ev_Reason = v_string (vs ! 7),
     ev_Forever = v_bool (vs ! 8), ev_Hashed = v_bool (vs ! 9)\<rparr>"

definition event_reply_fields :: fields where
  "event_reply_fields = [(''ok'', False), (''seq'', True), (''epoch'', True), (''error'', True), (''limit'', True)]"

definition event_reply_values :: "event_reply \<Rightarrow> goval list" where
  "event_reply_values r = [VBool (er_OK r), VUint (er_Seq r), VString (er_Epoch r), VString (er_Error r), VInt (er_Limit r)]"

definition event_reply_from :: "goval list \<Rightarrow> event_reply" where
  "event_reply_from vs = \<lparr>er_OK = v_bool (vs ! 0), er_Seq = v_uint (vs ! 1), er_Epoch = v_string (vs ! 2),
     er_Error = v_string (vs ! 3), er_Limit = v_int (vs ! 4)\<rparr>"

definition define_reply_fields :: fields where
  "define_reply_fields = [(''ok'', False), (''epoch'', True), (''error'', True)]"

definition define_reply_values :: "define_reply \<Rightarrow> goval list" where
  "define_reply_values r = [VBool (dr_OK r), VString (dr_Epoch r), VString (dr_Error r)]"

definition define_reply_from :: "goval list \<Rightarrow> define_reply" where
  "define_reply_from vs = \<lparr>dr_OK = v_bool (vs ! 0), dr_Epoch = v_string (vs ! 1), dr_Error = v_string (vs ! 2)\<rparr>"

definition lookup_request_fields :: fields where
  "lookup_request_fields = [(''set'', False), (''value'', False)]"

definition lookup_reply_fields :: fields where
  "lookup_reply_fields = [(''ok'', False), (''found'', False), (''exp'', True), (''error'', True)]"

definition lookup_reply_values :: "lookup_reply \<Rightarrow> goval list" where
  "lookup_reply_values r = [VBool (lr_OK r), VBool (lr_Found r), VInt (lr_Exp r), VString (lr_Error r)]"

definition lookup_reply_from :: "goval list \<Rightarrow> lookup_reply" where
  "lookup_reply_from vs = \<lparr>lr_OK = v_bool (vs ! 0), lr_Found = v_bool (vs ! 1), lr_Exp = v_int (vs ! 2), lr_Error = v_string (vs ! 3)\<rparr>"

fun message_fields :: "wire_message \<Rightarrow> fields" where
  "message_fields (MFrame _) = frame_fields"
| "message_fields (MSnapshotRequest _) = [(''from'', False)]"
| "message_fields (MEvent _) = event_fields"
| "message_fields (MEventReply _) = event_reply_fields"
| "message_fields (MDefineRequest _) = [(''name'', False)]"
| "message_fields (MDefineReply _) = define_reply_fields"
| "message_fields (MLookupRequest _) = lookup_request_fields"
| "message_fields (MLookupReply _) = lookup_reply_fields"

fun message_values :: "wire_message \<Rightarrow> goval list" where
  "message_values (MFrame f) = frame_values f"
| "message_values (MSnapshotRequest r) = [VString (sq_From r)]"
| "message_values (MEvent e) = event_values e"
| "message_values (MEventReply r) = event_reply_values r"
| "message_values (MDefineRequest r) = [VString (dq_Name r)]"
| "message_values (MDefineReply r) = define_reply_values r"
| "message_values (MLookupRequest r) = [VString (lq_Set r), VString (lq_Value r)]"
| "message_values (MLookupReply r) = lookup_reply_values r"

text \<open>The message of the same type with the given field values.\<close>

fun message_with :: "wire_message \<Rightarrow> goval list \<Rightarrow> wire_message" where
  "message_with (MFrame _) vs = MFrame (frame_from vs)"
| "message_with (MSnapshotRequest _) vs = MSnapshotRequest \<lparr>sq_From = v_string (vs ! 0)\<rparr>"
| "message_with (MEvent _) vs = MEvent (event_from vs)"
| "message_with (MEventReply _) vs = MEventReply (event_reply_from vs)"
| "message_with (MDefineRequest _) vs = MDefineRequest \<lparr>dq_Name = v_string (vs ! 0)\<rparr>"
| "message_with (MDefineReply _) vs = MDefineReply (define_reply_from vs)"
| "message_with (MLookupRequest _) vs = MLookupRequest \<lparr>lq_Set = v_string (vs ! 0), lq_Value = v_string (vs ! 1)\<rparr>"
| "message_with (MLookupReply _) vs = MLookupReply (lookup_reply_from vs)"

definition wire_Encode :: "wire_message \<Rightarrow> byte list" where
  "wire_Encode m = Encode (message_fields m) (message_values m)"

text \<open>\<open>json.Unmarshal\<close> into a variable that has its zero value, of the type of \<open>m\<close>; the flag tells that no error came.\<close>

definition wire_Unmarshal :: "wire_message \<Rightarrow> byte list \<Rightarrow> wire_message \<times> bool" where
  "wire_Unmarshal m data =
     (let (vs, ok) = Unmarshal (message_fields m) data (map goval_zero (message_values m)) in (message_with m vs, ok))"

text \<open>A variable of a request type before it is decoded into, and what the handlers read.\<close>

definition zero_event :: event where
  "zero_event = \<lparr>ev_V = 0, ev_Set = [], ev_Op = [], ev_Value = [], ev_Values = [], ev_TTL = 0, ev_Origin = [], ev_Reason = [],
     ev_Forever = False, ev_Hashed = False\<rparr>"

definition Unmarshal_event :: "byte list \<Rightarrow> event option" where
  "Unmarshal_event data = (case wire_Unmarshal (MEvent zero_event) data of (MEvent ev, True) \<Rightarrow> Some ev | _ \<Rightarrow> None)"

definition Unmarshal_define :: "byte list \<Rightarrow> define_request option" where
  "Unmarshal_define data =
     (case wire_Unmarshal (MDefineRequest \<lparr>dq_Name = []\<rparr>) data of (MDefineRequest r, True) \<Rightarrow> Some r | _ \<Rightarrow> None)"

definition Unmarshal_lookup :: "byte list \<Rightarrow> lookup_request option" where
  "Unmarshal_lookup data =
     (case wire_Unmarshal (MLookupRequest \<lparr>lq_Set = [], lq_Value = []\<rparr>) data of (MLookupRequest r, True) \<Rightarrow> Some r | _ \<Rightarrow> None)"

fun message_ok :: "wire_message \<Rightarrow> bool" where
  "message_ok m = list_all goval_ok (message_values m)"

lemma ascii_valid: "list_all (\<lambda>c. byte_val c < 128) s \<Longrightarrow> utf8_valid s"
  by (induction s) (simp_all add: utf8_valid_Cons)

lemmas struct_defs = frame_fields_def frame_values_def frame_from_def event_fields_def event_values_def event_from_def
  event_reply_fields_def event_reply_values_def event_reply_from_def define_reply_fields_def define_reply_values_def
  define_reply_from_def lookup_request_fields_def lookup_reply_fields_def lookup_reply_values_def lookup_reply_from_def

lemma message_fields_ok:
  "length (message_fields m) = length (message_values m)" "distinct (map fst (message_fields m))"
  "list_all (\<lambda>f. utf8_valid (fst f)) (message_fields m)"
  by (cases m; simp add: struct_defs ascii_valid)+

lemma message_with_values: "message_with m (message_values m) = m"
  by (cases m) (simp_all add: struct_defs)

lemma wire_Unmarshal_Encode: "message_ok m \<Longrightarrow> wire_Unmarshal m (wire_Encode m) = (m, True)"
  by (simp add: wire_Unmarshal_def wire_Encode_def Unmarshal_Encode message_fields_ok message_with_values)

section \<open>What is read is well-formed\<close>

text \<open>A value in the making: numbers in range and strings valid, those behind a slice included.\<close>

definition goval_read :: "goval \<Rightarrow> bool" where
  "goval_read v =
     (case v of
        VInt i \<Rightarrow> int64_range i
      | VString s \<Rightarrow> utf8_valid s
      | VStrings n ss \<Rightarrow> n \<le> length ss \<and> list_all utf8_valid ss
      | _ \<Rightarrow> True)"

lemma store_elements_read:
  "store_elements js old = (es, ok) \<Longrightarrow> list_all json_valid js \<Longrightarrow> list_all utf8_valid old
    \<Longrightarrow> length es = length js \<and> list_all utf8_valid es"
proof (induction js arbitrary: old es ok)
  case (Cons j js)
  have "list_all utf8_valid (tl old)" using Cons.prems by (cases old) simp_all
  then show ?case
    using Cons by (cases j) (auto simp: Let_def split: prod.splits list.splits)
qed simp

lemma store_value_read: "json_valid j \<Longrightarrow> goval_read v \<Longrightarrow> goval_read (fst (store_value j v))"
proof (cases "\<exists>js n old. j = JArr js \<and> v = VStrings n old")
  case True
  assume r: "json_valid j" "goval_read v"
  from True obtain js n old where j: "j = JArr js" "v = VStrings n old" by blast
  obtain es ok where e: "store_elements js old = (es, ok)" by fastforce
  have "list_all utf8_valid (drop (length js) old)" using r j by (simp add: goval_read_def list_all_iff) (meson in_set_dropD)
  then show ?thesis
    using r j e store_elements_read [OF e] by (auto simp: store_value_def goval_read_def)
next
  case False
  assume "json_valid j" "goval_read v"
  with False show ?thesis
    by (cases j; cases v) (auto simp: store_value_def goval_read_def ParseInt10_range split: option.splits)
qed

lemma unmarshal_object_read:
  assumes "list_all (\<lambda>(k, j). json_valid j) kjs" "list_all goval_read vs" "length fs = length vs"
  shows "list_all goval_read (fst (unmarshal_object fs kjs vs)) \<and> length (fst (unmarshal_object fs kjs vs)) = length vs"
  using assms
proof (induction kjs arbitrary: vs)
  case (Cons kj kjs)
  obtain k j where kj: "kj = (k, j)" by (cases kj)
  show ?case
  proof (cases "field_index fs k")
    case None
    then show ?thesis using Cons kj by simp
  next
    case (Some i)
    then have "i < length vs"
      using Cons.prems(3) by (auto simp: field_index_def find_Some_iff split: option.splits)
    then have "list_all goval_read (vs[i := fst (store_value j (vs ! i))])"
      using Cons.prems kj by (auto simp: list_all_length nth_list_update store_value_read)
    with Cons.IH [of "vs[i := fst (store_value j (vs ! i))]"] show ?thesis
      using Cons.prems kj Some by (simp add: case_prod_beta Let_def)
  qed
qed simp

lemma Unmarshal_read:
  assumes "list_all goval_read vs" "length fs = length vs"
  shows "list_all goval_read (fst (Unmarshal fs data vs)) \<and> length (fst (Unmarshal fs data vs)) = length vs"
proof (cases "parse_json (string_of_bytes data)")
  case (Some j)
  then show ?thesis
    using assms parse_json_valid [OF Some] unmarshal_object_read [OF _ assms]
    by (cases j) (simp_all add: Unmarshal_def)
qed (use assms in \<open>simp add: Unmarshal_def\<close>)

lemma goval_read_parts:
  assumes "list_all goval_read vs" "i < length vs"
  shows "int64_range (v_int (vs ! i))" "utf8_valid (v_string (vs ! i))" "list_all utf8_valid (v_strings (vs ! i))"
proof -
  have "goval_read (vs ! i)" using assms by (simp add: list_all_length)
  then show "int64_range (v_int (vs ! i))" "utf8_valid (v_string (vs ! i))" "list_all utf8_valid (v_strings (vs ! i))"
    by (cases "vs ! i"; auto simp: goval_read_def int64_range_def list_all_iff dest: in_set_takeD)+
qed

lemma wire_Unmarshal_ok: "message_ok (fst (wire_Unmarshal m data))"
proof -
  let ?vs = "fst (Unmarshal (message_fields m) data (map goval_zero (message_values m)))"
  have "goval_read (goval_zero v)" for v by (cases v) (simp_all add: goval_read_def int64_range_def)
  then have "list_all goval_read ?vs \<and> length ?vs = length (message_values m)"
    using Unmarshal_read [of "map goval_zero (message_values m)" "message_fields m" data]
    by (simp add: list_all_iff message_fields_ok)
  then have p: "i < length (message_values m) \<Longrightarrow> int64_range (v_int (?vs ! i)) \<and> utf8_valid (v_string (?vs ! i))
    \<and> list_all utf8_valid (v_strings (?vs ! i))" for i
    by (simp add: goval_read_parts)
  have "message_ok (message_with m ?vs)"
    using p by (cases m) (simp_all add: struct_defs goval_ok_def)
  then show ?thesis by (simp add: wire_Unmarshal_def case_prod_beta)
qed

section \<open>Property\<close>

text \<open>
  C28: Messages survive the wire. For every type of message of \<open>wire.go\<close>, decoding what \<open>Encode\<close> writes gives the message
  back, without an error, when its strings are valid UTF-8 and its signed numbers fit 64 bits; and whatever bytes arrive,
  in error or not, a message that was decoded is of that kind.
\<close>

theorem Encode_roundtrip:
  "(message_ok m \<longrightarrow> wire_Unmarshal m (wire_Encode m) = (m, True)) \<and> message_ok (fst (wire_Unmarshal m data))"
  using wire_Unmarshal_Encode [of m] wire_Unmarshal_ok [of m data] by blast

theorem Encode_roundtrip_witness:
  "wire_Unmarshal (MEventReply (event_error ''full'')) (wire_Encode (MEventReply (event_error ''full'')))
     = (MEventReply (event_error ''full''), True)"
proof -
  have "message_ok (MEventReply (event_error ''full''))"
    by (simp add: event_error_def event_reply_values_def goval_ok_def int64_range_def ascii_valid)
  then show ?thesis using Encode_roundtrip [of "MEventReply (event_error ''full'')" "[]"] by blast
qed

end
