(* ===== verification/Service.thy ===== *)
theory Service
  imports KeeperSets Config Message
begin

text \<open>
  The service around the keeper: the message handlers of \<open>src/internal/bus/bus.go\<close>, the pulse of
  \<open>src/internal/pulse/pulse.go\<close> and \<open>src/cmd/keeper/version.go\<close>, the HTTP handler of
  \<open>src/internal/httpapi/httpapi.go\<close> and the start of the process in \<open>src/cmd/keeper/main.go\<close>. NATS, the
  frame of the shared pulse library and the outcomes of the connections are arguments. Requests and replies are
  bytes, as NATS carries them, and so are the bodies of the HTTP responses.
\<close>

section \<open>bus\<close>

record msg =
  mg_Subject :: string
  mg_Reply :: string
  mg_Data :: "byte list"

definition bus_prefix :: string where "bus_prefix = ''waf.sets.''"
definition eventTimeout :: int where "eventTimeout = 5 * Second"
definition eventInflight :: nat where "eventInflight = 1024"

definition setOf :: "string \<Rightarrow> string" where
  "setOf subject = (let parts = Split (CHR ''.'') subject in if length parts < 3 then [] else parts ! 2)"

text \<open>The replies sent, each with the inbox it goes to.\<close>

definition bus_reply :: "msg \<Rightarrow> wire_message \<Rightarrow> (string \<times> byte list) list" where
  "bus_reply m v = (if mg_Reply m = [] then [] else [(mg_Reply m, wire_Encode v)])"

text \<open>\<open>Publish\<close>: the message handed to NATS, whose error is only logged.\<close>

definition bus_Publish :: "string \<Rightarrow> byte list \<Rightarrow> string \<times> byte list" where
  "bus_Publish setName body = (bus_prefix @ setName, body)"

definition define_error :: "string \<Rightarrow> define_reply" where
  "define_error code = \<lparr>dr_OK = False, dr_Epoch = [], dr_Error = code\<rparr>"

text \<open>
  The goroutine of \<open>onEvent\<close>: the reply, or \<open>None\<close> while the job is in the queue. \<open>at\<close> is the time at
  which the context is made.
\<close>

definition event_name :: "msg \<Rightarrow> event \<Rightarrow> string" where
  "event_name m ev = (if setOf (mg_Subject m) = [] then ev_Set ev else setOf (mg_Subject m))"

definition onEvent_run ::
  "msg \<Rightarrow> int \<Rightarrow> int \<Rightarrow> nat \<Rightarrow> queue_select \<Rightarrow> keeper \<Rightarrow> keeper \<times> event_reply option" where
  "onEvent_run m at now rid sel k =
     (case Unmarshal_event (mg_Data m) of
        None \<Rightarrow> (k, Some (event_error ErrBadRequest))
      | Some ev \<Rightarrow> keeper_Submit (event_name m ev) ev now rid (Some (at + eventTimeout)) sel k)"

text \<open>The set of a snapshot request comes from the subject; its body is decoded and not used.\<close>

definition onSnapshot ::
  "'r store \<Rightarrow> msg \<Rightarrow> string list \<Rightarrow> int \<Rightarrow> int \<Rightarrow> keeper \<Rightarrow> 'r \<Rightarrow> keeper \<times> 'r \<times> (string \<times> byte list) list" where
  "onSnapshot st m order now at k r =
     (let (k', r', f) = keeper_Snapshot st (setOf (mg_Subject m)) order now at k r
      in (k', r', bus_reply m (MFrame f)))"

definition onDefine ::
  "(string \<Rightarrow> answer_rows) \<Rightarrow> 'r store \<Rightarrow> msg \<Rightarrow> newset \<times> newset
   \<Rightarrow> ((string, holder) fmap \<Rightarrow> string list) \<Rightarrow> keeper \<times> 'r \<Rightarrow> (keeper \<times> 'r) \<times> (string \<times> byte list) list" where
  "onDefine query st m w ord kr =
     (case Unmarshal_define (mg_Data m) of
        None \<Rightarrow> (kr, bus_reply m (MDefineReply (define_error ErrBadRequest)))
      | Some req \<Rightarrow>
          if dq_Name req = [] then (kr, bus_reply m (MDefineReply (define_error ErrBadRequest)))
          else let (kr', d) = keeper_Define st (LoadDefinition (query (dq_Name req))) (dq_Name req) w ord kr
               in (kr', bus_reply m (MDefineReply d)))"

definition onReload ::
  "answer_rows \<Rightarrow> 'r store \<Rightarrow> msg \<Rightarrow> (nat \<Rightarrow> newset \<times> newset) \<Rightarrow> ((string, holder) fmap \<Rightarrow> string list) \<Rightarrow> keeper \<times> 'r
   \<Rightarrow> (keeper \<times> 'r) \<times> (string \<times> byte list) list" where
  "onReload rows st m w ord kr =
     (let (kr', ok) = keeper_Reload st (LoadDefinitions rows) w ord kr
      in (kr', bus_reply m (MDefineReply
           (if ok then \<lparr>dr_OK = True, dr_Epoch = [], dr_Error = []\<rparr> else define_error ErrStoreUnavailable))))"

definition onLookup ::
  "msg \<Rightarrow> int \<Rightarrow> keeper \<Rightarrow> (string \<times> byte list) list" where
  "onLookup m now k =
     (let bad = \<lparr>lr_OK = False, lr_Found = False, lr_Exp = 0, lr_Error = ErrBadRequest\<rparr>
      in case Unmarshal_lookup (mg_Data m) of
           None \<Rightarrow> bus_reply m (MLookupReply bad)
         | Some req \<Rightarrow>
             if lq_Set req = [] then bus_reply m (MLookupReply bad)
             else bus_reply m (MLookupReply (keeper_Lookup (lq_Set req) (lq_Value req) now k)))"

text \<open>
  The slots of \<open>onEvent\<close>: a message is refused when all are taken, else it takes one and a goroutine
  serves it, replies and gives the slot back. \<open>u_arrived\<close> and \<open>u_served\<close> record the messages that came
  and those that were answered.
\<close>

record bus =
  u_slots :: nat
  u_running :: "msg list"
  u_replies :: "(string \<times> byte list) list"
  u_arrived :: "msg list"
  u_served :: "msg list"

definition bus_init :: bus where
  "bus_init = \<lparr>u_slots = 0, u_running = [], u_replies = [], u_arrived = [], u_served = []\<rparr>"

inductive bus_step :: "bus \<Rightarrow> bus \<Rightarrow> bool" where
  Refuse:
    "\<not> u_slots b < eventInflight \<Longrightarrow>
     bus_step b (b\<lparr>u_arrived := u_arrived b @ [m], u_served := u_served b @ [m],
       u_replies := u_replies b @ bus_reply m (MEventReply (event_error ErrOverloaded))\<rparr>)"
| Admit:
    "u_slots b < eventInflight \<Longrightarrow>
     bus_step b (b\<lparr>u_slots := Suc (u_slots b), u_running := u_running b @ [m], u_arrived := u_arrived b @ [m]\<rparr>)"
| Serve:
    "m \<in> set (u_running b) \<Longrightarrow>
     bus_step b (b\<lparr>u_slots := u_slots b - 1, u_running := remove1 m (u_running b), u_served := u_served b @ [m],
       u_replies := u_replies b @ bus_reply m (MEventReply r)\<rparr>)"

section \<open>pulse\<close>

record work =
  wk_Sets :: int
  wk_Entries :: int
  wk_Writes :: int
  wk_Rejects :: int
  wk_Snapshots :: int
  wk_Packs :: int
  wk_Expired :: int
  wk_Queued :: int
  wk_Overloaded :: int
  wk_Stale :: int

definition zero_work :: work where
  "zero_work = \<lparr>wk_Sets = 0, wk_Entries = 0, wk_Writes = 0, wk_Rejects = 0, wk_Snapshots = 0, wk_Packs = 0,
     wk_Expired = 0, wk_Queued = 0, wk_Overloaded = 0, wk_Stale = 0\<rparr>"

record pulse_error =
  pe_At :: string
  pe_Msg :: string
  pe_Count :: int
  pe_Source :: string

text \<open>The fields of the shared frame this code reads or writes.\<close>

record shared_frame =
  sf_Name :: string
  sf_ID :: string
  sf_At :: string
  sf_Version :: string
  sf_Revision :: string

record message =
  ms_Frame :: shared_frame
  ms_Work :: work
  ms_Sets :: "set_stat list"
  ms_Errors :: "pulse_error list"

text \<open>\<open>NewFrame\<close> of the shared library is an argument; \<open>order\<close> is the order in which the sets are read.\<close>

definition add_stat :: "string \<Rightarrow> set_stat \<Rightarrow> work \<times> pulse_error list \<Rightarrow> work \<times> pulse_error list" where
  "add_stat at s acc =
     (let (w, errs) = acc;
          w = w\<lparr>wk_Entries := wk_Entries w + z_Entries s, wk_Writes := wk_Writes w + z_Writes s,
                wk_Rejects := wk_Rejects w + z_Rejects s, wk_Snapshots := wk_Snapshots w + z_Snapshots s,
                wk_Packs := wk_Packs w + z_Packs s, wk_Expired := wk_Expired w + z_Expired s,
                wk_Queued := wk_Queued w + z_Queued s, wk_Overloaded := wk_Overloaded w + z_Overloaded s,
                wk_Stale := wk_Stale w + z_Stale s\<rparr>
      in (w, if z_StoreErr s > 0
             then errs @ [\<lparr>pe_At = at, pe_Msg = ''state commit failed: '' @ z_Name s, pe_Count = z_StoreErr s,
                           pe_Source = ''redis-internal''\<rparr>]
             else errs))"

definition pulse_Build ::
  "(string \<Rightarrow> string \<Rightarrow> string \<Rightarrow> bool \<Rightarrow> shared_frame) \<Rightarrow> string \<Rightarrow> string \<Rightarrow> string list \<Rightarrow> keeper \<Rightarrow> message" where
  "pulse_Build newFrame ident name order k =
     (let stats = keeper_Stats order k;
          f = newFrame ''service'' ident name (k_ready k);
          (w, errs) = fold (add_stat (sf_At f)) stats (zero_work\<lparr>wk_Sets := int (length stats)\<rparr>, [])
      in \<lparr>ms_Frame = f, ms_Work = w, ms_Sets = stats, ms_Errors = errs\<rparr>)"

text \<open>The build information is set by the linker.\<close>

definition stamp :: "string \<Rightarrow> string \<Rightarrow> message \<Rightarrow> message" where
  "stamp version revision m = m\<lparr>ms_Frame := (ms_Frame m)\<lparr>sf_Version := version, sf_Revision := revision\<rparr>\<rparr>"

section \<open>httpapi\<close>

datatype http_request = Healthz | Sets | SetByName string

record response =
  rs_Status :: nat
  rs_JSON :: bool
  rs_Body :: "byte list"

text \<open>\<open>json.NewEncoder(w).Encode\<close> ends the text with a newline.\<close>

definition encode_line :: "json \<Rightarrow> byte list" where
  "encode_line j = bytes_of_string (print_json j @ [CHR 0x0A])"

definition stat_fields :: fields where
  "stat_fields = [(''name'', False), (''entries'', False), (''epoch'', False), (''seq'', False), (''hash'', False),
     (''limit'', False), (''writes'', False), (''rejects'', False), (''diffs'', False), (''inline'', False), (''expired'', False),
     (''snapshots'', False), (''packs'', False), (''store_err'', False), (''store_ms'', False), (''queued'', False),
     (''overloaded'', False), (''stale'', False)]"

definition stat_values :: "set_stat \<Rightarrow> goval list" where
  "stat_values z = [VString (z_Name z), VInt (z_Entries z), VString (z_Epoch z), VUint (z_Seq z), VString (z_Hash z),
     VInt (z_Limit z), VInt (z_Writes z), VInt (z_Rejects z), VInt (z_Diffs z), VInt (z_Inline z), VInt (z_Expired z),
     VInt (z_Snapshots z), VInt (z_Packs z), VInt (z_StoreErr z), VInt (z_StoreMs z), VInt (z_Queued z),
     VInt (z_Overloaded z), VInt (z_Stale z)]"

definition stats_json :: "set_stat list \<Rightarrow> json" where
  "stats_json zs = JArr (map (\<lambda>z. JObj (marshal_fields stat_fields (stat_values z))) zs)"

definition http_Handler ::
  "'r store \<Rightarrow> string list \<Rightarrow> string list \<Rightarrow> int \<Rightarrow> int \<Rightarrow> http_request \<Rightarrow> keeper \<times> 'r \<Rightarrow> (keeper \<times> 'r) \<times> response" where
  "http_Handler st sets_order order now at req kr =
     (let (k, r) = kr
      in case req of
           Healthz \<Rightarrow>
             ((k, r), if \<not> k_ready k then \<lparr>rs_Status = 503, rs_JSON = False, rs_Body = bytes_of_string (''loading'' @ [CHR 0x0A])\<rparr>
                      else \<lparr>rs_Status = 200, rs_JSON = False, rs_Body = bytes_of_string (''ok'' @ [CHR 0x0A])\<rparr>)
         | Sets \<Rightarrow> ((k, r), \<lparr>rs_Status = 200, rs_JSON = True, rs_Body = encode_line (stats_json (keeper_Stats sets_order k))\<rparr>)
         | SetByName name \<Rightarrow>
             let (k', r', ref) = keeper_Snapshot st name order now at k r
             in ((k', r'), \<lparr>rs_Status = (if f_Op ref = OpUnknownSet then 404 else 200), rs_JSON = True,
                           rs_Body = encode_line (JObj (marshal_fields frame_fields (frame_values ref)))\<rparr>))"

section \<open>main\<close>

datatype wait_result = Connected nat | Cancelled | GaveUp

text \<open>
  \<open>conn i\<close> tells whether attempt \<open>i\<close> succeeds, \<open>ended i\<close> whether the context ends in the pause after it.
\<close>

function wait_loop :: "(nat \<Rightarrow> bool) \<Rightarrow> (nat \<Rightarrow> bool) \<Rightarrow> nat \<Rightarrow> wait_result" where
  "wait_loop conn ended attempt =
     (if attempt < 30
      then if conn attempt then Connected attempt
           else if ended attempt then Cancelled
           else wait_loop conn ended (attempt + 1)
      else GaveUp)"
  by pat_completeness auto
termination
  by (relation "measure (\<lambda>(conn, ended, attempt). 30 - attempt)") auto

declare wait_loop.simps [simp del]

definition waitState :: "(nat \<Rightarrow> bool) \<Rightarrow> (nat \<Rightarrow> bool) \<Rightarrow> wait_result" where
  "waitState ping ended = wait_loop ping ended 0"

definition openDefinitions :: "(nat \<Rightarrow> bool) \<Rightarrow> (nat \<Rightarrow> bool) \<Rightarrow> wait_result" where
  "openDefinitions open ended = wait_loop open ended 0"

text \<open>
  \<open>store.Open\<close> as one attempt meets it: the parsed address, whether the pool is made, whether it answers. A pool that
  does not answer is closed.
\<close>

record pool_config =
  pc_MaxConns :: int

record pg_attempt =
  pa_config :: "pool_config option"
  pa_pool :: bool
  pa_ping :: bool

datatype pg_open = PGOpen pool_config | PGParseError | PGPoolError | PGClosed pool_config

definition pg_Open :: "pg_attempt \<Rightarrow> pg_open" where
  "pg_Open a =
     (case pa_config a of
        None \<Rightarrow> PGParseError
      | Some cfg \<Rightarrow>
          let cfg = cfg\<lparr>pc_MaxConns := 2\<rparr>
          in if \<not> pa_pool a then PGPoolError
             else if \<not> pa_ping a then PGClosed cfg
             else PGOpen cfg)"

definition pg_opened :: "pg_attempt \<Rightarrow> bool" where
  "pg_opened a = (case pg_Open a of PGOpen cfg \<Rightarrow> True | _ \<Rightarrow> False)"

text \<open>\<open>state.Open\<close>: the options of the client, with \<open>redis.ParseURL\<close> as the argument.\<close>

record redis_options =
  ro_DialTimeout :: int
  ro_ReadTimeout :: int
  ro_WriteTimeout :: int

definition state_Open :: "(string \<Rightarrow> redis_options option) \<Rightarrow> string \<Rightarrow> int \<Rightarrow> redis_options option" where
  "state_Open parseURL url timeout =
     map_option (\<lambda>opt. opt\<lparr>ro_DialTimeout := timeout, ro_ReadTimeout := timeout, ro_WriteTimeout := timeout\<rparr>) (parseURL url)"

text \<open>\<open>Serve\<close>: the subscriptions in their order; the first that fails ends it. \<open>sub\<close> is the outcome of \<open>Subscribe\<close>.\<close>

definition serve_subjects :: "string list" where
  "serve_subjects =
     [bus_prefix @ ''*.event'', bus_prefix @ ''*.snapshot'', ''waf.keeper.define'', ''waf.keeper.reload'', ''waf.keeper.lookup'']"

fun serve_loop :: "(string \<Rightarrow> bool) \<Rightarrow> string list \<Rightarrow> string list \<Rightarrow> string list \<times> bool" where
  "serve_loop sub [] up = (up, True)"
| "serve_loop sub (s # ss) up = (if sub s then serve_loop sub ss (up @ [s]) else (up, False))"

definition bus_Serve :: "(string \<Rightarrow> bool) \<Rightarrow> bool \<Rightarrow> string list \<times> bool" where
  "bus_Serve sub flush = (let (up, ok) = serve_loop sub serve_subjects [] in (up, ok \<and> flush))"

text \<open>What the process meets on its way up.\<close>

record 'r world =
  wo_env :: environment
  wo_open :: "nat \<Rightarrow> pg_attempt"
  wo_done :: "nat \<Rightarrow> bool"
  wo_bus :: bool
  wo_url :: "string \<Rightarrow> redis_options option"
  wo_db :: 'r
  wo_ping :: "nat \<Rightarrow> bool"
  wo_done' :: "nat \<Rightarrow> bool"
  wo_rows :: answer_rows
  wo_new :: "nat \<Rightarrow> newset \<times> newset"
  wo_order :: "(string, holder) fmap \<Rightarrow> string list"
  wo_subscribe :: "string \<Rightarrow> bool"
  wo_flush :: bool

datatype 'r boot = Exit nat | Panic | Up config keeper 'r

text \<open>\<open>time.NewTicker\<close> panics when the interval is not positive.\<close>

definition main_boot :: "'r store \<Rightarrow> 'r world \<Rightarrow> 'r boot" where
  "main_boot st w =
     (case config_Load (wo_env w) of
        Inl e \<Rightarrow> Exit 2
      | Inr c \<Rightarrow>
          (case openDefinitions (\<lambda>i. pg_opened (wo_open w i)) (wo_done w) of
             Connected i \<Rightarrow>
               if \<not> wo_bus w then Exit 1
               else (case state_Open (wo_url w) (cf_RedisURL c) (5 * Second) of
                       None \<Rightarrow> Exit 1
                     | Some opt \<Rightarrow>
                         (case waitState (wo_ping w) (wo_done' w) of
                            Connected j \<Rightarrow>
                              (let ((k, r), ok) = keeper_Start st (LoadDefinitions (wo_rows w)) (wo_new w) (wo_order w)
                                                    (keeper_New (options_of c), wo_db w)
                               in if \<not> ok then Exit 1
                                  else if \<not> snd (bus_Serve (wo_subscribe w) (wo_flush w)) then Exit 1
                                  else if cf_Pulse c \<le> 0 then Panic
                                  else Up c k r)
                          | _ \<Rightarrow> Exit 1))
           | _ \<Rightarrow> Exit 1))"

text \<open>
  The loop of \<open>main\<close>: a pulse at once and one per beat, built from the keeper as it is then, until the process is told to
  end. Whether a pulse could be published does not change what follows.
\<close>

datatype main_event = Beat keeper | MainDone

fun main_loop :: "(keeper \<Rightarrow> message) \<Rightarrow> main_event list \<Rightarrow> message list \<times> bool" where
  "main_loop pulse [] = ([], False)"
| "main_loop pulse (MainDone # evs) = ([], True)"
| "main_loop pulse (Beat k # evs) = (let (ms, ended) = main_loop pulse evs in (pulse k # ms, ended))"

definition main_serve :: "(keeper \<Rightarrow> message) \<Rightarrow> keeper \<Rightarrow> main_event list \<Rightarrow> message list \<times> bool" where
  "main_serve pulse k evs = (let (ms, ended) = main_loop pulse evs in (pulse k # ms, ended))"

end
