(* ===== verification/MountProps.thy ===== *)
theory MountProps
  imports KeeperSets
begin

text \<open>
  Mounting: what a set holds after it was mounted from the stored records, that a restart resumes
  the epoch, the sequence number, the hash and the content of the holder that was running, and that
  the map of sets stays well-formed: every holder is under the name of its definition and no two
  holders have the same identifier.
\<close>

section \<open>Loading records\<close>

definition rec_content :: "rec list \<Rightarrow> content" where
  "rec_content recs = fold (\<lambda>r. fmupd (r_Value r) (r_Exp r, r_Origin r, r_Reason r)) recs fmempty"

lemma load_step_content:
  "content (s_entries (load_step r s)) = fmupd (r_Value r) (r_Exp r, r_Origin r, r_Reason r) (content (s_entries s))"
  by (rule fmap_ext) (auto simp: load_step_def Let_def split: option.splits)

lemma load_fold_content:
  "content (s_entries (fold load_step recs s))
     = fold (\<lambda>r. fmupd (r_Value r) (r_Exp r, r_Origin r, r_Reason r)) recs (content (s_entries s))"
  by (induction recs arbitrary: s) (simp_all add: load_step_content)

lemma content_empty [simp]: "content fmempty = fmempty"
  by (simp add: content_def)

lemma settle_fields [simp]:
  "s_entries (settle s) = s_entries s" "s_seq (settle s) = s_seq s" "s_epoch (settle s) = s_epoch s"
  "s_key (settle s) = s_key s" "s_Def (settle s) = s_Def s" "s_hash (settle s) = s_hash s"
  by (simp_all add: settle_def)

lemma load_recs_content: "content (s_entries (load_recs recs s)) = rec_content recs"
  by (simp add: load_recs_def Let_def load_fold_content rec_content_def)

lemma load_fold_frame [simp]:
  "s_seq (fold load_step recs s) = s_seq s" "s_epoch (fold load_step recs s) = s_epoch s"
  "s_key (fold load_step recs s) = s_key s" "s_Def (fold load_step recs s) = s_Def s"
  by (induction recs arbitrary: s) (auto simp: load_step_def Let_def split: option.splits)

lemma load_recs_frame [simp]:
  "s_seq (load_recs recs s) = s_seq s" "s_epoch (load_recs recs s) = s_epoch s"
  "s_key (load_recs recs s) = s_key s" "s_Def (load_recs recs s) = s_Def s"
  by (simp_all add: load_recs_def Let_def)

lemma load_fold_hash_map:
  assumes "s_key s = s_key s0" and "s_Def s = s_Def s0" and "\<forall>q\<in>set recs. r_Prefix q = zero_prefix" and "hash_map s0 (s_entries s)"
  shows "hash_map s0 (s_entries (fold load_step recs s))"
  using assms
proof (induction recs arbitrary: s)
  case (Cons r recs)
  have "hash_map s0 (s_entries (load_step r s))"
    using Cons.prems
    by (auto simp: load_step_def Let_def hash_map_def hashOf_def zero_prefix_def prefix_IsValid_def split: option.splits)
  moreover have "s_key (load_step r s) = s_key s" "s_Def (load_step r s) = s_Def s"
    by (auto simp: load_step_def Let_def split: option.splits)
  ultimately show ?case using Cons.IH [of "load_step r s"] Cons.prems by simp
qed simp

lemma load_recs_hash_map:
  assumes "s_key s = s_key s0" and "s_Def s = s_Def s0" and "\<forall>q\<in>set recs. r_Prefix q = zero_prefix"
  shows "hash_map s0 (s_entries (load_recs recs s))"
  using load_fold_hash_map [of "s\<lparr>s_hash := 0, s_entries := fmempty, s_exp := []\<rparr>" s0 recs] assms
  by (simp add: load_recs_def Let_def hash_map_def)

lemma rec_content_list:
  assumes "distinct (map r_Value recs)"
  shows "rec_content recs = fmap_of_list (map (\<lambda>q. (r_Value q, (r_Exp q, r_Origin q, r_Reason q))) recs)"
proof -
  have "fmlookup (fold (\<lambda>r. fmupd (r_Value r) (r_Exp r, r_Origin r, r_Reason r)) recs c) v
      = (case map_of (map (\<lambda>q. (r_Value q, (r_Exp q, r_Origin q, r_Reason q))) recs) v of Some x \<Rightarrow> Some x | None \<Rightarrow> fmlookup c v)"
    if "distinct (map r_Value recs)" for c :: content and v
    using that
  proof (induction recs arbitrary: c)
    case (Cons r recs)
    have "map_of (map (\<lambda>q. (r_Value q, (r_Exp q, r_Origin q, r_Reason q))) recs) (r_Value r) = None"
      using Cons.prems by (auto simp: map_of_eq_None_iff)
    with Cons show ?case by (auto split: option.splits)
  qed simp
  from this [OF assms] show ?thesis
    by (intro fmap_ext) (simp add: rec_content_def fmlookup_of_list option.case_eq_if)
qed

text \<open>The content and the rule for the hashes determine the entries.\<close>

lemma entries_determined:
  assumes "content m = content m'" and "hash_map s0 m" and "hash_map s0 m'"
  shows "m = m'"
proof (rule fmap_ext)
  fix v
  have "map_option (\<lambda>e. (e_Exp e, e_Origin e, e_Reason e)) (fmlookup m v)
      = map_option (\<lambda>e. (e_Exp e, e_Origin e, e_Reason e)) (fmlookup m' v)"
    using arg_cong [OF assms(1), of "\<lambda>c. fmlookup c v"] by simp
  then show "fmlookup m v = fmlookup m' v"
    using assms(2,3) unfolding hash_map_def by (cases "fmlookup m v"; cases "fmlookup m' v") auto
qed

section \<open>The mounted set\<close>

lemma new_set_fields [simp]: "s_Def (new_set d w) = d" "s_entries (new_set d w) = fmempty"
  by (simp_all add: new_set_def set_New_def)

lemma mount_set_def_of [simp]: "s_Def (fst (mount_set d fresh out w1 w2)) = d"
  by (simp add: mount_set_def Let_def set_Resume_def set_Load_def split: prod.splits)

lemma mount_set_inflight: "inflight (fst (mount_set d fresh out w1 w2)) []"
  by (auto simp: mount_set_def Let_def set_Resume_def set_Load_def new_set_def load_recs_inflight set_New_inflight
      split: prod.splits)

lemma mount_set_content:
  "content (s_entries (fst (mount_set d fresh (m, recs, bad) w1 w2)))
     = (if snd (mount_set d fresh (m, recs, bad) w1 w2) then rec_content recs else fmempty)"
  by (simp add: mount_set_def Let_def set_Resume_def set_Load_def load_recs_content)

lemma mount_set_resumes:
  assumes m: "m_ID m = d_ID d" "m_Type m = d_Type d" "m_Epoch m = s_epoch s" "m_Key m = s_key s"
      "m_Seq m = s_seq s" "m_Hash m = s_hash s"
    and s: "s_Def s = d" "s_hash s = hsum (s_entries s)" "hash_map s (s_entries s)" and t: "\<forall>q\<in>set recs. r_Prefix q = zero_prefix"
    and c: "rec_content recs = content (s_entries s)"
  shows "let s' = fst (mount_set d False (Some m, recs, False) w1 w2)
    in s_epoch s' = s_epoch s \<and> s_key s' = s_key s \<and> s_seq s' = s_seq s \<and> s_hash s' = s_hash s \<and> s_entries s' = s_entries s"
proof -
  let ?r = "set_Resume (m_Epoch m) (m_Key m) (m_Seq m) recs (new_set d w1)"
  have e: "s_entries ?r = s_entries s"
  proof (rule entries_determined [where ?s0.0 = s])
    show "content (s_entries ?r) = content (s_entries s)" using c by (simp add: set_Resume_def load_recs_content)
    show "hash_map s (s_entries ?r)" unfolding set_Resume_def by (rule load_recs_hash_map) (use m s t in simp_all)
  qed (rule s)
  have "inflight ?r []" unfolding set_Resume_def by (rule load_recs_inflight)
  then have "s_hash ?r = s_hash s" using e s by (simp add: inflight_def)
  moreover have "s_epoch ?r = s_epoch s" "s_key ?r = s_key s" "s_seq ?r = s_seq s" using m by (simp_all add: set_Resume_def)
  ultimately show ?thesis using m e by (simp add: mount_set_def meta_matches_def Let_def)
qed

section \<open>The map of sets\<close>

definition keeper_ok :: "(string, holder) fmap \<Rightarrow> bool" where
  "keeper_ok sets \<longleftrightarrow>
     (\<forall>n h. fmlookup sets n = Some h \<longrightarrow> d_Name (h_Def h) = n)
     \<and> (\<forall>n h n' h'. fmlookup sets n = Some h \<longrightarrow> fmlookup sets n' = Some h' \<longrightarrow> d_ID (h_Def h) = d_ID (h_Def h') \<longrightarrow> n = n')"

definition reads_map :: "((string, holder) fmap \<Rightarrow> string list) \<Rightarrow> bool" where
  "reads_map ord \<longleftrightarrow> (\<forall>sets. map_order sets (ord sets))"

lemma fold_fmdrop_lookup: "fmlookup (fold fmdrop ns m) v = (if v \<in> set ns then None else fmlookup m v)"
  by (induction ns arbitrary: m) auto

lemma renamed_sets_set:
  "reads_map ord \<Longrightarrow> set (renamed_sets d (ord sets) sets)
     = {n. n \<noteq> d_Name d \<and> (\<exists>h. fmlookup sets n = Some h \<and> d_ID (h_Def h) = d_ID d)}"
  by (auto simp: renamed_sets_def reads_map_def map_order_def fmlookup_dom_iff split: option.splits intro: fmdomI)

text \<open>The new holder takes the name of its definition and evicts the holders with its identifier.\<close>

definition replaces :: "(string, holder) fmap \<Rightarrow> set_def \<Rightarrow> holder \<Rightarrow> (string, holder) fmap \<Rightarrow> bool" where
  "replaces sets d h sets' \<longleftrightarrow> h_Def h = d \<and>
     (\<forall>n. fmlookup sets' n =
        (if n = d_Name d then Some h
         else case fmlookup sets n of None \<Rightarrow> None | Some o' \<Rightarrow> if d_ID (h_Def o') = d_ID d then None else Some o'))"

lemma replaces_self: "replaces sets d h sets' \<Longrightarrow> fmlookup sets' (d_Name d) = Some h \<and> h_Def h = d"
  by (simp add: replaces_def)

lemma replaces_other:
  "replaces sets d h sets' \<Longrightarrow> n \<noteq> d_Name d \<Longrightarrow> fmlookup sets n = Some x \<Longrightarrow> d_ID (h_Def x) \<noteq> d_ID d \<Longrightarrow> fmlookup sets' n = Some x"
  by (simp add: replaces_def)

lemma replacesD:
  assumes "replaces sets d h sets'" and "fmlookup sets' n = Some x"
  shows "n = d_Name d \<and> x = h \<or> n \<noteq> d_Name d \<and> fmlookup sets n = Some x \<and> d_ID (h_Def x) \<noteq> d_ID d"
  using assms(2) spec [OF conjunct2 [OF assms(1) [unfolded replaces_def]], of n]
  by (auto split: option.splits if_splits)

lemma mount_sets:
  assumes "mount st d fresh w ord (k, r) = ((k', r'), True)" and "reads_map ord"
  shows "(\<not> fresh \<and> mounted (k_sets k) d \<and> k' = k \<and> r' = r) \<or>
    (\<exists>h. replaces (k_sets k) d h (k_sets k') \<and> inflight (h_s h) [])"
proof (cases "\<not> fresh \<and> mounted (k_sets k) d")
  case True
  then show ?thesis using assms(1) by (simp add: mount_def)
next
  case False
  obtain out where out: "st_Load st (d_Name d) r = Some out"
    using assms(1) False by (auto simp: mount_def split: option.splits)
  let ?h = "publishTick (new_holder (fst (mount_set d fresh out (fst w) (snd w))))"
  let ?sets = "fmupd (d_Name d) ?h (k_sets k)"
  have k': "k' = k\<lparr>k_sets := fold fmdrop (renamed_sets d (ord ?sets) ?sets) ?sets\<rparr>"
    using assms(1) False out by (auto simp: mount_def Let_def split: prod.splits if_splits)
  have "replaces (k_sets k) d ?h (k_sets k')"
    unfolding k' replaces_def
    by (auto simp: fold_fmdrop_lookup renamed_sets_set [OF assms(2)] new_holder_def split: option.splits)
  moreover have "inflight (h_s ?h) []" by (simp add: new_holder_def mount_set_inflight)
  ultimately show ?thesis by blast
qed

lemma replaces_keeper_ok:
  assumes r: "replaces sets d h sets'" and ok: "keeper_ok sets"
  shows "keeper_ok sets'"
  unfolding keeper_ok_def
proof (intro conjI allI impI)
  fix n x assume "fmlookup sets' n = Some x"
  from replacesD [OF r this] show "d_Name (h_Def x) = n"
    using ok replaces_self [OF r] unfolding keeper_ok_def by blast
next
  fix n x n' x'
  assume a: "fmlookup sets' n = Some x" "fmlookup sets' n' = Some x'" "d_ID (h_Def x) = d_ID (h_Def x')"
  have h: "h_Def h = d" using replaces_self [OF r] by blast
  from replacesD [OF r a(1)] replacesD [OF r a(2)] show "n = n'"
    using ok a(3) h unfolding keeper_ok_def by metis
qed

lemma mount_keeper_ok:
  assumes "mount st d fresh w ord (k, r) = ((k', r'), ok)" and "reads_map ord" and "keeper_ok (k_sets k)"
  shows "keeper_ok (k_sets k')"
proof (cases ok)
  case False
  then have "k_sets k' = k_sets k" using assms(1) by (auto simp: mount_def Let_def split: option.splits prod.splits if_splits)
  then show ?thesis using assms(3) by simp
next
  case True
  then have m: "mount st d fresh w ord (k, r) = ((k', r'), True)" using assms(1) by simp
  from mount_sets [OF m assms(2)] show ?thesis using replaces_keeper_ok assms(3) by blast
qed

lemma mount_all_keeper_ok:
  assumes "mount_all st ds w ord (k, r) = ((k', r'), ok)" and "reads_map ord" and "keeper_ok (k_sets k)"
  shows "keeper_ok (k_sets k')"
  using assms(1,3)
proof (induction ds arbitrary: w k r)
  case (Cons d ds)
  obtain k1 r1 ok1 where m: "mount st d False (w 0) ord (k, r) = ((k1, r1), ok1)"
    by (cases "mount st d False (w 0) ord (k, r)") auto
  have "keeper_ok (k_sets k1)" by (rule mount_keeper_ok [OF m assms(2) Cons.prems(2)])
  then show ?case using Cons m by (auto split: if_splits)
qed simp

lemma keeper_ok_drop: "keeper_ok sets \<Longrightarrow> keeper_ok (fmdrop n sets)"
  unfolding keeper_ok_def by (metis fmlookup_drop option.distinct(1))

lemma keeper_drop_sets:
  "k_sets (fst (keeper_drop st name (k, r))) = fmdrop name (k_sets k)"
  by (auto simp: keeper_drop_def split: option.splits intro!: fmap_ext)

lemma keeper_drop_fold_sets:
  "k_sets (fst (fold (keeper_drop st) ns kr)) = fold fmdrop ns (k_sets (fst kr))"
proof (induction ns arbitrary: kr)
  case (Cons n ns)
  then show ?case by (cases kr) (simp add: keeper_drop_sets)
qed simp

lemma fold_drop_keeper_ok: "keeper_ok sets \<Longrightarrow> keeper_ok (fold fmdrop ns sets)"
  by (induction ns arbitrary: sets) (auto intro: keeper_ok_drop)

text \<open>After mounting a list of definitions with distinct names and identifiers each is mounted.\<close>

lemma mount_all_mounted:
  assumes "mount_all st ds w ord (k, r) = ((k', r'), True)" and "reads_map ord"
    and "distinct (map d_Name ds)" and "distinct (map d_ID ds)"
  shows "(\<forall>d\<in>set ds. \<exists>h. fmlookup (k_sets k') (d_Name d) = Some h \<and> h_Def h = d)
    \<and> (\<forall>n h. n \<notin> set (map d_Name ds) \<longrightarrow> fmlookup (k_sets k) n = Some h \<longrightarrow> d_ID (h_Def h) \<notin> set (map d_ID ds)
         \<longrightarrow> fmlookup (k_sets k') n = Some h)"
  using assms(1,3,4)
proof (induction ds arbitrary: w k r)
  case (Cons d ds)
  obtain k1 r1 where m: "mount st d False (w 0) ord (k, r) = ((k1, r1), True)"
    and rest: "mount_all st ds (\<lambda>i. w (Suc i)) ord (k1, r1) = ((k', r'), True)"
    using Cons.prems(1) by (auto split: prod.splits if_splits)
  have IH: "(\<forall>d\<in>set ds. \<exists>h. fmlookup (k_sets k') (d_Name d) = Some h \<and> h_Def h = d)"
    "\<And>n h. n \<notin> set (map d_Name ds) \<Longrightarrow> fmlookup (k_sets k1) n = Some h \<Longrightarrow> d_ID (h_Def h) \<notin> set (map d_ID ds)
         \<Longrightarrow> fmlookup (k_sets k') n = Some h"
    using Cons.IH [OF rest] Cons.prems by auto
  have "\<exists>h. fmlookup (k_sets k) (d_Name d) = Some h \<and> h_Def h = d" if "mounted (k_sets k) d"
    using that by (auto simp: mounted_def split: option.splits)
  then have d: "\<exists>h. fmlookup (k_sets k1) (d_Name d) = Some h \<and> h_Def h = d"
    using mount_sets [OF m assms(2)] replaces_self by blast
  have other: "fmlookup (k_sets k1) n = Some h"
    if "n \<noteq> d_Name d" "fmlookup (k_sets k) n = Some h" "d_ID (h_Def h) \<noteq> d_ID d" for n h
    using mount_sets [OF m assms(2)] that replaces_other by metis
  from d obtain h where h: "fmlookup (k_sets k1) (d_Name d) = Some h" "h_Def h = d" by blast
  have "fmlookup (k_sets k') (d_Name d) = Some h"
    by (rule IH(2)) (use h Cons.prems(2,3) in auto)
  then have "\<forall>e\<in>set (d # ds). \<exists>h. fmlookup (k_sets k') (d_Name e) = Some h \<and> h_Def h = e" using IH(1) h by auto
  moreover have "fmlookup (k_sets k') n = Some x"
    if "n \<notin> set (map d_Name (d # ds))" "fmlookup (k_sets k) n = Some x" "d_ID (h_Def x) \<notin> set (map d_ID (d # ds))" for n x
    using IH(2) other that by auto
  ultimately show ?case by blast
qed simp

end
