(* ===== verification/NetRound.thy ===== *)
theory NetRound
  imports Canon
begin

text \<open>
  The text of an address or prefix, as \<open>net/netip\<close> prints it, parses back to the same address or prefix, for IPv4,
  IPv6 and IPv4-mapped addresses. So canonical values are stable, and the two routes by which an address
  reaches the hash (the prefix that canonicalisation returns, and parsing the canonical text again) agree.
\<close>

section \<open>Digits\<close>

lemma dec_digit_table: "list_all (\<lambda>d. dec_digit (digit_char d) = Some d) [0..<10]"
  by code_simp

lemma dec_digit_char [simp]: "d < 10 \<Longrightarrow> dec_digit (digit_char d) = Some d"
  using dec_digit_table by (simp add: list_all_iff)

lemma hex_digit_char [simp]: "d < 16 \<Longrightarrow> hex_digit (digit_char d) = Some d"
  by (rule digit_char_cases [of d]) (simp_all add: hex_digit_def digit_char_def Let_def)

lemma digit_char_not_mark:
  "d < 16 \<Longrightarrow> digit_char d \<notin> {CHR ''.'', CHR '':'', CHR ''%'', CHR ''/''}"
  by (rule digit_char_cases [of d]) (simp_all add: digit_char_def)

lemma nat_digits_small: "n < base \<Longrightarrow> nat_digits base n = [digit_char n]"
  by (subst nat_digits.simps) simp

lemma nat_digits_step: "2 \<le> base \<Longrightarrow> base \<le> n \<Longrightarrow> nat_digits base n = nat_digits base (n div base) @ [digit_char (n mod base)]"
  by (subst nat_digits.simps) simp

lemma nat_digits_marks:
  assumes "2 \<le> base" and "base \<le> 16" and "c \<in> {CHR ''.'', CHR '':'', CHR ''%'', CHR ''/''}"
  shows "c \<notin> set (nat_digits base n)"
proof
  assume "c \<in> set (nat_digits base n)"
  then obtain d where "d < base" "c = digit_char d" using nat_digits_chars [OF assms(1,2)] by blast
  then show False using digit_char_not_mark [of d] assms(2,3) by auto
qed

section \<open>IPv4\<close>

text \<open>A printed byte is read as that byte.\<close>

lemma parse4_field:
  assumes "b < 256"
  shows "\<exists>k>0. parseIPv4Fields (nat_digits 10 b @ rest) 0 0 flds = parseIPv4Fields rest b k flds"
proof -
  consider "b < 10" | "10 \<le> b" "b < 100" | "100 \<le> b" by linarith
  then show ?thesis
  proof cases
    case 1
    then show ?thesis by (auto simp: nat_digits_small)
  next
    case 2
    have "b div 10 < 10" "0 < b div 10" "b mod 10 < 10" "b div 10 * 10 + b mod 10 = b" using 2 by auto
    then show ?thesis using 2 by (auto simp: nat_digits_step nat_digits_small Let_def)
  next
    case 3
    have d: "b div 10 div 10 < 10" "0 < b div 10 div 10" "b div 10 mod 10 < 10" "b mod 10 < 10" "b div 10 \<le> 255"
      "b div 10 div 10 * 10 + b div 10 mod 10 = b div 10" "b div 10 * 10 + b mod 10 = b" using 3 assms by auto
    have "nat_digits 10 b = [digit_char (b div 10 div 10), digit_char (b div 10 mod 10), digit_char (b mod 10)]"
      using 3 d(1) by (simp add: nat_digits_step nat_digits_small)
    then show ?thesis using d assms by (auto simp: Let_def)
  qed
qed

lemma parse4_dot:
  assumes "b < 256" and "length flds < 3" and "rest \<noteq> []"
  shows "parseIPv4Fields (nat_digits 10 b @ CHR ''.'' # rest) 0 0 flds = parseIPv4Fields rest 0 0 (flds @ [b])"
proof -
  have "dec_digit CHR ''.'' = None" by (simp add: dec_digit_def)
  then show ?thesis using parse4_field [OF assms(1), of "CHR ''.'' # rest" flds] assms(2,3) by auto
qed

lemma parse4_last: "b < 256 \<Longrightarrow> length flds = 3 \<Longrightarrow> parseIPv4Fields (nat_digits 10 b) 0 0 flds = Some (flds @ [b])"
  using parse4_field [of b "[]" flds] by auto

lemma parse4_text:
  assumes "a < 256" and "b < 256" and "c < 256" and "d < 256"
  shows "parseIPv4Fields (nat_digits 10 a @ CHR ''.'' # nat_digits 10 b @ CHR ''.'' # nat_digits 10 c @ CHR ''.'' # nat_digits 10 d) 0 0 []
    = Some [a, b, c, d]"
  using assms by (simp add: parse4_dot parse4_last)

lemma string4_bytes:
  "\<exists>a b c d :: byte. rev (le_bytes 4 w) = [a, b, c, d] \<and> string4 w = nat_digits 10 (unat a) @ CHR ''.'' # nat_digits 10 (unat b)
     @ CHR ''.'' # nat_digits 10 (unat c) @ CHR ''.'' # nat_digits 10 (unat d)"
  by (simp add: string4_def wire_simps)

lemma byte_less: "unat (b :: byte) < 256"
  using unsigned_less [of b, where ?'a = nat] by simp

lemma parse4_string4: "parseIPv4Fields (string4 w) 0 0 [] = Some (map unat (rev (le_bytes 4 w)))"
  using string4_bytes [of w] parse4_text byte_less by auto

lemma AddrFrom4_bytes: "AddrFrom4 (rev (le_bytes 4 w)) = Addr4 w"
  using le_word_u32 [of w "[]"] by (simp add: AddrFrom4_def)

lemma parseIPv4_string4: "parseIPv4 (string4 w) = Some (Addr4 w)"
  by (simp add: parseIPv4_def parse4_string4 comp_def AddrFrom4_bytes)

lemma ParseAddr_scan_skip:
  "set ds \<inter> {CHR ''.'', CHR '':'', CHR ''%''} = {} \<Longrightarrow> ParseAddr_scan s (ds @ cs) = ParseAddr_scan s cs"
  by (induction ds) auto

lemma digits_plain: "2 \<le> base \<Longrightarrow> base \<le> 16 \<Longrightarrow> set (nat_digits base n) \<inter> {CHR ''.'', CHR '':'', CHR ''%''} = {}"
  using nat_digits_marks [of base] by auto

lemma ParseAddr_string4: "ParseAddr (string4 w) = Some (Addr4 w)"
proof -
  obtain n rest where s: "string4 w = nat_digits 10 n @ CHR ''.'' # rest" using string4_bytes [of w] by auto
  have "ParseAddr (string4 w) = parseIPv4 (string4 w)"
    unfolding ParseAddr_def by (subst (2) s) (simp add: ParseAddr_scan_skip digits_plain)
  then show ?thesis by (simp add: parseIPv4_string4)
qed

section \<open>IPv6 groups\<close>

definition hex :: "nat \<Rightarrow> string" where
  "hex g = nat_digits 16 g"

lemma hex_nonempty [simp]: "hex g \<noteq> []"
  by (simp add: hex_def)

lemma hex_marks: "c \<in> {CHR ''.'', CHR '':'', CHR ''%'', CHR ''/''} \<Longrightarrow> c \<notin> set (hex g)"
  unfolding hex_def by (rule nat_digits_marks) simp_all

lemma hex_hd: "hd (hex g @ r) \<noteq> CHR '':''"
  using hex_marks [of "CHR '':''" g] hd_in_set [of "hex g"] by (cases "hex g") auto

text \<open>Text after a group: nothing, or something that does not go on with a hexadecimal digit.\<close>

definition ends_group :: "string \<Rightarrow> bool" where
  "ends_group r \<longleftrightarrow> r = [] \<or> hex_digit (hd r) = None"

lemma hex_group_stop: "ends_group r \<Longrightarrow> hex_group r off acc = Some (off, acc, r)"
  by (cases r) (auto simp: ends_group_def)

lemma hex_group_digit:
  "d < 16 \<Longrightarrow> off \<le> 3 \<Longrightarrow> 16 * acc + d < 65536 \<Longrightarrow> hex_group (digit_char d # cs) off acc = hex_group cs (Suc off) (16 * acc + d)"
  by (simp add: Let_def)

lemma hex_group_hex:
  assumes "g < 65536" and "ends_group r"
  shows "\<exists>k>0. hex_group (hex g @ r) 0 0 = Some (k, g, r)"
proof -
  note D = nat_digits_step [of 16] nat_digits_small [of _ 16] hex_group_digit hex_group_stop [OF assms(2)]
  consider "g < 16" | "16 \<le> g" "g div 16 < 16" | "16 \<le> g div 16" "g div 16 div 16 < 16" | "16 \<le> g div 16 div 16"
    by linarith
  then show ?thesis
  proof cases
    case 4
    have d: "g div 16 div 16 div 16 < 16" "16 \<le> g" "16 \<le> g div 16" using 4 assms(1) by auto
    have e: "16 * (g div 16 div 16 div 16) + g div 16 div 16 mod 16 = g div 16 div 16" "16 * (g div 16 div 16) + g div 16 mod 16 = g div 16"
      "16 * (g div 16) + g mod 16 = g" by simp_all
    have "nat_digits 16 g = [digit_char (g div 16 div 16 div 16), digit_char (g div 16 div 16 mod 16), digit_char (g div 16 mod 16), digit_char (g mod 16)]"
      using 4 d by (simp add: nat_digits_step [of 16] nat_digits_small [of _ 16])
    then show ?thesis using d e assms by (simp add: hex_def hex_group_digit hex_group_stop del: hex_group.simps)
  next
    case 3
    have d: "16 \<le> g" using 3 by auto
    have "nat_digits 16 g = [digit_char (g div 16 div 16), digit_char (g div 16 mod 16), digit_char (g mod 16)]"
      using 3 d by (simp add: nat_digits_step [of 16] nat_digits_small [of _ 16])
    moreover have "16 * (g div 16 div 16) + g div 16 mod 16 = g div 16" "16 * (g div 16) + g mod 16 = g" by simp_all
    ultimately show ?thesis using 3 assms by (simp add: hex_def hex_group_digit hex_group_stop del: hex_group.simps)
  next
    case 2
    have "nat_digits 16 g = [digit_char (g div 16), digit_char (g mod 16)]"
      using 2 by (simp add: nat_digits_step [of 16] nat_digits_small [of _ 16])
    moreover have "16 * (g div 16) + g mod 16 = g" by simp
    ultimately show ?thesis using 2 assms by (simp add: hex_def hex_group_digit hex_group_stop del: hex_group.simps)
  next
    case 1
    then show ?thesis using assms by (simp add: hex_def nat_digits_small hex_group_digit hex_group_stop del: hex_group.simps)
  qed
qed

section \<open>The loop of parseIPv6\<close>

definition group_bytes :: "nat list \<Rightarrow> nat list" where
  "group_bytes gs = concat (map (\<lambda>g. [g div 256, g mod 256]) gs)"

lemma group_bytes_simps [simp]:
  "group_bytes [] = []" "group_bytes (g # gs) = [g div 256, g mod 256] @ group_bytes gs"
  "group_bytes (gs @ gs') = group_bytes gs @ group_bytes gs'"
  by (simp_all add: group_bytes_def)

lemma length_group_bytes [simp]: "length (group_bytes gs) = 2 * length gs"
  by (induction gs) simp_all

definition colons :: "nat list \<Rightarrow> string" where
  "colons gs = join_with '':'' (map hex gs)"

lemma colons_simps [simp]: "colons [] = []" "colons [g] = hex g" "colons (g # g' # gs) = hex g @ '':'' @ colons (g' # gs)"
  by (simp_all add: colons_def)

lemma colons_hd: "gs \<noteq> [] \<Longrightarrow> colons gs \<noteq> [] \<and> hd (colons gs @ r) \<noteq> CHR '':''"
  using hex_hd by (induction gs rule: induct_list012) auto

lemma ends_group_colon [simp]: "ends_group (CHR '':'' # r)" "ends_group []"
  by (simp_all add: ends_group_def hex_digit_def)

lemma parse6_group:
  assumes "g < 65536" and "length ip < 16" and "cs \<noteq> []" and "hd cs \<noteq> CHR '':''"
  shows "parseIPv6_loop (hex g @ CHR '':'' # cs) ip e = parseIPv6_loop cs (ip @ [g div 256, g mod 256]) e"
  using hex_group_hex [OF assms(1), of "CHR '':'' # cs"] assms(2-4) by (subst parseIPv6_loop.simps) auto

lemma parse6_last:
  assumes "g < 65536" and "length ip < 16"
  shows "parseIPv6_loop (hex g) ip e = Some ([], ip @ [g div 256, g mod 256], e)"
  using hex_group_hex [OF assms(1), of "[]"] assms(2) by (subst parseIPv6_loop.simps) auto

lemma parse6_ellipsis:
  assumes "g < 65536" and "length ip < 16"
  shows "parseIPv6_loop (hex g @ CHR '':'' # CHR '':'' # cs) ip None =
    (let ip' = ip @ [g div 256, g mod 256]
     in if cs = [] then Some ([], ip', Some (length ip')) else parseIPv6_loop cs ip' (Some (length ip')))"
  using hex_group_hex [OF assms(1), of "CHR '':'' # CHR '':'' # cs"] assms(2) by (subst parseIPv6_loop.simps) (auto simp: Let_def)

lemma parse6_groups:
  assumes "gs \<noteq> []" and "\<forall>g\<in>set gs. g < 65536" and "length ip + 2 * length gs \<le> 16"
  shows "parseIPv6_loop (colons gs) ip e = Some ([], ip @ group_bytes gs, e)"
  using assms
proof (induction gs arbitrary: ip rule: induct_list012)
  case (2 g)
  then show ?case by (simp add: parse6_last)
next
  case (3 g g' gs)
  then show ?case using colons_hd [of "g' # gs" "[]"] by (simp add: parse6_group)
qed simp

lemma parse6_head:
  assumes "gs \<noteq> []" and "\<forall>g\<in>set gs. g < 65536" and "length ip + 2 * length gs \<le> 16"
  shows "parseIPv6_loop (colons gs @ ''::'' @ cs) ip None =
    (let ip' = ip @ group_bytes gs
     in if cs = [] then Some ([], ip', Some (length ip')) else parseIPv6_loop cs ip' (Some (length ip')))"
  using assms
proof (induction gs arbitrary: ip rule: induct_list012)
  case (2 g)
  then show ?case using parse6_ellipsis [of g ip cs] by simp
next
  case (3 g g' gs)
  have h: "colons (g' # gs) \<noteq> [] \<and> hd (colons (g' # gs) @ ''::'' @ cs) \<noteq> CHR '':''"
    by (rule colons_hd) simp
  have "parseIPv6_loop (hex g @ CHR '':'' # colons (g' # gs) @ ''::'' @ cs) ip None
      = parseIPv6_loop (colons (g' # gs) @ ''::'' @ cs) (ip @ [g div 256, g mod 256]) None"
    by (rule parse6_group [OF _ _ _ conjunct2 [OF h]]) (use 3 in simp_all)
  then show ?case using 3 by simp
qed simp

section \<open>The printed groups\<close>

text \<open>The run of zeros the printer shortens: none, or two or more zero groups.\<close>

definition zero_run_ok :: "nat list \<Rightarrow> nat \<times> nat \<Rightarrow> bool" where
  "zero_run_ok gs se \<longleftrightarrow> se = (255, 255) \<or>
     (fst se + 2 \<le> snd se \<and> snd se \<le> length gs \<and> (\<forall>i. fst se \<le> i \<and> i < snd se \<longrightarrow> gs ! i = 0))"

lemma zero_run_zero: "zero_run gs \<le> length gs \<and> (\<forall>i<zero_run gs. gs ! i = 0)"
proof (induction gs)
  case (Cons g gs)
  then show ?case by (auto simp: nth_Cons split: nat.splits)
qed simp

lemma longest_zeros_step_ok:
  assumes "zero_run_ok gs se" and "i \<le> length gs"
  shows "zero_run_ok gs (longest_zeros_step gs i se)"
proof -
  have "gs ! j = 0" if "i \<le> j" "j < i + zero_run (drop i gs)" for j
    using zero_run_zero [of "drop i gs"] that assms(2)
    by (metis add_diff_inverse_nat less_diff_conv2 add.commute not_less nth_drop)
  moreover have "i + zero_run (drop i gs) \<le> length gs" using zero_run_zero [of "drop i gs"] assms(2) by (metis add.commute le_diff_conv2 length_drop)
  ultimately show ?thesis using assms(1) by (auto simp: longest_zeros_step_def zero_run_ok_def Let_def)
qed

lemma longest_zeros_ok:
  assumes "length gs = 8"
  shows "zero_run_ok gs (longest_zeros gs)"
proof -
  have "zero_run_ok gs (fold (longest_zeros_step gs) is se)" if "zero_run_ok gs se" "\<forall>i\<in>set is. i \<le> length gs" for "is" se
    using that by (induction "is" arbitrary: se) (simp_all add: longest_zeros_step_ok)
  then show ?thesis using assms by (simp add: longest_zeros_def zero_run_ok_def)
qed

lemma string6_after:
  assumes "length gs = 8" and "zs < i \<or> zs \<ge> 8" and "i \<le> 8" and "0 < i"
  shows "string6_loop gs zs ze i = (if i = 8 then [] else '':'' @ colons (drop i gs))"
  using assms(2-4)
proof (induction "8 - i" arbitrary: i)
  case (Suc n)
  then have i: "i < 8" "i \<noteq> zs" by auto
  have d: "drop i gs = gs ! i # drop (Suc i) gs" using i assms(1) by (simp add: Cons_nth_drop_Suc)
  have IH: "string6_loop gs zs ze (i + 1) = (if i + 1 = 8 then [] else '':'' @ colons (drop (i + 1) gs))"
    using Suc.prems by (intro Suc.hyps(1)) (use Suc.hyps(2) i in auto)
  show ?case
  proof (cases "i + 1 = 8")
    case True
    then have "drop (Suc i) gs = []" using assms(1) by simp
    then show ?thesis using IH True i Suc.prems d by (subst string6_loop.simps) (simp add: hex_def)
  next
    case False
    then obtain g r where r: "drop (Suc i) gs = g # r" using assms(1) i by (cases "drop (Suc i) gs") auto
    then show ?thesis using IH False i Suc.prems d by (subst string6_loop.simps) (simp add: hex_def)
  qed
qed (simp add: string6_loop.simps)

text \<open>Before the run: the groups with colons between them, then the run and the rest.\<close>

lemma string6_before:
  assumes "length gs = 8" and "zs < ze" and "ze \<le> 8" and "i < zs" and "0 < i"
  shows "string6_loop gs zs ze i = '':'' @ colons (take (zs - i) (drop i gs)) @ string6_loop gs zs ze zs"
  using assms(4,5)
proof (induction "zs - i" arbitrary: i)
  case (Suc n)
  then have i: "i < 8" "i \<noteq> zs" "i < zs" using assms by auto
  have d: "drop i gs = gs ! i # drop (Suc i) gs" using i assms(1) by (simp add: Cons_nth_drop_Suc)
  have l: "string6_loop gs zs ze i = '':'' @ hex (gs ! i) @ string6_loop gs zs ze (i + 1)"
    using i Suc.prems by (subst string6_loop.simps) (simp add: hex_def)
  show ?case
  proof (cases "i + 1 = zs")
    case True
    then have "zs - i = 1" using i by simp
    then show ?thesis using l d True by simp
  next
    case False
    then have i1: "i + 1 < zs" using i by simp
    have IH: "string6_loop gs zs ze (i + 1) = '':'' @ colons (take (zs - (i + 1)) (drop (i + 1) gs)) @ string6_loop gs zs ze zs"
      by (rule Suc.hyps(1)) (use Suc.hyps(2) i1 in auto)
    obtain g r where r: "take (zs - Suc i) (drop (Suc i) gs) = g # r"
      using i1 assms by (cases "take (zs - Suc i) (drop (Suc i) gs)") auto
    have "zs - i = Suc (zs - Suc i)" using i by simp
    then show ?thesis using l d IH r by simp
  qed
qed simp

lemma string6_run:
  assumes "length gs = 8" and "zs < ze" and "ze \<le> 8"
  shows "string6_loop gs zs ze zs = ''::'' @ colons (drop ze gs)"
proof (cases "ze = 8")
  case True
  then show ?thesis using assms by (subst string6_loop.simps) simp
next
  case False
  then have z: "ze < 8" using assms(3) by simp
  have d: "drop ze gs = gs ! ze # drop (Suc ze) gs" using z assms(1) by (simp add: Cons_nth_drop_Suc)
  have a: "string6_loop gs zs ze (ze + 1) = (if ze + 1 = 8 then [] else '':'' @ colons (drop (ze + 1) gs))"
    by (rule string6_after) (use assms z in auto)
  have l: "string6_loop gs zs ze zs = ''::'' @ hex (gs ! ze) @ string6_loop gs zs ze (ze + 1)"
    using z assms by (subst string6_loop.simps) (simp add: hex_def)
  show ?thesis
  proof (cases "ze + 1 = 8")
    case True
    then show ?thesis using l a d assms(1) by simp
  next
    case False
    then obtain g r where "drop (Suc ze) gs = g # r" using assms(1) z by (cases "drop (Suc ze) gs") auto
    then show ?thesis using l a d False by simp
  qed
qed

lemma string6_text:
  assumes "length gs = 8" and "zero_run_ok gs (zs, ze)"
  shows "string6_loop gs zs ze 0 = (if zs = 255 then colons gs else colons (take zs gs) @ ''::'' @ colons (drop ze gs))"
proof -
  obtain g0 g1 r where g: "gs = g0 # g1 # r" using assms(1) by (cases gs rule: remdups_adj.cases) auto
  have l: "string6_loop gs zs ze 0 = hex g0 @ string6_loop gs zs ze 1" if "zs \<noteq> 0"
    using that by (subst string6_loop.simps) (simp add: hex_def g)
  show ?thesis
  proof (cases "zs = 255")
    case True
    then have "string6_loop gs zs ze 1 = '':'' @ colons (drop 1 gs)" by (subst string6_after) (use assms in simp_all)
    then show ?thesis using True l g by simp
  next
    case False
    then have z: "zs + 2 \<le> ze" "ze \<le> 8" using assms by (auto simp: zero_run_ok_def)
    have run: "string6_loop gs zs ze zs = ''::'' @ colons (drop ze gs)" by (rule string6_run) (use assms z in simp_all)
    consider "zs = 0" | "zs = 1" | n where "zs = Suc (Suc n)" by (metis One_nat_def not0_implies_Suc)
    then show ?thesis
    proof cases
      case 1
      then show ?thesis using run by simp
    next
      case 2
      then have "take zs gs = [g0]" by (simp add: g)
      then show ?thesis using run l 2 by simp
    next
      case 3
      have b: "string6_loop gs zs ze 1 = '':'' @ colons (take (zs - 1) (drop 1 gs)) @ string6_loop gs zs ze zs"
        by (rule string6_before) (use assms z 3 in simp_all)
      have "colons (take zs gs) = hex g0 @ '':'' @ colons (take (zs - 1) (drop 1 gs))" by (simp add: g 3)
      then show ?thesis using l b run False 3 by simp
    qed
  qed
qed

section \<open>Groups and bytes\<close>

lemma u16_high: "(word_of_nat (unat (x :: u16) div 256) :: byte) = ucast (drop_bit 8 x)"
proof -
  have "unat x div 256 = drop_bit 8 (unat x)" by (simp add: drop_bit_eq_div)
  then show ?thesis by (auto intro!: bit_word_eqI simp: bit_simps)
qed

lemma u16_low: "(word_of_nat (unat (x :: u16) mod 256) :: byte) = ucast x"
proof -
  have "unat x mod 256 = take_bit 8 (unat x)" by (simp add: take_bit_eq_mod)
  then show ?thesis by (auto intro!: bit_word_eqI simp: bit_simps)
qed

lemma group_byte:
  fixes w :: "128 word"
  shows "(ucast (drop_bit 8 (ucast (drop_bit k w) :: u16)) :: byte) = ucast (drop_bit (k + 8) w)"
    and "(ucast (ucast (drop_bit k w) :: u16) :: byte) = ucast (drop_bit k w)"
  by (auto intro!: bit_word_eqI simp: bit_simps ac_simps)

lemma v6_groups_list: "v6_groups w = map (\<lambda>k. unat (ucast (drop_bit k w) :: u16)) [112, 96, 80, 64, 48, 32, 16, 0]"
  by (simp add: v6_groups_def upt_rec)

lemma v6_groups_ok: "length (v6_groups w) = 8" "\<forall>g\<in>set (v6_groups w). g < 65536"
proof -
  have "unat (x :: u16) < 65536" for x using unsigned_less [of x, where ?'a = nat] by simp
  then show "\<forall>g\<in>set (v6_groups w). g < 65536" by (auto simp: v6_groups_def)
qed (simp add: v6_groups_def)

lemma v6_groups_bytes: "map word_of_nat (group_bytes (v6_groups w)) = rev (le_bytes 16 w)"
  by (simp add: v6_groups_list u16_high u16_low group_byte group_byte [of 0 w, simplified] wire_simps drop_bit_drop_bit)

lemma AddrFrom16_groups: "AddrFrom16 (map word_of_nat (group_bytes (v6_groups w))) = Addr6 w []"
proof -
  have "le_word 16 (le_bytes 16 w) = w"
    using le_word_le_bytes_append [of 16 w "[]"] take_bit_length_eq [of w] by simp
  then show ?thesis by (simp add: AddrFrom16_def v6_groups_bytes)
qed

lemma le_word_all_zeros: "le_word n (replicate n 0) = 0"
  by (induction n) simp_all

section \<open>IPv6 addresses\<close>

lemma split_run:
  assumes "zs \<le> ze" and "ze \<le> length gs" and "\<forall>i. zs \<le> i \<and> i < ze \<longrightarrow> gs ! i = 0"
  shows "gs = take zs gs @ replicate (ze - zs) 0 @ drop ze gs"
proof (rule nth_equalityI)
  show "length gs = length (take zs gs @ replicate (ze - zs) 0 @ drop ze gs)" using assms by simp
  show "gs ! i = (take zs gs @ replicate (ze - zs) 0 @ drop ze gs) ! i" if "i < length gs" for i
    using assms that by (auto simp: nth_append)
qed

lemma group_bytes_zeros: "group_bytes (replicate n 0) = replicate (2 * n) 0"
  by (induction n) simp_all

lemma expand_run:
  assumes "length gs = 8" and "zs < ze" and "ze \<le> 8" and "\<forall>i. zs \<le> i \<and> i < ze \<longrightarrow> gs ! i = 0"
  shows "expand_ellipsis (group_bytes (take zs gs) @ group_bytes (drop ze gs)) (Some (2 * zs)) = Some (group_bytes gs)"
proof -
  have "group_bytes gs = group_bytes (take zs gs @ replicate (ze - zs) 0 @ drop ze gs)"
    by (rule arg_cong [OF split_run]) (use assms in auto)
  also have "\<dots> = group_bytes (take zs gs) @ replicate (2 * (ze - zs)) 0 @ group_bytes (drop ze gs)"
    by (simp only: group_bytes_simps group_bytes_zeros)
  finally have g: "group_bytes gs = group_bytes (take zs gs) @ replicate (2 * (ze - zs)) 0 @ group_bytes (drop ze gs)" .
  have l: "length (group_bytes (take zs gs)) = 2 * zs" "length (group_bytes (drop ze gs)) = 2 * (8 - ze)" using assms by simp_all
  have "16 - (2 * zs + 2 * (8 - ze)) = 2 * (ze - zs)" "2 * zs + 2 * (8 - ze) < 16" using assms by auto
  then show ?thesis unfolding g expand_ellipsis_def using l by simp
qed

lemma string6_shape:
  obtains zs ze where "zero_run_ok (v6_groups w) (zs, ze)"
    and "string6 w = (if zs = 255 then colons (v6_groups w)
      else colons (take zs (v6_groups w)) @ ''::'' @ colons (drop ze (v6_groups w)))"
proof -
  obtain zs ze where z: "longest_zeros (v6_groups w) = (zs, ze)" by (cases "longest_zeros (v6_groups w)") auto
  note ok = longest_zeros_ok [OF v6_groups_ok(1), of w, unfolded z]
  show thesis by (rule that [OF ok]) (use string6_text [OF v6_groups_ok(1) ok] in \<open>simp add: string6_def z Let_def\<close>)
qed

lemma colons_not_ellipsis: "gs \<noteq> [] \<Longrightarrow> take 2 (colons gs @ r) \<noteq> ''::''"
  using colons_hd [of gs r] by (cases "colons gs @ r") auto

lemma v6_groups_small: "\<forall>g\<in>set (take n (v6_groups w)). g < 65536" "\<forall>g\<in>set (drop n (v6_groups w)). g < 65536"
  using v6_groups_ok(2) [of w] by (auto dest: in_set_takeD in_set_dropD)

lemma parse6_all_groups: "parseIPv6_body (colons (v6_groups w)) = Some (Addr6 w [])"
proof -
  note len = v6_groups_ok(1) [of w]
  then have g: "v6_groups w \<noteq> []" by auto
  have "parseIPv6_loop (colons (v6_groups w)) [] None = Some ([], group_bytes (v6_groups w), None)"
    using parse6_groups [OF g v6_groups_ok(2), of "[]" None] len by simp
  then show ?thesis
    using colons_not_ellipsis [OF g, of "[]"] AddrFrom16_groups [of w] len by (simp add: parseIPv6_body_def expand_ellipsis_def)
qed

text \<open>The groups behind the ellipsis, read after those before it.\<close>

lemma parse6_tail:
  assumes "zs < ze" and "ze < 8"
  shows "parseIPv6_loop (colons (drop ze (v6_groups w))) (group_bytes (take zs (v6_groups w))) (Some (2 * zs))
    = Some ([], group_bytes (take zs (v6_groups w)) @ group_bytes (drop ze (v6_groups w)), Some (2 * zs))"
  by (rule parse6_groups) (use assms v6_groups_small v6_groups_ok(1) [of w] in auto)

lemma colons_drop_Nil: "colons (drop ze (v6_groups w)) = [] \<longleftrightarrow> 8 \<le> ze"
  using colons_hd [of "drop ze (v6_groups w)" "[]"] v6_groups_ok(1) [of w] by (cases "drop ze (v6_groups w) = []") auto

lemma parse6_ellipsis_first:
  assumes "0 < ze" and "ze \<le> 8" and "\<forall>i<ze. v6_groups w ! i = 0"
  shows "parseIPv6_body (''::'' @ colons (drop ze (v6_groups w))) = Some (Addr6 w [])"
proof -
  note len = v6_groups_ok(1) [of w]
  have E: "expand_ellipsis (group_bytes (drop ze (v6_groups w))) (Some 0) = Some (group_bytes (v6_groups w))"
    using expand_run [OF len, of 0 ze] assms by simp
  show ?thesis
  proof (cases "ze = 8")
    case True
    then have "group_bytes (v6_groups w) = replicate 16 0" using E len by (simp add: expand_ellipsis_def)
    then have "Addr6 w [] = AddrFrom16 (map word_of_nat (replicate 16 0))" using AddrFrom16_groups [of w] by simp
    also have "\<dots> = Addr6 0 []" by (simp add: AddrFrom16_def le_word_all_zeros)
    finally show ?thesis using True len by (simp add: parseIPv6_body_def)
  next
    case False
    then show ?thesis using parse6_tail [of 0 ze w] colons_drop_Nil [of ze w] E AddrFrom16_groups [of w] assms
      by (simp add: parseIPv6_body_def)
  qed
qed

lemma parse6_ellipsis_inside:
  assumes "0 < zs" and "zs < ze" and "ze \<le> 8" and "\<forall>i. zs \<le> i \<and> i < ze \<longrightarrow> v6_groups w ! i = 0"
  shows "parseIPv6_body (colons (take zs (v6_groups w)) @ ''::'' @ colons (drop ze (v6_groups w))) = Some (Addr6 w [])"
proof -
  note len = v6_groups_ok(1) [of w]
  have h: "take zs (v6_groups w) \<noteq> []" using assms(1) len by auto
  have "length (take zs (v6_groups w)) = zs" using assms len by simp
  then have "parseIPv6_loop (colons (take zs (v6_groups w)) @ ''::'' @ colons (drop ze (v6_groups w))) [] None
      = Some ([], group_bytes (take zs (v6_groups w)) @ group_bytes (drop ze (v6_groups w)), Some (2 * zs))"
    using parse6_head [OF h v6_groups_small(1), of "[]" "colons (drop ze (v6_groups w))"] parse6_tail [OF assms(2), of w]
      colons_drop_Nil [of ze w] assms len by (auto simp: Let_def)
  then show ?thesis
    using colons_not_ellipsis [OF h, of "''::'' @ colons (drop ze (v6_groups w))"] expand_run [OF len assms(2-4)]
      AddrFrom16_groups [of w]
    by (simp add: parseIPv6_body_def)
qed

lemma parseIPv6_body_string6: "parseIPv6_body (string6 w) = Some (Addr6 w [])"
proof -
  let ?gs = "v6_groups w"
  obtain zs ze where ok: "zero_run_ok ?gs (zs, ze)"
    and s: "string6 w = (if zs = 255 then colons ?gs else colons (take zs ?gs) @ ''::'' @ colons (drop ze ?gs))"
    by (rule string6_shape)
  have r: "zs < ze" "ze \<le> 8" "\<forall>i. zs \<le> i \<and> i < ze \<longrightarrow> ?gs ! i = 0" if "zs \<noteq> 255"
    using that ok v6_groups_ok(1) [of w] by (auto simp: zero_run_ok_def)
  consider "zs = 255" | "zs = 0" | "zs \<noteq> 255" "0 < zs" by blast
  then show ?thesis
    using s r parse6_all_groups [of w] parse6_ellipsis_first [of ze w] parse6_ellipsis_inside [of zs ze w]
    by cases simp_all
qed

lemma colons_marks: "c \<in> {CHR ''.'', CHR ''%'', CHR ''/''} \<Longrightarrow> c \<notin> set (colons gs)"
  using hex_marks [of c] by (induction gs rule: induct_list012) auto

lemma string6_marks: "c \<in> {CHR ''.'', CHR ''%'', CHR ''/''} \<Longrightarrow> c \<notin> set (string6 w)"
  by (rule string6_shape [of w]) (use colons_marks [of c] in auto)

lemma ParseAddr_scan_colon:
  "CHR ''.'' \<notin> set cs \<Longrightarrow> CHR ''%'' \<notin> set cs \<Longrightarrow> CHR '':'' \<in> set cs \<Longrightarrow> ParseAddr_scan s cs = parseIPv6 s"
  by (induction cs) auto

lemma string6_colon: "CHR '':'' \<in> set (string6 w)"
proof -
  obtain g0 g1 r where "v6_groups w = g0 # g1 # r" using v6_groups_list [of w] by simp
  then have "CHR '':'' \<in> set (colons (v6_groups w))" by simp
  moreover obtain zs ze where "string6 w = (if zs = 255 then colons (v6_groups w)
      else colons (take zs (v6_groups w)) @ ''::'' @ colons (drop ze (v6_groups w)))"
    by (rule string6_shape)
  ultimately show ?thesis by (cases "zs = 255") simp_all
qed

lemma ParseAddr_string6: "ParseAddr (string6 w) = Some (Addr6 w [])"
proof -
  have "ParseAddr (string6 w) = parseIPv6 (string6 w)"
    unfolding ParseAddr_def by (rule ParseAddr_scan_colon) (use string6_marks string6_colon in auto)
  then show ?thesis using string6_marks [of "CHR ''%''" w] by (simp add: parseIPv6_def parseIPv6_body_string6)
qed

section \<open>Mapped addresses\<close>

lemma dot_ends [simp]: "ends_group (CHR ''.'' # r)"
  by (simp add: ends_group_def hex_digit_def)

text \<open>The decimal digits of a byte, read as a group of hexadecimal digits, end at the dot.\<close>

lemma hex_group_byte:
  assumes "b < 256"
  shows "\<exists>k acc. 0 < k \<and> hex_group (nat_digits 10 b @ CHR ''.'' # r) 0 0 = Some (k, acc, CHR ''.'' # r)"
proof -
  consider "b < 10" | "10 \<le> b" "b < 100" | "100 \<le> b" by linarith
  then show ?thesis
  proof cases
    case 1
    then show ?thesis by (simp add: nat_digits_small hex_group_digit hex_group_stop del: hex_group.simps)
  next
    case 2
    have d: "b div 10 < 10" "b mod 10 < 10" using 2 by auto
    then have "16 * (b div 10) + b mod 10 < 65536" by linarith
    then show ?thesis using 2 d by (simp add: nat_digits_step nat_digits_small hex_group_digit hex_group_stop del: hex_group.simps)
  next
    case 3
    have d: "b div 10 div 10 < 10" "b div 10 mod 10 < 10" "b mod 10 < 10" using assms by auto
    have "16 * (16 * x + y) + z < 65536 \<and> 16 * x + y < 65536" if "x < 10" "y < 10" "z < 10" for x y z :: nat
      using that by auto
    note this [OF d]
    moreover have "nat_digits 10 b = [digit_char (b div 10 div 10), digit_char (b div 10 mod 10), digit_char (b mod 10)]"
      using 3 d by (simp add: nat_digits_step nat_digits_small)
    ultimately show ?thesis using d by (simp add: hex_group_digit hex_group_stop del: hex_group.simps)
  qed
qed

lemma parse6_string4:
  assumes "length ip \<le> 12"
  shows "parseIPv6_loop (string4 v) ip (Some e) = Some ([], ip @ map unat (rev (le_bytes 4 v)), Some e)"
proof -
  obtain a r where s: "string4 v = nat_digits 10 (unat (a :: byte)) @ CHR ''.'' # r" using string4_bytes [of v] by auto
  obtain k acc where "0 < k" "hex_group (string4 v) 0 0 = Some (k, acc, CHR ''.'' # r)"
    using hex_group_byte [OF byte_less, of a r] s by auto
  then show ?thesis using assms parse4_string4 [of v] by (subst parseIPv6_loop.simps) simp
qed

lemma ucast_low:
  fixes w :: "128 word"
  shows "k + 8 \<le> 32 \<Longrightarrow> (ucast (drop_bit k (ucast w :: u32)) :: byte) = ucast (drop_bit k w)"
  by (auto intro!: bit_word_eqI simp: bit_simps)

lemma le_bytes_list:
  "le_bytes 4 v = map (\<lambda>k. ucast (drop_bit k v)) [0, 8, 16, 24]"
  "le_bytes 16 v = map (\<lambda>k. ucast (drop_bit k v)) [0, 8, 16, 24, 32, 40, 48, 56, 64, 72, 80, 88, 96, 104, 112, 120]"
  by (simp_all add: wire_simps drop_bit_drop_bit)

lemma mapped_bytes:
  fixes w :: "128 word"
  assumes "drop_bit 32 w = 0xffff"
  shows "le_bytes 16 w = le_bytes 4 (ucast w :: u32) @ [0xff, 0xff] @ replicate 10 0"
proof -
  have m: "drop_bit 40 w = drop_bit 8 (drop_bit 32 w)" "drop_bit 48 w = drop_bit 16 (drop_bit 32 w)"
    by (simp_all only: drop_bit_drop_bit) simp_all
  have hi: "drop_bit 40 w = 0xff" "drop_bit 48 w = 0" unfolding m assms by (simp_all add: drop_bit_eq_div)
  have top: "drop_bit (48 + k) w = 0" for k using hi(2) by (metis add.commute drop_bit_drop_bit drop_bit_of_0)
  note T = top [of 8] top [of 16] top [of 24] top [of 32] top [of 40] top [of 48] top [of 56] top [of 64] top [of 72]
  have z: "replicate 10 0 = [0, 0, 0, 0, 0, 0, 0, 0, 0, 0 :: byte]" by (simp add: numeral_eq_Suc)
  show ?thesis
    unfolding le_bytes_list z using assms hi T [simplified] ucast_low [of 0 w] by (simp add: ucast_low)
qed

lemma ParseAddr_mapped:
  assumes "drop_bit 32 (w :: 128 word) = 0xffff"
  shows "ParseAddr (''::ffff:'' @ string4 (ucast w)) = Some (Addr6 w [])"
proof -
  let ?v = "ucast w :: u32" and ?s = "''::ffff:'' @ string4 (ucast w)"
  obtain a b c d :: byte where s4: "string4 ?v = nat_digits 10 (unat a) @ CHR ''.'' # nat_digits 10 (unat b)
     @ CHR ''.'' # nat_digits 10 (unat c) @ CHR ''.'' # nat_digits 10 (unat d)" using string4_bytes by blast
  then have pc: "CHR ''%'' \<notin> set (string4 ?v)" using nat_digits_marks [of 10 "CHR ''%''"] by auto
  have "hd (nat_digits 10 (unat a)) \<in> set (nat_digits 10 (unat a))" by simp
  moreover have "CHR '':'' \<notin> set (nat_digits 10 (unat a))" by (rule nat_digits_marks) simp_all
  ultimately have "hd (nat_digits 10 (unat a)) \<noteq> CHR '':''" by metis
  then have hd4: "string4 ?v \<noteq> []" "hd (string4 ?v) \<noteq> CHR '':''" using s4 by simp_all
  have ffff: "hex 0xffff = ''ffff''" by code_simp
  have "parseIPv6_loop (''ffff:'' @ string4 ?v) [] (Some 0) = parseIPv6_loop (string4 ?v) [255, 255] (Some 0)"
    using parse6_group [where g = "0xffff" and ip = "[]" and cs = "string4 ?v" and e = "Some 0"] hd4 ffff by simp
  also have "\<dots> = Some ([], [255, 255] @ map unat (rev (le_bytes 4 ?v)), Some 0)"
    by (rule parse6_string4) simp
  finally have loop: "parseIPv6_loop (''ffff:'' @ string4 ?v) [] (Some 0) = \<dots>" .
  have "AddrFrom16 (map word_of_nat (replicate 10 0 @ [255, 255] @ map unat (rev (le_bytes 4 ?v)))) = Addr6 w []"
  proof -
    have "map word_of_nat (replicate 10 0 @ [255, 255] @ map unat (rev (le_bytes 4 ?v))) = rev (le_bytes 16 w)"
      unfolding mapped_bytes [OF assms] by (simp add: comp_def)
    moreover have "le_word 16 (le_bytes 16 w) = w"
      using le_word_le_bytes_append [of 16 w "[]"] take_bit_length_eq [of w] by simp
    ultimately show ?thesis by (simp only: AddrFrom16_def rev_rev_ident)
  qed
  then have "parseIPv6_body ?s = Some (Addr6 w [])" using loop by (simp add: parseIPv6_body_def expand_ellipsis_def)
  moreover have "ParseAddr ?s = parseIPv6 ?s" by (simp add: ParseAddr_def)
  ultimately show ?thesis using pc by (simp add: parseIPv6_def)
qed

section \<open>Addresses and prefixes\<close>

lemma ParseAddr_addr_String:
  assumes "a \<noteq> AddrZero" and "addr_Zone a = []"
  shows "ParseAddr (addr_String a) = Some a"
proof (cases a)
  case (Addr6 w z)
  then show ?thesis using assms ParseAddr_string6 [of w] ParseAddr_mapped [of w] by simp
qed (use assms ParseAddr_string4 in simp_all)

lemma string4_slash: "CHR ''/'' \<notin> set (string4 w)"
  using string4_bytes [of w] nat_digits_marks [of 10 "CHR ''/''"] by auto

lemma addr_String_slash: "addr_Zone a = [] \<Longrightarrow> a \<noteq> AddrZero \<Longrightarrow> CHR ''/'' \<notin> set (addr_String a)"
  using string4_slash string6_marks by (cases a) auto

lemma cut_last_slash_append:
  assumes "CHR ''/'' \<notin> set b"
  shows "cut_last_slash (a @ CHR ''/'' # b) = Some (a, b)"
  using Cut_append [of "CHR ''/''" "rev b" "rev a"] assms by (simp add: cut_last_slash_def)

lemma nat_digits_lead:
  "2 \<le> base \<Longrightarrow> 0 < n \<Longrightarrow> \<exists>d. 0 < d \<and> d < base \<and> hd (nat_digits base n) = digit_char d"
proof (induction base n rule: nat_digits.induct)
  case (1 base n)
  show ?case
  proof (cases "n < base")
    case True
    then show ?thesis using 1 by (auto simp: nat_digits_small)
  next
    case False
    then have "0 < n div base" using 1 by (simp add: div_greater_zero_iff)
    then show ?thesis using 1 False by (simp add: nat_digits_step)
  qed
qed

lemma digit_char_zero: "d < 16 \<Longrightarrow> digit_char d = CHR ''0'' \<Longrightarrow> d = 0"
  using hex_digit_char [of d] hex_digit_char [of 0] by (simp add: digit_char_def)

lemma bits_text:
  assumes "0 \<le> n" and "n \<le> 128"
  shows "CHR ''/'' \<notin> set (FormatInt n) \<and> Atoi (FormatInt n) = Some n
    \<and> \<not> (length (FormatInt n) > 1 \<and> (hd (FormatInt n) = CHR ''0'' \<or> dec_digit (hd (FormatInt n)) = None))"
proof -
  have "\<not> (length (FormatInt n) > 1 \<and> (hd (FormatInt n) = CHR ''0'' \<or> dec_digit (hd (FormatInt n)) = None))"
  proof (cases "n = 0")
    case False
    then obtain d where "0 < d" "d < 10" "hd (FormatInt n) = digit_char d"
      using assms nat_digits_lead [of 10 "nat n"] by (auto simp: FormatInt_def)
    then show ?thesis using digit_char_zero [of d] by auto
  qed (simp add: FormatInt_def nat_digits_small)
  moreover have "CHR ''/'' \<notin> set (FormatInt n)" using assms nat_digits_marks [of 10 "CHR ''/''"] by (simp add: FormatInt_def)
  moreover have "Atoi (FormatInt n) = Some n" using assms by (intro ParseInt10_FormatInt) (simp add: int64_range_def)
  ultimately show ?thesis by blast
qed

text \<open>A prefix that \<open>PrefixFrom\<close> made.\<close>

definition plain_prefix :: "prefix \<Rightarrow> bool" where
  "plain_prefix p \<longleftrightarrow> p_addr p \<noteq> AddrZero \<and> addr_Zone (p_addr p) = [] \<and> 0 \<le> p_bits p \<and> p_bits p \<le> BitLen (p_addr p)"

lemma ParsePrefix_String:
  assumes "plain_prefix p"
  shows "netip_ParsePrefix (prefix_String p) = Some p"
proof -
  have b: "0 \<le> p_bits p" "p_bits p \<le> 128"
    using assms by (cases "p_addr p"; auto simp: plain_prefix_def)+
  have v: "prefix_String p = addr_String (p_addr p) @ CHR ''/'' # FormatInt (p_bits p)"
    using assms by (simp add: prefix_String_def prefix_IsValid_def plain_prefix_def)
  have "cut_last_slash (prefix_String p) = Some (addr_String (p_addr p), FormatInt (p_bits p))"
    unfolding v using bits_text [OF b] by (intro cut_last_slash_append) blast
  moreover have "ParseAddr (addr_String (p_addr p)) = Some (p_addr p)"
    using assms by (intro ParseAddr_addr_String) (simp_all add: plain_prefix_def)
  moreover have "PrefixFrom (p_addr p) (p_bits p) = p"
    using assms by (cases p; cases "p_addr p") (auto simp: plain_prefix_def PrefixFrom_def)
  moreover have "p_bits p \<le> (if addr_Is6 (p_addr p) then 128 else 32)"
    using assms by (cases "p_addr p") (auto simp: plain_prefix_def)
  ultimately show ?thesis
    using bits_text [OF b] assms b by (simp add: netip_ParsePrefix_def plain_prefix_def not_less [symmetric])
qed

section \<open>What parsing and masking give\<close>

lemma PrefixFrom_plain:
  "a \<noteq> AddrZero \<Longrightarrow> 0 \<le> n \<Longrightarrow> n \<le> BitLen a \<Longrightarrow> plain_prefix (PrefixFrom a n)"
  by (cases a) (auto simp: plain_prefix_def PrefixFrom_def)

lemma Masked_plain: "plain_prefix p \<Longrightarrow> plain_prefix (Masked p)"
  by (cases "p_addr p") (auto simp: plain_prefix_def Masked_def Let_def PrefixFrom_def)

lemma Masked_idem: "Masked (Masked p) = Masked p"
  by (cases "p_addr p")
    (auto simp: Masked_def Let_def PrefixFrom_def zero_prefix_def mask_top_def and.assoc)

lemma parseIPv4_nonzero: "parseIPv4 s = Some a \<Longrightarrow> a \<noteq> AddrZero"
  by (auto simp: parseIPv4_def AddrFrom4_def)

lemma parseIPv6_nonzero: "parseIPv6 s = Some a \<Longrightarrow> a \<noteq> AddrZero"
  by (auto simp: parseIPv6_def parseIPv6_body_def AddrFrom16_def Let_def split: if_splits option.splits prod.splits)

lemma ParseAddr_scan_nonzero: "ParseAddr_scan s cs = Some a \<Longrightarrow> a \<noteq> AddrZero"
  by (induction cs) (auto dest: parseIPv4_nonzero parseIPv6_nonzero split: if_splits)

lemma ParseAddr_nonzero: "ParseAddr s = Some a \<Longrightarrow> a \<noteq> AddrZero"
  by (auto simp: ParseAddr_def dest: ParseAddr_scan_nonzero)

lemma ParsePrefix_plain:
  assumes "netip_ParsePrefix s = Some p"
  shows "plain_prefix p"
proof -
  obtain t a n where "ParseAddr t = Some a" "p = PrefixFrom a n" "0 \<le> n" "n \<le> (if addr_Is6 a then 128 else 32)"
    using assms by (auto simp: netip_ParsePrefix_def split: option.splits if_splits)
  moreover from this have "a \<noteq> AddrZero" by (simp add: ParseAddr_nonzero)
  ultimately show ?thesis by (cases a) (auto intro!: PrefixFrom_plain split: if_splits)
qed

section \<open>Canonical prefixes\<close>

text \<open>A canonical prefix is its own masked form, and its text gives the prefix whose bytes are hashed.\<close>

lemma canonCIDR_prefix:
  assumes "canonCIDR s = Inr (v, q)"
  shows "\<exists>p. plain_prefix p \<and> Masked p = p \<and> v = prefix_String p \<and> q = materialPrefix p"
proof (cases "netip_ParsePrefix s")
  case (Some p)
  then show ?thesis
    using assms Masked_plain [OF ParsePrefix_plain [OF Some]] Masked_idem [of p]
    by (intro exI [of _ "Masked p"]) (auto simp: canonCIDR_def Let_def)
next
  case None
  then obtain a where a: "ParseAddr s = Some a" using assms by (auto simp: canonCIDR_def split: option.splits)
  let ?a = "if Is4In6 a then Unmap a else a"
  let ?p = "PrefixFrom ?a (BitLen ?a)"
  have vq: "v = prefix_String ?p" "q = ?p" using assms None a by (auto simp: canonCIDR_def Let_def split: if_splits)
  have nz: "?a \<noteq> AddrZero" using ParseAddr_nonzero [OF a] by (cases a) auto
  then have plain: "plain_prefix ?p" by (cases ?a) (auto intro!: PrefixFrom_plain)
  have n4: "\<not> Is4In6 ?a" by (cases a) auto
  have m: "Masked ?p = ?p" using nz by (cases ?a) (auto simp: Masked_def Let_def PrefixFrom_def mask_top_def)
  have "materialPrefix ?p = ?p"
    using n4 nz m by (cases ?a) (auto simp: materialPrefix_def Let_def PrefixFrom_def)
  then show ?thesis using plain m vq by auto
qed

lemma canonCIDR_String:
  assumes "plain_prefix p" and "Masked p = p"
  shows "canonCIDR (prefix_String p) = Inr (prefix_String p, materialPrefix p)"
  using ParsePrefix_String [OF assms(1)] assms(2) by (simp add: canonCIDR_def Let_def)

lemma set_ParsePrefix_String: "plain_prefix p \<Longrightarrow> set_ParsePrefix (prefix_String p) = Some (materialPrefix p)"
  by (simp add: set_ParsePrefix_def ParsePrefix_String)

end
