(* ===== verification/CanonProps.thy ===== *)
theory CanonProps
  imports NetRound
begin

text \<open>
  What canonicalisation promises to the rest of the keeper: a canonical value is a fixed point, it is one of the
  values the type of the set admits, and both routes to the hash material give the same bytes.
\<close>

section \<open>Length of printed values\<close>

lemma nat_digits_length:
  "2 \<le> base \<Longrightarrow> n < base ^ Suc k \<Longrightarrow> length (nat_digits base n) \<le> Suc k"
proof (induction k arbitrary: n)
  case (Suc k)
  show ?case
  proof (cases "n < base")
    case False
    then have "nat_digits base n = nat_digits base (n div base) @ [digit_char (n mod base)]"
      using Suc.prems(1) by (intro nat_digits_step) simp_all
    moreover have "n div base < base ^ Suc k" using Suc.prems by (simp add: less_mult_imp_div_less mult.commute)
    ultimately show ?thesis using Suc.IH [OF Suc.prems(1)] by simp
  qed (simp add: nat_digits_small)
qed (simp add: nat_digits_small)

lemma join_with_length: "\<forall>s\<in>set ss. length s \<le> k \<Longrightarrow> length (join_with [c] ss) \<le> (k + 1) * length ss"
  by (induction ss rule: induct_list012) auto

lemma string4_length: "length (string4 w) \<le> 16"
proof -
  have b: "unat (b :: byte) < 10 ^ Suc 2" for b using unsigned_less [of b, where ?'a = nat] by simp
  have "length (nat_digits 10 (unat b)) \<le> 3" for b :: byte
    using nat_digits_length [OF _ b [of b]] by (simp add: eval_nat_numeral)
  then show ?thesis
    using join_with_length [of "map (\<lambda>b. nat_digits 10 (unat b)) (rev (le_bytes 4 w))" 3 "CHR ''.''"]
    by (simp add: string4_def)
qed

lemma hex_length: "g < 65536 \<Longrightarrow> length (hex g) \<le> 4"
  using nat_digits_length [of 16 g 3] by (simp add: hex_def)

lemma colons_length: "\<forall>g\<in>set gs. g < 65536 \<Longrightarrow> length (colons gs) \<le> 5 * length gs"
proof (induction gs rule: induct_list012)
  case (2 g)
  then show ?case using hex_length [of g] by simp
next
  case (3 g h gs)
  then show ?case using hex_length [of g] by simp
qed simp

lemma string6_length: "length (string6 w) \<le> 82"
proof -
  have small: "\<forall>g\<in>set (take n (v6_groups w)). g < 65536" "\<forall>g\<in>set (drop n (v6_groups w)). g < 65536" for n
    using v6_groups_ok(2) [of w] by (auto dest: in_set_takeD in_set_dropD)
  have c: "length (colons (take n (v6_groups w))) \<le> 40" "length (colons (drop n (v6_groups w))) \<le> 40" for n
    using colons_length [OF small(1), of n] colons_length [OF small(2), of n] v6_groups_ok(1) [of w] by auto
  obtain zs ze where s: "string6 w = (if zs = 255 then colons (v6_groups w)
      else colons (take zs (v6_groups w)) @ ''::'' @ colons (drop ze (v6_groups w)))"
    by (rule string6_shape)
  show ?thesis
  proof (cases "zs = 255")
    case True
    then show ?thesis using s c(1) [of 8] v6_groups_ok(1) [of w] by simp
  next
    case False
    then show ?thesis using s c(1) [of zs] c(2) [of ze] by simp
  qed
qed

lemma FormatInt_length: "int64_range n \<Longrightarrow> length (FormatInt n) \<le> 21"
proof -
  assume "int64_range n"
  then have "\<bar>n\<bar> < 10 ^ Suc 19" by (auto simp: int64_range_def abs_if)
  then have "nat \<bar>n\<bar> < 10 ^ Suc 19" by (simp add: nat_less_iff)
  then show ?thesis using nat_digits_length [of 10 "nat \<bar>n\<bar>" 19] by (auto simp: FormatInt_def)
qed

lemma prefix_String_length:
  assumes "plain_prefix p"
  shows "length (prefix_String p) \<le> ValueMax"
proof -
  have "length (addr_String (p_addr p)) \<le> 82"
    using assms string4_length string6_length
    by (cases "p_addr p") (auto simp: plain_prefix_def intro: le_trans [OF string4_length])
  moreover have "int64_range (p_bits p)" using assms by (cases "p_addr p") (auto simp: plain_prefix_def int64_range_def)
  ultimately show ?thesis
    using FormatInt_length [of "p_bits p"] assms
    by (simp add: prefix_String_def prefix_IsValid_def plain_prefix_def ValueMax_def)
qed

section \<open>Printed values have no space around them\<close>

lemma space_ends:
  "list_all (\<lambda>d. digit_char d \<notin> hd ` set space_encodings \<and> digit_char d \<notin> last ` set space_encodings) [0..<16]
   \<and> CHR ''-'' \<notin> hd ` set space_encodings \<and> CHR '':'' \<notin> hd ` set space_encodings"
  by code_simp

lemma digit_no_space: "d < 16 \<Longrightarrow> digit_char d \<notin> hd ` set space_encodings \<and> digit_char d \<notin> last ` set space_encodings"
  using space_ends by (simp add: list_all_iff)

lemma digits_no_space:
  assumes "2 \<le> base" and "base \<le> 16"
  shows "hd (nat_digits base n) \<notin> hd ` set space_encodings \<and> last (nat_digits base n) \<notin> last ` set space_encodings"
proof -
  obtain d d' where "d < base" "hd (nat_digits base n) = digit_char d" "d' < base" "last (nat_digits base n) = digit_char d'"
    using nat_digits_chars [OF assms, of "hd (nat_digits base n)" n] nat_digits_chars [OF assms, of "last (nat_digits base n)" n] by auto
  then show ?thesis using digit_no_space [of d] digit_no_space [of d'] assms by simp
qed

lemma TrimSpace_FormatInt: "TrimSpace (FormatInt n) = FormatInt n"
proof (rule TrimSpace_id)
  show "FormatInt n \<noteq> []" by (simp add: FormatInt_def)
  show "hd (FormatInt n) \<notin> hd ` set space_encodings" "last (FormatInt n) \<notin> last ` set space_encodings"
    using digits_no_space [of 10] space_ends by (auto simp: FormatInt_def)
qed

lemma colons_hd_no_space: "gs \<noteq> [] \<Longrightarrow> hd (colons gs @ r) \<notin> hd ` set space_encodings"
  using digits_no_space [of 16 "hd gs"] by (cases gs; cases "tl gs") (auto simp: hex_def)

lemma addr_String_hd:
  assumes "addr_Zone a = []" and "a \<noteq> AddrZero"
  shows "addr_String a \<noteq> [] \<and> hd (addr_String a) \<notin> hd ` set space_encodings"
proof (cases a)
  case (Addr4 w)
  obtain b bs where "rev (le_bytes 4 w) = b # bs" using length_le_bytes [of 4 w] by (cases "le_bytes 4 w" rule: rev_cases) auto
  then show ?thesis using Addr4 digits_no_space [of 10 "unat b"] by (cases bs) (auto simp: string4_def)
next
  case (Addr6 w z)
  have six: "string6 w \<noteq> [] \<and> hd (string6 w) \<notin> hd ` set space_encodings"
  proof -
    obtain zs ze where s: "string6 w = (if zs = 255 then colons (v6_groups w)
        else colons (take zs (v6_groups w)) @ ''::'' @ colons (drop ze (v6_groups w)))"
      by (rule string6_shape)
    have "colons gs @ r \<noteq> [] \<and> hd (colons gs @ r) \<notin> hd ` set space_encodings" if "gs \<noteq> [] \<or> hd r = CHR '':'' \<and> r \<noteq> []" for gs r
      using that colons_hd_no_space [of gs r] colons_hd [of gs r] space_ends by (cases "gs = []") auto
    note n = this [of "v6_groups w" "[]"] this [of "take zs (v6_groups w)" "''::'' @ colons (drop ze (v6_groups w))"]
    have "v6_groups w \<noteq> []" using v6_groups_ok(1) [of w] by auto
    then show ?thesis using n s by (cases "zs = 255") simp_all
  qed
  show ?thesis using six Addr6 assms space_ends by auto
qed (use assms in simp)

lemma TrimSpace_prefix_String:
  assumes "plain_prefix p"
  shows "TrimSpace (prefix_String p) = prefix_String p"
proof (rule TrimSpace_id)
  have s: "prefix_String p = addr_String (p_addr p) @ CHR ''/'' # FormatInt (p_bits p)"
    using assms by (simp add: prefix_String_def prefix_IsValid_def plain_prefix_def)
  show "prefix_String p \<noteq> []" unfolding s by simp
  show "hd (prefix_String p) \<notin> hd ` set space_encodings"
    using addr_String_hd [of "p_addr p"] assms unfolding s by (auto simp: plain_prefix_def)
  show "last (prefix_String p) \<notin> last ` set space_encodings"
    using digits_no_space [of 10] unfolding s by (auto simp: FormatInt_def)
qed

section \<open>Canonical values\<close>

lemma canonCIDR_fixed:
  assumes "canonCIDR s = Inr (v, q)"
  shows "canonCIDR v = Inr (v, q) \<and> TrimSpace v = v \<and> v \<noteq> [] \<and> length v \<le> ValueMax"
proof -
  obtain p where p: "plain_prefix p" "Masked p = p" "v = prefix_String p" "q = materialPrefix p"
    using canonCIDR_prefix [OF assms] by blast
  have "v \<noteq> []" using p by (simp add: prefix_String_def prefix_IsValid_def plain_prefix_def)
  then show ?thesis
    using p canonCIDR_String [OF p(1,2)] TrimSpace_prefix_String [OF p(1)] prefix_String_length [OF p(1)] by simp
qed

text \<open>A value is canonical for a type when canonicalisation keeps it.\<close>

definition canon_value :: "set_type \<Rightarrow> string \<Rightarrow> bool" where
  "canon_value t v \<longleftrightarrow> Canon t v = Inr v"

lemma CanonPrefix_fixed:
  assumes "CanonPrefix t raw = Inr (v, p)"
  shows "CanonPrefix t v = Inr (v, p)"
proof -
  let ?w = "TrimSpace raw"
  have w: "?w \<noteq> []" "length ?w \<le> ValueMax" using assms by (auto simp: CanonPrefix_def Let_def split: if_splits)
  consider (cidr) "t = TypeCIDR" "canonCIDR ?w = Inr (v, p)"
    | (num) n where "t = TypeNumeric" "ParseInt10 ?w = Some n" "v = FormatInt n" "p = zero_prefix"
    | (str) "t \<noteq> TypeCIDR" "t \<noteq> TypeNumeric" "v = ?w" "p = zero_prefix"
    using assms w by (auto simp: CanonPrefix_def Let_def split: if_splits option.splits)
  then show ?thesis
  proof cases
    case cidr
    then show ?thesis using canonCIDR_fixed [of ?w v p] by (simp add: CanonPrefix_def)
  next
    case num
    have "int64_range n" using ParseInt10_range [OF num(2)] .
    moreover have "FormatInt n \<noteq> []" by (simp add: FormatInt_def)
    ultimately show ?thesis using num TrimSpace_FormatInt [of n] FormatInt_length [of n] ParseInt10_FormatInt [of n]
      by (simp add: CanonPrefix_def ValueMax_def)
  next
    case str
    then show ?thesis using w TrimSpace_idem [of raw] by (simp add: CanonPrefix_def)
  qed
qed

lemma CanonPrefix_length:
  assumes "CanonPrefix t raw = Inr (v, p)"
  shows "TrimSpace v \<noteq> [] \<and> length v \<le> ValueMax"
proof -
  let ?w = "TrimSpace raw"
  have w: "?w \<noteq> []" "length ?w \<le> ValueMax" using assms by (auto simp: CanonPrefix_def Let_def split: if_splits)
  consider (cidr) "canonCIDR ?w = Inr (v, p)"
    | (num) n where "int64_range n" "v = FormatInt n"
    | (str) "v = ?w"
    using assms w ParseInt10_range by (auto simp: CanonPrefix_def Let_def split: if_splits option.splits)
  then show ?thesis
  proof cases
    case num
    moreover have "FormatInt n \<noteq> []" by (simp add: FormatInt_def)
    ultimately show ?thesis using TrimSpace_FormatInt [of n] FormatInt_length [of n] by (simp add: ValueMax_def)
  qed (use w canonCIDR_fixed [of ?w v p] TrimSpace_idem [of raw] in auto)
qed

lemma CanonPrefix_canonical: "CanonPrefix t raw = Inr (v, p) \<Longrightarrow> canon_value t v"
  using CanonPrefix_fixed by (simp add: canon_value_def Canon_def)

text \<open>The prefix that canonicalisation returns is the one the canonical text parses to.\<close>

lemma materialPrefix_plain: "plain_prefix p \<Longrightarrow> plain_prefix (materialPrefix p)"
proof -
  assume p: "plain_prefix p"
  have "plain_prefix (PrefixFrom (Unmap (p_addr p)) (p_bits p - 96))" if "Is4In6 (p_addr p)" "96 \<le> p_bits p"
    using p that by (cases "p_addr p") (auto simp: plain_prefix_def PrefixFrom_def)
  moreover have "plain_prefix (PrefixFrom (p_addr p) (p_bits p))"
    using p by (intro PrefixFrom_plain) (simp_all add: plain_prefix_def)
  ultimately show ?thesis by (simp add: materialPrefix_def Let_def Masked_plain)
qed

lemma CanonPrefix_cidr:
  assumes "CanonPrefix TypeCIDR raw = Inr (v, p)"
  obtains q where "plain_prefix q" "Masked q = q" "v = prefix_String q" "p = materialPrefix q"
  using assms canonCIDR_prefix [of "TrimSpace raw" v p] by (auto simp: CanonPrefix_def Let_def split: if_splits)

lemma CanonPrefix_parse:
  assumes "CanonPrefix TypeCIDR raw = Inr (v, p)"
  shows "set_ParsePrefix v = Some p" "plain_prefix p"
  using assms by (auto elim!: CanonPrefix_cidr simp: set_ParsePrefix_String materialPrefix_plain)

lemma CanonPrefix_material: "CanonPrefix TypeCIDR raw = Inr (v, p) \<Longrightarrow> Material TypeCIDR v = PrefixMaterial p"
  by (simp add: Material_def CanonPrefix_parse)

lemma canon_value_prefix: "canon_value t v \<Longrightarrow> \<exists>p. CanonPrefix t v = Inr (v, p)"
  by (cases "CanonPrefix t v") (auto simp: canon_value_def Canon_def)

section \<open>Distinct values have distinct material\<close>

text \<open>A prefix of IPv4-mapped addresses, whose material is that of the IPv4 prefix.\<close>

definition mapped_text :: "string \<Rightarrow> bool" where
  "mapped_text v = (case netip_ParsePrefix v of None \<Rightarrow> False | Some p \<Rightarrow> Is4In6 (p_addr p) \<and> 96 \<le> p_bits p)"

lemma materialPrefix_unmapped:
  assumes "plain_prefix p" and "Masked p = p" and "\<not> (Is4In6 (p_addr p) \<and> 96 \<le> p_bits p)"
  shows "materialPrefix p = p"
proof -
  have "PrefixFrom (p_addr p) (p_bits p) = p"
    using assms(1) by (cases p; cases "p_addr p") (auto simp: plain_prefix_def PrefixFrom_def)
  then show ?thesis using assms by (auto simp: materialPrefix_def Let_def)
qed

lemma byte_bits_inj: "0 \<le> a \<Longrightarrow> a \<le> 128 \<Longrightarrow> 0 \<le> b \<Longrightarrow> b \<le> 128 \<Longrightarrow> (word_of_int a :: byte) = word_of_int b \<Longrightarrow> a = b"
  by (simp add: word_of_int_eq_iff take_bit_eq_mod)

lemma PrefixMaterial_inj:
  assumes "plain_prefix p" and "plain_prefix q" and m: "PrefixMaterial p = PrefixMaterial q"
  shows "p = q"
proof -
  have b: "0 \<le> p_bits p" "p_bits p \<le> 128" "0 \<le> p_bits q" "p_bits q \<le> 128"
    using assms(1,2) by (cases "p_addr p"; cases "p_addr q"; auto simp: plain_prefix_def)+
  have four: "addr_Is4 (p_addr p) = addr_Is4 (p_addr q)" using m by (auto simp: PrefixMaterial_def split: if_splits)
  have bits: "(word_of_int (p_bits p) :: byte) = word_of_int (p_bits q)" using m by (auto simp: PrefixMaterial_def split: if_splits)
  have "p_addr p = p_addr q"
  proof (cases "p_addr p")
    case (Addr4 w)
    then obtain w' where "p_addr q = Addr4 w'" using four by (cases "p_addr q") auto
    moreover from this have "le_bytes 4 w = le_bytes 4 w'" using m Addr4 by (simp add: PrefixMaterial_def)
    then have "w = w'" using le_word_u32 [of _ "[]"] by (metis append_Nil2)
    ultimately show ?thesis using Addr4 by simp
  next
    case (Addr6 w z)
    then obtain w' z' where q: "p_addr q = Addr6 w' z'" using four assms(2) by (cases "p_addr q") (auto simp: plain_prefix_def)
    have "le_word 16 (le_bytes 16 x) = x" for x :: "128 word"
      using le_word_le_bytes_append [of 16 x "[]"] take_bit_length_eq [of x] by simp
    moreover have "le_bytes 16 w = le_bytes 16 w'" using m Addr6 q by (simp add: PrefixMaterial_def)
    ultimately have "w = w'" by metis
    then show ?thesis using Addr6 q assms(1,2) by (simp add: plain_prefix_def)
  qed (use assms(1) in \<open>simp add: plain_prefix_def\<close>)
  moreover have "p_bits p = p_bits q" using byte_bits_inj [OF b bits] .
  ultimately show ?thesis by simp
qed

lemma Material_inj:
  assumes "canon_value t v" and "canon_value t w" and "t = TypeCIDR \<Longrightarrow> \<not> mapped_text v \<and> \<not> mapped_text w"
    and m: "Material t v = Material t w"
  shows "v = w"
proof (cases "t = TypeCIDR")
  case True
  have *: "\<exists>p. plain_prefix p \<and> x = prefix_String p \<and> Material t x = PrefixMaterial p" if c: "canon_value t x" and n: "\<not> mapped_text x" for x
  proof -
    obtain p where "CanonPrefix TypeCIDR x = Inr (x, p)" using canon_value_prefix [OF c] True by auto
    then obtain q where q: "plain_prefix q" "Masked q = q" "x = prefix_String q" "p = materialPrefix q" by (rule CanonPrefix_cidr)
    then have "materialPrefix q = q" using n by (intro materialPrefix_unmapped) (auto simp: mapped_text_def ParsePrefix_String)
    then show ?thesis using q True by (auto simp: Material_def set_ParsePrefix_String)
  qed
  show ?thesis using * [OF assms(1)] * [OF assms(2)] assms(3) [OF True] PrefixMaterial_inj m by metis
next
  case False
  then show ?thesis using m by (simp add: Material_def)
qed

section \<open>Property\<close>

text \<open>
  C32: Canonical values are fixed points: canonicalising a canonical value, with any space around it removed
  already, gives the same value and the same prefix, for strings, numbers, IPv4, IPv6 and IPv4-mapped addresses
  and prefixes. So a value that a client reads back and sends again, or that is looked up, is the same value. And the
  two routes of a CIDR value to the hash, by the prefix and by parsing the text again, give the same bytes.
\<close>

theorem Canon_idempotent:
  assumes "CanonPrefix t raw = Inr (v, p)"
  shows "CanonPrefix t v = Inr (v, p) \<and> Canon t v = Inr v
    \<and> (t = TypeCIDR \<longrightarrow> Material t v = PrefixMaterial p) \<and> length v \<le> ValueMax"
proof -
  have "CanonPrefix t v = Inr (v, p)" by (rule CanonPrefix_fixed [OF assms])
  then show ?thesis using CanonPrefix_length [OF assms] CanonPrefix_material [of raw v p] assms by (auto simp: Canon_def)
qed

theorem Canon_idempotent_witness:
  "CanonPrefix TypeCIDR '' 10.1.2.3/8 '' = Inr (''10.0.0.0/8'', \<lparr>p_addr = Addr4 0x0a000000, p_bits = 8\<rparr>)
   \<and> CanonPrefix TypeCIDR ''10.0.0.0/8'' = Inr (''10.0.0.0/8'', \<lparr>p_addr = Addr4 0x0a000000, p_bits = 8\<rparr>)"
proof -
  have "CanonPrefix TypeCIDR '' 10.1.2.3/8 '' = Inr (''10.0.0.0/8'', \<lparr>p_addr = Addr4 0x0a000000, p_bits = 8\<rparr>)" by code_simp
  with Canon_idempotent [OF this] show ?thesis by simp
qed

end
