(* ===== verification/PipelineType.thy ===== *)
theory PipelineType
  imports PipelineView CanonProps
begin

text \<open>
  The values of a set are canonical for its type, and the hash kept with an entry is the hash of its value:
  \<open>Submit\<close> makes only such requests (\<open>typed_delta\<close>), planning them keeps the content typed (\<open>typed_entries\<close>), and the
  contract \<open>planned_property\<close> carries it to every reachable state of the pipeline.
\<close>

section \<open>Typed values\<close>

text \<open>With \<open>Def.Hash\<close> a set has the MD5 sums of canonical values, unless the client has sent the sums itself.\<close>

definition typed_value :: "set_def \<Rightarrow> string \<Rightarrow> bool" where
  "typed_value d v \<longleftrightarrow>
     canon_value (d_Type d) v \<or> d_Hash d \<and> (\<exists>w. canon_value (d_Type d) w \<and> v = MD5Hex w)"

text \<open>
  The hash of an entry is that of its text, except in a CIDR set with \<open>Def.Hash\<close>: there \<open>Submit\<close> keeps the prefix
  beside the sum, and \<open>hashOf\<close> takes the prefix.
\<close>

definition text_hashed :: "set_def \<Rightarrow> bool" where
  "text_hashed d \<longleftrightarrow> d_Type d \<noteq> TypeCIDR \<or> \<not> d_Hash d"

text \<open>The prefix kept with a record, if there is one, is the one its text parses to.\<close>

definition prefix_agrees :: "set_def \<Rightarrow> rec \<Rightarrow> bool" where
  "prefix_agrees d q \<longleftrightarrow>
     (d_Type d = TypeCIDR \<and> \<not> d_Hash d \<and> prefix_IsValid (r_Prefix q) \<longrightarrow> set_ParsePrefix (r_Value q) = Some (r_Prefix q))"

definition typed_delta :: "sset \<Rightarrow> delta \<Rightarrow> bool" where
  "typed_delta s0 d \<longleftrightarrow>
     (dl_Op d = OpAdd \<longrightarrow> typed_value (s_Def s0) (r_Value (dl_Rec d))) \<and> prefix_agrees (s_Def s0) (dl_Rec d)"

text \<open>
  A planned change also has a typed value when it is a removal, as only what is in the set is removed, and
  carries the hash of its value.
\<close>

definition typed_change :: "sset \<Rightarrow> delta \<Rightarrow> bool" where
  "typed_change s0 d \<longleftrightarrow>
     (dl_Op d = OpAdd \<or> dl_Op d = OpRemove) \<and> typed_value (s_Def s0) (r_Value (dl_Rec d)) \<and> prefix_agrees (s_Def s0) (dl_Rec d)
     \<and> (text_hashed (s_Def s0) \<longrightarrow> dl_hash d = HashValue (s_key s0) (d_Type (s_Def s0)) (r_Value (dl_Rec d)))"

definition typed_entries :: "sset \<Rightarrow> entries \<Rightarrow> bool" where
  "typed_entries s0 m \<longleftrightarrow>
     (\<forall>v\<in>fset (fmdom m). typed_value (s_Def s0) v) \<and> (text_hashed (s_Def s0) \<longrightarrow> hash_map s0 m)"

lemma prefix_agrees_exp [simp]: "prefix_agrees d (q\<lparr>r_Exp := x\<rparr>) = prefix_agrees d q"
  by (simp add: prefix_agrees_def)

lemma prefix_agrees_hash:
  assumes "prefix_agrees (s_Def s0) q" and "text_hashed (s_Def s0)" and "s_Def s = s_Def s0" and "s_key s = s_key s0"
  shows "hashOf s q = HashValue (s_key s0) (d_Type (s_Def s0)) (r_Value q)"
  using assms by (auto simp: hashOf_def HashValue_def Material_def prefix_agrees_def text_hashed_def)

lemma hash_map_values:
  assumes "hash_map s m" and "distinct vs" and "set vs = fset (fmdom m)"
  shows "hsum m = HashValues (s_key s) (d_Type (s_Def s)) vs"
proof -
  have "xor_sum.F (\<lambda>v. e_hash (the (fmlookup m v))) (fset (fmdom m))
      = xor_sum.F (HashValue (s_key s) (d_Type (s_Def s))) (fset (fmdom m))"
    by (rule xor_sum.cong) (use assms(1) in \<open>auto simp: hash_map_def elim!: fmdomE\<close>)
  then show ?thesis using assms(2,3) by (simp add: hsum_def xor_over_def HashValues_distinct)
qed

section \<open>Requests of Submit\<close>

lemma submit_loop_origin:
  assumes "submit_loop d ev raws seen recs0 = Inr recs" and "q \<in> set recs" and "q \<notin> set recs0"
  shows "\<exists>raw w p. CanonPrefix (d_Type d) raw = Inr (w, p) \<and> r_Prefix q = p
    \<and> r_Value q = (if d_Hash d \<and> \<not> ev_Hashed ev then MD5Hex w else w)"
  using assms
proof (induction raws arbitrary: seen recs0)
  case (Cons raw raws)
  obtain w p where c: "CanonPrefix (d_Type d) raw = Inr (w, p)" using Cons.prems(1) by (auto split: sum.splits)
  let ?v = "if d_Hash d \<and> \<not> ev_Hashed ev then MD5Hex w else w"
  let ?q = "\<lparr>r_Value = ?v, r_Exp = 0, r_Origin = ev_Origin ev, r_Reason = ev_Reason ev, r_Prefix = p\<rparr>"
  consider "submit_loop d ev raws seen recs0 = Inr recs"
    | "submit_loop d ev raws (finsert ?v seen) (recs0 @ [?q]) = Inr recs"
    using Cons.prems(1) c by (auto simp: Let_def split: if_splits)
  then show ?case
  proof cases
    case 1
    then show ?thesis using Cons.IH Cons.prems(2,3) by blast
  next
    case 2
    show ?thesis
    proof (cases "q = ?q")
      case True
      then show ?thesis using c by auto
    next
      case False
      then show ?thesis using Cons.IH [OF 2 Cons.prems(2)] Cons.prems(3) by simp
    qed
  qed
qed simp

lemma canon_typed:
  assumes "CanonPrefix (d_Type d) raw = Inr (w, p)" and "v = (if d_Hash d \<and> h then MD5Hex w else w)"
  shows "typed_value d v"
  using CanonPrefix_canonical [OF assms(1)] assms(2) by (auto simp: typed_value_def)

lemma canon_prefix_agrees:
  assumes "CanonPrefix (d_Type d) raw = Inr (w, r_Prefix q)" and "r_Value q = (if d_Hash d \<and> h then MD5Hex w else w)"
  shows "prefix_agrees d q"
  using assms CanonPrefix_parse [of raw w "r_Prefix q"] by (auto simp: prefix_agrees_def)

lemma submit_typed:
  assumes "submit_prepare (s_Def s0) ev now = Inr (op, recs)" and "q \<in> set recs"
  shows "typed_delta s0 \<lparr>dl_Op = op, dl_Rec = q, dl_hash = 0\<rparr>"
proof -
  obtain rs q' where rs: "submit_loop (s_Def s0) ev (submit_values ev) {||} [] = Inr rs" "q' \<in> set rs"
    and q: "r_Value q = r_Value q'" "r_Prefix q = r_Prefix q'"
    using assms by (auto simp: submit_prepare_def Let_def split: if_splits sum.splits)
  obtain raw w p where c: "CanonPrefix (d_Type (s_Def s0)) raw = Inr (w, p)" "r_Prefix q = p"
    "r_Value q = (if d_Hash (s_Def s0) \<and> \<not> ev_Hashed ev then MD5Hex w else w)"
    using submit_loop_origin [OF rs] q by auto
  show ?thesis
    using canon_typed [OF c(1,3)] canon_prefix_agrees [OF c(1) [folded c(2)] c(3)] by (simp add: typed_delta_def)
qed

lemma sweep_typed: "d \<in> set (job_deltas (sweep_job opts vals)) \<Longrightarrow> typed_delta s0 d"
  by (auto simp: typed_delta_def prefix_agrees_def prefix_IsValid_def zero_prefix_def job_deltas_def sweep_job_def OpAdd_def OpRemove_def)

section \<open>Plans\<close>

lemma typed_add:
  assumes "typed_entries s0 m" and "dl_Op d = OpAdd" and "typed_value (s_Def s0) (r_Value (dl_Rec d))"
    and "text_hashed (s_Def s0) \<Longrightarrow> dl_hash d = HashValue (s_key s0) (d_Type (s_Def s0)) (r_Value (dl_Rec d))"
  shows "typed_entries s0 (apply_delta d m)"
  using assms by (auto simp: typed_entries_def hash_map_def apply_delta_def delta_entry_def)

lemma typed_remove: "typed_entries s0 m \<Longrightarrow> dl_Op d = OpRemove \<Longrightarrow> typed_entries s0 (apply_delta d m)"
  by (auto simp: typed_entries_def hash_map_def apply_delta_def)

lemma replay_typed: "typed_entries s0 m \<Longrightarrow> \<forall>d\<in>set ds. typed_change s0 d \<Longrightarrow> typed_entries s0 (replay ds m)"
  by (induction ds arbitrary: m) (auto simp: typed_change_def intro!: typed_add typed_remove)

lemma plan_step_typed:
  assumes view: "is_view m (s_pend s) (s_entries s)" and ok: "acc_ok s m m' acc"
    and same: "s_Def s = s_Def s0" "s_key s = s_key s0" and d: "typed_delta s0 d" and h: "typed_entries s0 m'"
  shows "typed_entries s0 (replay (a_applied (plan_step s d acc)) m)
    \<and> (\<forall>x\<in>set (a_applied (plan_step s d acc)). x \<in> set (a_applied acc) \<or> typed_change s0 x)"
proof -
  obtain cur exists "from" where l: "plan_lookup s (a_over acc) (r_Value (dl_Rec d)) = (cur, exists, from)"
    by (cases "plan_lookup s (a_over acc) (r_Value (dl_Rec d))") auto
  have m': "fmlookup m' (r_Value (dl_Rec d)) = (if exists then Some cur else None)"
    by (rule plan_lookup_view [OF view acc_ok_view [OF ok] l])
  have r: "replay (a_applied acc) m = m'" using acc_ok_replay [OF ok] by simp
  from l show ?thesis
  proof (cases rule: plan_step_cases)
    case new
    then show ?thesis using d h prefix_agrees_hash [OF _ _ same]
      by (auto simp: r typed_delta_def typed_change_def intro!: typed_add)
  next
    case refresh
    then have "text_hashed (s_Def s0) \<Longrightarrow> e_hash cur = HashValue (s_key s0) (d_Type (s_Def s0)) (r_Value (dl_Rec d))"
      using h m' by (simp add: typed_entries_def hash_map_def)
    then show ?thesis using refresh d h by (auto simp: r typed_delta_def typed_change_def intro!: typed_add)
  next
    case remove
    then have "typed_value (s_Def s0) (r_Value (dl_Rec d))
        \<and> (text_hashed (s_Def s0) \<longrightarrow> e_hash cur = HashValue (s_key s0) (d_Type (s_Def s0)) (r_Value (dl_Rec d)))"
      using h m' by (auto simp: typed_entries_def hash_map_def intro: fmdomI)
    then show ?thesis using remove h d by (auto simp: r typed_remove typed_delta_def typed_change_def)
  qed (use h r in simp_all)
qed

lemma plan_fold_typed:
  assumes view: "is_view m (s_pend s) (s_entries s)" and "acc_ok s m m' acc"
    and same: "s_Def s = s_Def s0" "s_key s = s_key s0" and "\<forall>d\<in>set ds. typed_delta s0 d" and "typed_entries s0 m'"
  shows "typed_entries s0 (replay (a_applied (fold (plan_step s) ds acc)) m)
    \<and> (\<forall>x\<in>set (a_applied (fold (plan_step s) ds acc)). x \<in> set (a_applied acc) \<or> typed_change s0 x)"
  using assms(2,5,6)
proof (induction ds arbitrary: m' acc)
  case Nil
  then show ?case using acc_ok_replay [OF Nil.prems(1), symmetric] by simp
next
  case (Cons d ds)
  obtain m1 where ok1: "acc_ok s m m1 (plan_step s d acc)" using plan_step_ok [OF view Cons.prems(1)] by blast
  note T = plan_step_typed [OF view Cons.prems(1) same _ Cons.prems(3), of d]
  have "typed_entries s0 m1" using T Cons.prems(2) acc_ok_replay [OF ok1] by simp
  from Cons.IH [OF ok1 _ this] show ?case using Cons.prems(2) T by auto
qed

lemma plan_typed:
  assumes "inflight s ps" and "s_Def s = s_Def s0" and "s_key s = s_key s0"
    and "typed_entries s0 (final ps (s_entries s))" and "\<forall>d\<in>set ds. typed_delta s0 d"
    and "set_Plan ds s = (s', p)" and "pl_Deltas p \<noteq> []"
  shows "typed_entries s0 (final (ps @ [p]) (s_entries s)) \<and> (\<forall>x\<in>set (pl_Deltas p). typed_change s0 x)"
proof -
  have view: "is_view (final ps (s_entries s)) (s_pend s) (s_entries s)" using assms(1) by (simp add: inflight_def)
  have "pl_Deltas p = a_applied (fold (plan_step s) ds (plan_init s))"
    using assms(6,7) by (auto simp: set_Plan_def Let_def split: if_splits)
  moreover have "a_applied (plan_init s) = []" by (simp add: plan_init_def)
  ultimately show ?thesis
    using plan_fold_typed [OF view plan_init_ok [OF assms(1)] assms(2,3,5,4)] by simp
qed

interpretation typed: planned_deltas s0 "typed_delta s0" "typed_entries s0" "typed_change s0" for s0
proof unfold_locales
  show "typed_change s0 d"
    if "inflight s ps" "s_Def s = s_Def s0" "s_key s = s_key s0" "typed_entries s0 (final ps (s_entries s))"
      "\<forall>d\<in>set ds. typed_delta s0 d" "set_Plan ds s = (s', p)" "d \<in> set (pl_Deltas p)" for s ps ds s' p d
    using plan_typed [OF that(1-6)] that(7) by (cases "pl_Deltas p = []") auto
qed (use submit_typed sweep_typed plan_typed in blast)+

end
