(* ===== verification/PipelineProps.thy ===== *)
theory PipelineProps
  imports PipelineType
begin

text \<open>
  The properties of a holder's life, with a concrete run of the pipeline (one event submitted,
  gathered, planned, stored and published) as their witness.
\<close>

section \<open>A run\<close>

definition demo_opts :: options where
  "demo_opts = \<lparr>o_Name = ''keeper'', o_Tick = 0, o_Sweep = Second, o_BatchMax = 10, o_Coalesce = 0, o_QueueMax = 10,
     o_Pipeline = 4, o_DiffTTL = 60 * Second, o_SnapshotTTL = 30 * Second, o_InlineMax = 1024\<rparr>"

text \<open>A store that keeps the sequence numbers it was given and never fails.\<close>

definition demo_store :: "u64 list store" where
  "demo_store = \<lparr>st_Load = (\<lambda>name r. Some (None, [], False)), st_Reset = (\<lambda>name m keep r. (r, True)),
     st_Commit = (\<lambda>name ds seq hash k pkg ttl r. (r @ [seq], True)), st_Put = (\<lambda>k v ttl r. (r, True)),
     st_Drop = (\<lambda>name r. (r, True))\<rparr>"

definition demo_event :: event where
  "demo_event = \<lparr>ev_V = 3, ev_Set = ''blocked'', ev_Op = [], ev_Value = ''a'', ev_Values = [], ev_TTL = 1,
     ev_Origin = ''ops'', ev_Reason = ''abuse'', ev_Forever = False, ev_Hashed = False\<rparr>"

definition demo_job :: job where
  "demo_job = \<lparr>j_op = OpAdd, j_recs = [dl_Rec (demo_add ''a'' 1000)], j_reply = Some 0, j_deadline = None\<rparr>"

lemma demo_prepare: "submit_prepare (demo_def TypeString 2) demo_event 0 = Inr (OpAdd, [dl_Rec (demo_add ''a'' 1000)])"
  by code_simp

lemma demo_fields [simp]:
  "s_Def demo_set = demo_def TypeString 2" "s_entries demo_set = fmempty" "s_seq demo_set = 16" "s_gen demo_set = 0"
  "s_pendSize demo_set = 0" "s_pend demo_set = fmempty"
  by (simp_all add: demo_set_def set_New_def)

definition demo_collected :: collect where
  "demo_collected = \<lparr>g_results = [zero_result], g_deltas = [demo_add ''a'' 1000], g_accepted = [0], g_seen = {|''a''|},
     g_size = 1, g_stale = 0\<rparr>"

lemma demo_collect: "collect_job 0 demo_set demo_job (collect_init demo_set) = demo_collected"
  by (simp add: collect_job_def collect_init_def demo_job_def job_stale_def Let_def set_Size_def set_Fresh_def
      set_exists_def set_lookup_def demo_add_def demo_def_def collect_accept_def job_deltas_def demo_collected_def
      fset_of_list_simps)

definition demo_finish :: "holder \<times> batch option" where
  "demo_finish = plan_finish 0 (s_epoch demo_set) [demo_job] demo_collected (new_holder demo_set)"

definition demo_planned :: "sset \<times> plan" where
  "demo_planned = set_Plan [demo_add ''a'' 1000] demo_set"

lemma demo_planned_fields [simp]:
  "pl_Deltas (snd demo_planned) \<noteq> []" "pl_Seq (snd demo_planned) = 17" "pl_Gen (snd demo_planned) = 0"
  "s_gen (fst demo_planned) = 0" "pl_Rejected (snd demo_planned) = []"
  by (simp_all add: demo_planned_def demo_plan Let_def)

lemma demo_decide:
  "decide [demo_job] demo_collected demo_set = (fst demo_planned, snd demo_planned, [zero_result\<lparr>q_seq := 17\<rparr>])"
proof -
  have "mark_result [demo_job] (snd demo_planned) 0 [zero_result] = [zero_result\<lparr>q_seq := 17\<rparr>]"
    by (simp add: mark_result_def)
  then show ?thesis by (simp add: decide_def demo_collected_def demo_planned_def [symmetric] case_prod_unfold)
qed

lemma demo_finish_batch:
  "\<exists>h b. demo_finish = (h, Some b) \<and> b_plan b = snd demo_planned \<and> h_s h = fst demo_planned \<and> h_batches h = []
     \<and> b_jobs b = [demo_job] \<and> b_results b = [zero_result\<lparr>q_seq := 17\<rparr>]"
proof -
  have d: "decide [demo_job] demo_collected (h_s (new_holder demo_set))
      = (fst demo_planned, snd demo_planned, [zero_result\<lparr>q_seq := 17\<rparr>])"
    using demo_decide by (simp add: new_holder_def)
  obtain h b where f: "demo_finish = (h, b)" by (cases demo_finish) auto
  from plan_finish_split [OF f [unfolded demo_finish_def] d] obtain b' where
    "b = Some b'" "b_plan b' = snd demo_planned" "h_s h = fst demo_planned" "h_batches h = []"
    "b_jobs b' = [demo_job]" "b_results b' = [zero_result\<lparr>q_seq := 17\<rparr>]"
    by (auto simp: new_holder_def zero_result_def)
  with f show ?thesis by blast
qed

lemma demo_store_total: "\<forall>name ds seq hash key pkg ttl. snd (st_Commit demo_store name ds seq hash key pkg ttl r)"
  by (simp add: demo_store_def)

abbreviation demo_reach :: "'r store \<Rightarrow> 'r \<Rightarrow> 'r sys \<Rightarrow> bool" where
  "demo_reach st r \<equiv> pipe_reach st demo_opts (sys_init demo_set r)"

text \<open>A job is submitted, gathered and collected.\<close>

definition demo_collecting :: "'r \<Rightarrow> 'r sys" where
  "demo_collecting r = (sys_init demo_set r)\<lparr>y_next := 1,
     y_planner := PCollect 0 (s_epoch demo_set) [demo_job] [] demo_collected True []\<rparr>"

lemma demo_to_collecting: "demo_reach st r (demo_collecting r)"
proof -
  let ?step = "pipe_step st demo_opts" and ?y0 = "sys_init demo_set r" and ?h0 = "new_holder demo_set"
  let ?h1 = "?h0\<lparr>h_queued := 1, h_jobs := [demo_job]\<rparr>"
  let ?y1 = "?y0\<lparr>y_h := ?h1, y_next := Suc (y_next ?y0)\<rparr>"
  have s1: "?step ?y0 ?y1"
    by (rule pipe_step.Submit [where ev = demo_event and now = 0 and sel = JobSent and deadline = None and reply = None
          and w = "(OpAdd, [dl_Rec (demo_add ''a'' 1000)])"])
      (simp_all add: demo_prepare sys_init_def new_holder_def submit_queue_def demo_opts_def demo_job_def Let_def)
  let ?y2 = "?y1\<lparr>y_h := take_job demo_job (?h1\<lparr>h_jobs := []\<rparr>), y_planner := PGather [demo_job] 1\<rparr>"
  have s2: "?step ?y1 ?y2"
    using pipe_step.GatherFirst [of ?y1 demo_job "[]" st demo_opts] by (simp add: sys_init_def demo_job_def)
  have one: "length (j_recs demo_job) = 1" by (simp add: demo_job_def)
  have h2: "take_job demo_job (?h0\<lparr>h_queued := 1, h_jobs := []\<rparr>) = ?h0" by (simp add: take_job_def demo_job_def new_holder_def)
  let ?y3 = "?y2\<lparr>y_planner := start_collect 0 [demo_job] demo_set []\<rparr>"
  have s3: "?step ?y2 ?y3"
    using pipe_step.GatherEnd [of ?y2 "[demo_job]" 1 st demo_opts 0] by (simp add: h2 new_holder_def)
  have s4: "?step ?y3 (demo_collecting r)"
    using pipe_step.Collect [of ?y3 0 "s_epoch demo_set" "[]" demo_job "[]" "collect_init demo_set" True "[]" st demo_opts]
    by (simp add: h2 new_holder_def start_collect_def demo_collect demo_collecting_def sys_init_def take_job_def one)
  show ?thesis using s1 s2 s3 s4 by (meson converse_rtranclp_into_rtranclp rtranclp.rtrancl_refl)
qed

text \<open>The batch is planned, sent to the committer and taken.\<close>

definition demo_committing :: "'r \<Rightarrow> holder \<Rightarrow> batch \<Rightarrow> 'r sys" where
  "demo_committing r h b = (demo_collecting r)\<lparr>y_h := (send_batch True b h)\<lparr>h_batches := []\<rparr>,
     y_planner := PSweep [], y_com := Some b\<rparr>"

lemma demo_to_committing:
  assumes f: "demo_finish = (h, Some b)" "b_plan b = snd demo_planned" "h_s h = fst demo_planned" "h_batches h = []"
  shows "demo_reach st r (demo_committing r h b)"
proof -
  let ?step = "pipe_step st demo_opts" and ?y4 = "demo_collecting r"
  let ?y5 = "?y4\<lparr>y_h := h, y_planner := PSend b []\<rparr>"
  have s5: "?step ?y4 ?y5"
    using pipe_step.Finish [of ?y4 0 "s_epoch demo_set" "[demo_job]" demo_collected True "[]" h "Some b" st demo_opts] f(1)
    by (simp add: demo_finish_def demo_collecting_def sys_init_def)
  let ?y6 = "?y5\<lparr>y_h := send_batch True b h, y_planner := PSweep []\<rparr>"
  have s6: "?step ?y5 ?y6"
    using pipe_step.Send [of ?y5 b "[]" demo_opts st] f(4) by (simp add: demo_opts_def)
  have s7: "?step ?y6 (demo_committing r h b)"
    using pipe_step.Take [of ?y6 b "[]" st demo_opts] f
    by (simp add: sys_init_def set_Gen_def demo_collecting_def demo_committing_def)
  show ?thesis using demo_to_collecting [of st r] s5 s6 s7 by (meson rtranclp.rtrancl_into_rtrancl)
qed

text \<open>
  For every store that accepts the commit, the run passes a state with the jobs collected, one with
  the batch at the store, and ends with an answer.
\<close>

lemma demo_trace_on:
  fixes st :: "'r store"
  assumes com: "\<forall>name ds seq hash key pkg ttl. snd (st_Commit st name ds seq hash key pkg ttl r)"
  shows "\<exists>y4 y7 y8 b q. demo_reach st r y4 \<and> y_planner y4 = PCollect 0 (s_epoch demo_set) [demo_job] [] demo_collected True []
     \<and> y_s y4 = demo_set \<and> demo_reach st r y7 \<and> y_com y7 = Some b \<and> pl_Seq (b_plan b) = 17
     \<and> demo_reach st r y8 \<and> y_log y8 = [b] \<and> b_plan b = snd demo_planned \<and> \<not> y_failed y8 \<and> (0, q) \<in> set (h_answers (y_h y8)) \<and> q_code q = []"
proof -
  obtain h b where f: "demo_finish = (h, Some b)" "b_plan b = snd demo_planned" "h_s h = fst demo_planned"
    "h_batches h = []" "b_jobs b = [demo_job]" "b_results b = [zero_result\<lparr>q_seq := 17\<rparr>]" using demo_finish_batch by blast
  let ?y7 = "demo_committing r h b"
  have y4: "y_planner (demo_collecting r) = PCollect 0 (s_epoch demo_set) [demo_job] [] demo_collected True []"
    "y_s (demo_collecting r) = demo_set"
    by (simp_all add: demo_collecting_def sys_init_def new_holder_def)
  have y7: "y_com ?y7 = Some b" "y_store ?y7 = r" "y_log ?y7 = []" "\<not> y_failed ?y7"
    by (simp_all add: demo_committing_def demo_collecting_def sys_init_def)
  have r7: "demo_reach st r ?y7" by (rule demo_to_committing [OF f(1-4)])
  have ne: "pl_Deltas (b_plan b) \<noteq> []" and seq: "pl_Seq (b_plan b) = 17" using f(2) by simp_all
  obtain h' where c: "commit_stored demo_opts b True 0 (y_h ?y7) = Some h'"
    using ne by (auto simp: commit_stored_def Let_def set_Commit_def split: prod.splits)
  let ?r = "fst (st_Commit st (d_Name (h_Def (y_h ?y7))) (pl_Deltas (b_plan b)) (pl_Seq (b_plan b)) (pl_Hash (b_plan b))
      (b_pkgKey b) (b_pkg b) (o_DiffTTL demo_opts) r)"
  let ?y8 = "?y7\<lparr>y_h := h', y_com := None, y_store := ?r, y_log := [b]\<rparr>"
  have "pipe_step st demo_opts ?y7 ?y8"
    using pipe_step.Stored [of ?y7 b st demo_opts ?r 0 h'] c com y7 by (simp add: prod_eq_iff)
  then have r8: "demo_reach st r ?y8" using r7 by (rule rtranclp.rtrancl_into_rtrancl [rotated])
  have "\<exists>q. (0, q) \<in> set (h_answers h') \<and> q_code q = []"
    using commit_stored_ok [OF c] f(5,6) by (auto simp: answers_of_def demo_job_def zero_result_def codeStale_def)
  then obtain q where q: "(0, q) \<in> set (h_answers h')" "q_code q = []" by blast
  show ?thesis
    using demo_to_collecting [of st r] y4 r7 y7(1) seq r8 f(2) y7(4) q
    by (intro exI [of _ "demo_collecting r"] exI [of _ ?y7] exI [of _ ?y8] exI [of _ b] exI [of _ q]) simp
qed

lemmas demo_trace = demo_trace_on [of demo_store "[]", OF demo_store_total]

lemma demo_run: "\<exists>y. demo_reach demo_store [] y \<and> length (y_log y) = 1"
  using demo_trace by force

lemma demo_depth: "depth_ok demo_opts"
  by (simp add: depth_ok_def demo_opts_def int64_range_def)

section \<open>Properties\<close>

text \<open>
  C1: In every reachable state of a holder the committed hash is the XOR over the committed entries,
  and the plans that are not outdated, in the order of the batches on their way to the store, are
  exactly the plans in flight of the set: consecutive sequence numbers on top of the committed one,
  each with the hash of the content it leads to. Client writes, sweeps, aborts and commits may come
  in any order.
\<close>

theorem pipeline_consistent:
  assumes "pipe_reach st opts (sys_init s r) y" and "inflight s []" and "depth_ok opts"
  shows "s_hash (y_s y) = hsum (s_entries (y_s y))
    \<and> inflight (y_s y) (live_plans y)
    \<and> ordered_gens (s_gen (y_s y)) (map b_plan (outstanding y))"
  using pipe_reach_inv [OF assms] by (auto simp: pipe_inv_def inflight_def)

theorem pipeline_consistent_witness:
  "\<exists>y. length (y_log y) = 1 \<and> s_hash (y_s y) = hsum (s_entries (y_s y)) \<and> pipe_reach demo_store demo_opts (sys_init demo_set []) y"
  using demo_run pipeline_consistent [OF _ demo_inflight demo_depth, of demo_store "[]"] by blast

text \<open>
  C2: What is published is what happened. The diff frames published so far are those of the batches
  committed so far, in order: the i-th has the i-th sequence number after the one the holder started
  with and the hash of the content after i batches, and the committed content is the replay of all
  of them on the content at the start. A mirror that applies the packages in order has the
  content, and can check it against the hash at every step.
\<close>

theorem published_diffs_replay:
  assumes "pipe_reach st opts (sys_init s r) y" and "inflight s []" and "depth_ok opts"
  shows "length (diffs (y_h y)) = length (y_log y)
    \<and> (\<forall>i<length (y_log y).
         f_Seq (diffs (y_h y) ! i) = s_seq s + of_nat (Suc i)
         \<and> f_Epoch (diffs (y_h y) ! i) = Hex (s_epoch s)
         \<and> f_Package (diffs (y_h y) ! i) = DiffKey (d_Name (s_Def s)) (s_seq s + of_nat (Suc i))
         \<and> f_Hash (diffs (y_h y) ! i) = Hex (hsum (replay (log_deltas (take (Suc i) (y_log y))) (s_entries s))))
    \<and> s_entries (y_s y) = replay (log_deltas (y_log y)) (s_entries s)"
proof -
  have log: "log_inv opts s y" by (rule pipe_reach_log [OF assms])
  have d: "diffs (y_h y) = map (frame_of opts (s_epoch s) (s_Def s)) (y_log y)" using log by (simp add: log_inv_def)
  have pk: "b_pkgKey b = DiffKey (d_Name (s_Def s)) (pl_Seq (b_plan b))" if "b \<in> set (y_log y)" for b
    using log that unfolding log_inv_def keeper_pack_def Let_def by fastforce
  have n: "pl_Seq (b_plan (y_log y ! i)) = s_seq s + of_nat (Suc i)
      \<and> pl_Hash (b_plan (y_log y ! i)) = hsum (replay (log_deltas (take (Suc i) (y_log y))) (s_entries s))"
    if "i < length (y_log y)" for i
    using log_ok_nth that log unfolding log_inv_def by blast
  show ?thesis
    unfolding d using n pk log by (auto simp: frame_of_def diff_frame_def log_inv_def simp del: of_nat_Suc)
qed

theorem published_diffs_replay_witness:
  "\<exists>y :: u64 list sys. length (y_log y) = 1 \<and> length (diffs (y_h y)) = 1 \<and> f_Seq (diffs (y_h y) ! 0) = 17
     \<and> f_Package (diffs (y_h y) ! 0) = ''waf:diff:blocked:17''"
proof -
  obtain y where y: "pipe_reach demo_store demo_opts (sys_init demo_set []) y" "length (y_log y) = 1"
    using demo_run by blast
  have k: "DiffKey ''blocked'' 17 = ''waf:diff:blocked:17''" by code_simp
  have "d_Name (s_Def demo_set) = ''blocked''" by (simp add: demo_def_def)
  then show ?thesis
    using published_diffs_replay [OF y(1) demo_inflight demo_depth] y(2) k by (intro exI [of _ y]) simp
qed

text \<open>
  C13: The committer never dereferences a nil change and never logs that the committed state differs
  from the plan: whatever batch it holds past the generation check, committing it succeeds with the
  planned sequence number and hash, whatever the planner did in the meantime.
\<close>

theorem commit_never_panics:
  assumes "pipe_reach st opts (sys_init s r) y" and "inflight s []" and "depth_ok opts" and "y_com y = Some b"
  shows "commit_stored opts b ok ms (y_h y) \<noteq> None
    \<and> snd (set_Commit (b_plan b) (b_at b) (y_s y))
        = Some \<lparr>c_Seq = pl_Seq (b_plan b), c_Hash = pl_Hash (b_plan b), c_At = b_at b, c_Deltas = pl_Deltas (b_plan b)\<rparr>"
proof -
  have inv: "pipe_inv opts y" by (rule pipe_reach_inv [OF assms(1-3)])
  let ?ps = "map b_plan (h_batches (y_h y) @ planner_batch (y_planner y))"
  have infl: "inflight (y_s y) (b_plan b # ?ps)" using pipe_invD(1) [OF inv] unfolding com_live(1) [OF inv assms(4)] .
  have len: "length ?ps < 2 ^ 64 - 1" by (rule live_length [OF inv assms(4)]) (use assms(3) in \<open>simp add: depth_ok_def\<close>)
  note C = set_Commit_inflight(2) [OF infl len, of "b_at b"]
  have "commit_stored opts b ok ms (y_h y) \<noteq> None"
    using C by (auto simp: commit_stored_def Let_def split: prod.splits)
  with C show ?thesis by simp
qed

theorem commit_never_panics_witness:
  "\<exists>y b. y_com y = Some b \<and> commit_stored demo_opts b True 0 (y_h y) \<noteq> None \<and> demo_reach demo_store [] y"
  using demo_trace commit_never_panics [OF _ demo_inflight demo_depth, of demo_store "[]" _ _ True 0] by blast

text \<open>
  C14: No reply channel is answered twice, in any run: the channels have room for one value, so no
  answer can block the planner or the committer.
\<close>

theorem answered_at_most_once:
  assumes "pipe_reach st opts (sys_init s r) y"
  shows "distinct (map fst (h_answers (y_h y)))"
  by (rule ans_inv_distinct [OF pipe_reach_ans [OF assms]])

theorem answered_at_most_once_witness:
  "\<exists>y. length (y_log y) = 1 \<and> distinct (map fst (h_answers (y_h y))) \<and> pipe_reach demo_store demo_opts (sys_init demo_set []) y"
  using demo_run answered_at_most_once [of demo_store demo_opts demo_set "[]"] by blast

text \<open>
  C12: A positive answer is never ahead of the store: it carries the epoch of the set and a sequence
  number that was committed before the answer was given.
\<close>

theorem acknowledged_is_committed:
  assumes "pipe_reach st opts (sys_init s r) y" and "inflight s []" and "depth_ok opts"
    and "(rid, q) \<in> set (h_answers (y_h y))" and "q_code q = []"
  shows "q_epoch q = s_epoch s \<and> (\<exists>k\<le>length (y_log y). q_seq q = s_seq s + of_nat k)"
  using pipe_reach_ack [OF assms(1-3)] assms(4,5) unfolding ack_inv_def by blast

theorem acknowledged_is_committed_witness:
  "\<exists>y q. demo_reach demo_store [] y \<and> (0, q) \<in> set (h_answers (y_h y)) \<and> q_epoch q = s_epoch demo_set
     \<and> (\<exists>k\<le>1. q_seq q = 16 + of_nat k)"
proof -
  obtain y q where y: "demo_reach demo_store [] y" "length (y_log y) = 1" "(0, q) \<in> set (h_answers (y_h y))" "q_code q = []"
    using demo_trace by force
  from acknowledged_is_committed [OF y(1) demo_inflight demo_depth y(3,4)] y show ?thesis by auto
qed

text \<open>
  C15: A set that starts within its limit stays within it in every reachable state, with the plans in
  flight and after an abort as well, since every intermediate content of the pipeline is within it.
\<close>

theorem limit_never_exceeded:
  assumes "pipe_reach st opts (sys_init s r) y" and "inflight s []" and "depth_ok opts"
    and "0 < d_Limit (s_Def s)" and "set_Len s \<le> d_Limit (s_Def s)"
  shows "set_Len (y_s y) \<le> d_Limit (s_Def s) \<and> set_Size (y_s y) \<le> d_Limit (s_Def s)"
proof -
  have "within_limit s (s_entries s)" using assms(5) by (simp add: within_limit_def set_Len_def)
  from limit.pipe_reach_property [OF assms(1-3) this]
  have "map_len (s_entries (y_s y)) \<le> d_Limit (s_Def s)" "map_len (y_view y) \<le> d_Limit (s_Def s)"
    using assms(4) by (auto simp: within_limit_def)
  moreover have "inflight (y_s y) (live_plans y)" by (rule pipe_invD(1) [OF pipe_reach_inv [OF assms(1-3)]])
  then have "set_Size (y_s y) = map_len (y_view y)" by (simp add: inflight_def set_Size_def y_view_def)
  ultimately show ?thesis by (simp add: set_Len_def)
qed

theorem limit_never_exceeded_witness:
  "\<exists>y. length (y_log y) = 1 \<and> set_Len (y_s y) \<le> 2 \<and> pipe_reach demo_store demo_opts (sys_init demo_set []) y"
proof -
  obtain y where y: "pipe_reach demo_store demo_opts (sys_init demo_set []) y" "length (y_log y) = 1" using demo_run by blast
  have "0 < d_Limit (s_Def demo_set)" "set_Len demo_set \<le> d_Limit (s_Def demo_set)" "d_Limit (s_Def demo_set) = 2"
    by (simp_all add: demo_def_def set_Len_def fcard.rep_eq)
  with limit_never_exceeded [OF y(1) demo_inflight demo_depth] y show ?thesis by auto
qed

text \<open>
  C9: A write is accepted in full or refused in full, also while commits run between the reads of
  the planner: when the planner has collected its jobs and no store failure came in between,
  the plan rejects no record, the planned deltas are all records of exactly the jobs whose result
  has no error code, those jobs get the sequence number of the plan, and the planned content is the
  one before with all their requests applied.
\<close>

theorem batch_all_or_nothing:
  assumes "pipe_reach st opts (sys_init s r) y" and "inflight s []" and "depth_ok opts"
    and "y_planner y = PCollect now e js [] c True rest" and "decide js c (y_s y) = (s', p, results)"
  shows "pl_Rejected p = []
    \<and> g_deltas c = concat (map job_deltas (accepted_jobs js results))
    \<and> (\<forall>q\<in>set results. q_code q = [] \<longrightarrow> q_seq q = pl_Seq p)
    \<and> content (final (live_plans y @ [p]) (s_entries (y_s y))) = fold request (g_deltas c) (content (y_view y))"
proof -
  have inv: "pipe_inv opts y" by (rule pipe_reach_inv [OF assms(1-3)])
  have ok: "collect_shape js c" "collect_room (final (live_plans y) (s_entries (y_s y))) (d_Limit (h_Def (y_h y))) c"
    using pipe_invD(5) [OF inv] assms(4) by (simp_all add: planner_ok_def y_view_def)
  note D = decide_ok [OF ok pipe_invD(1) [OF inv] assms(5)]
  have "accepted_jobs js (map (decided p) rs) = accepted_jobs js rs" for rs
    unfolding accepted_jobs_def zip_map2 filter_map by (simp add: comp_def decided_def case_prod_unfold if_distrib cong: if_cong)
  then show ?thesis
    using D ok(1) by (auto simp: collect_shape_def y_view_def decided_def)
qed

theorem batch_all_or_nothing_witness:
  "\<exists>y. demo_reach demo_store [] y \<and> content (final (live_plans y @ [snd demo_planned]) (s_entries (y_s y)))
     = fold request [demo_add ''a'' 1000] (content (y_view y))"
proof -
  obtain y where y: "demo_reach demo_store [] y" "y_planner y = PCollect 0 (s_epoch demo_set) [demo_job] [] demo_collected True []"
    "y_s y = demo_set" using demo_trace by blast
  have "decide [demo_job] demo_collected (y_s y) = (fst demo_planned, snd demo_planned, [zero_result\<lparr>q_seq := 17\<rparr>])"
    using demo_decide y(3) by simp
  from batch_all_or_nothing [OF y(1) demo_inflight demo_depth y(2) this]
  have "content (final (live_plans y @ [snd demo_planned]) (s_entries (y_s y)))
      = fold request (g_deltas demo_collected) (content (y_view y))" by blast
  moreover have "g_deltas demo_collected = [demo_add ''a'' 1000]" by (simp add: demo_collected_def)
  ultimately show ?thesis using y(1) by metis
qed

text \<open>
  C8: Types are preserved. From a content of canonical values, and so from an empty set, every value the set
  ever has, committed or planned, is canonical for the type of the set or, with \<open>Def.Hash\<close>, the MD5 sum of a
  canonical value. Outside CIDR sets with \<open>Def.Hash\<close>, the hash of the set is then exactly what \<open>HashValues\<close> gives
  for its values in any order, although \<open>Submit\<close> hashes CIDR values by their prefix and never by their text.
\<close>

theorem values_stay_typed:
  assumes "pipe_reach st opts (sys_init s r) y" and "inflight s []" and "depth_ok opts"
    and "typed_entries s (s_entries s)"
  shows "(\<forall>v\<in>fset (fmdom (s_entries (y_s y))) \<union> fset (fmdom (y_view y)). typed_value (s_Def s) v)
    \<and> (text_hashed (s_Def s) \<longrightarrow>
         (\<forall>vs. distinct vs \<and> set vs = fset (fmdom (s_entries (y_s y))) \<longrightarrow>
            s_hash (y_s y) = HashValues (s_key s) (d_Type (s_Def s)) vs))"
proof -
  have typed: "typed_entries s (s_entries (y_s y))" "typed_entries s (y_view y)"
    using typed.pipe_reach_property [OF assms] by auto
  have "s_hash (y_s y) = hsum (s_entries (y_s y))"
    using pipe_invD(1) [OF pipe_reach_inv [OF assms(1-3)]] by (simp add: inflight_def)
  moreover have "hsum (s_entries (y_s y)) = HashValues (s_key s) (d_Type (s_Def s)) vs"
    if "text_hashed (s_Def s)" "distinct vs" "set vs = fset (fmdom (s_entries (y_s y)))" for vs
    using typed(1) that by (simp add: typed_entries_def hash_map_values)
  ultimately show ?thesis using typed by (auto simp: typed_entries_def)
qed

theorem values_stay_typed_witness:
  "\<exists>y. length (y_log y) = 1 \<and> (\<forall>v\<in>fset (fmdom (s_entries (y_s y))) \<union> fset (fmdom (y_view y)). typed_value (s_Def demo_set) v)
     \<and> pipe_reach demo_store demo_opts (sys_init demo_set []) y"
proof -
  obtain y where y: "pipe_reach demo_store demo_opts (sys_init demo_set []) y" "length (y_log y) = 1" using demo_run by blast
  have "typed_entries demo_set (s_entries demo_set)" by (simp add: typed_entries_def hash_map_def)
  from values_stay_typed [OF y(1) demo_inflight demo_depth this] y show ?thesis by blast
qed

end
