(* ===== verification/StoreProps.thy ===== *)
theory StoreProps
  imports MountProps PipelineProps "HOL-Library.Char_ord" "HOL-Library.List_Lexorder"
begin

text \<open>
  The sets and their store together: the operations on one set do not touch what is stored of
  another, a mounted set and its stored state agree, the store follows the holder commit by
  commit, and a restart resumes where the holder was. A small Redis that meets the documented
  behaviour instantiates the hypotheses.
\<close>

section \<open>Isolation\<close>

definition set_keys :: "string \<Rightarrow> string set" where
  "set_keys name = {SetKey name, WhyKey name, MetaKey name}"

fun cmd_keys :: "redis_cmd \<Rightarrow> string set" where
  "cmd_keys (ZAdd k zs) = {k}"
| "cmd_keys (ZRem k vs) = {k}"
| "cmd_keys (HSet k fs) = {k}"
| "cmd_keys (HDel k vs) = {k}"
| "cmd_keys (SetEx k data ttl) = {k}"
| "cmd_keys (Del ks) = set ks"

lemma cmd_effect_other:
  "k \<notin> cmd_keys c \<Longrightarrow> db_zset (cmd_effect c db) k = db_zset db k \<and> db_hash (cmd_effect c db) k = db_hash db k"
  by (cases c) auto

lemma cmds_effect_other:
  assumes "k \<notin> \<Union> (cmd_keys ` set cmds)"
  shows "db_zset (fold cmd_effect cmds db) k = db_zset db k \<and> db_hash (fold cmd_effect cmds db) k = db_hash db k"
  using assms by (induction cmds arbitrary: db) (simp_all add: cmd_effect_other)

lemma run_cmds_keys: "\<Union> (cmd_keys ` set (run_cmds name run)) \<subseteq> set_keys name"
  by (auto simp: run_cmds_def set_keys_def)

lemma commit_runs_keys: "\<Union> (cmd_keys ` set (commit_runs name ds)) \<subseteq> set_keys name"
proof (induction name ds rule: commit_runs.induct)
  case (2 name d ds)
  let ?run = "d # takeWhile (\<lambda>e. dl_Op e = dl_Op d) ds"
  show ?case
    unfolding commit_runs.simps set_append image_Un Union_Un_distrib
    by (rule Un_least [OF run_cmds_keys 2])
qed simp

lemma commit_cmds_keys:
  "\<Union> (cmd_keys ` set (commit_cmds name ds seq hash key pkg ttl)) \<subseteq> insert key (set_keys name)"
  using commit_runs_keys [of name ds] by (auto simp: commit_cmds_def set_keys_def)

text \<open>Names without a colon have different keys; \<open>a:why\<close> beside \<open>a\<close> would not.\<close>

definition plain_name :: "string \<Rightarrow> bool" where
  "plain_name n \<longleftrightarrow> CHR '':'' \<notin> set n"

lemma plain_suffix: "plain_name n \<Longrightarrow> n \<noteq> n' @ CHR '':'' # x"
  by (auto simp: plain_name_def)

lemma set_keys_disjoint:
  assumes "plain_name n" and "plain_name n'" and "n \<noteq> n'"
  shows "set_keys n \<inter> set_keys n' = {}"
  using assms plain_suffix [OF assms(1)] plain_suffix [OF assms(2)] plain_suffix [OF assms(1), symmetric]
    plain_suffix [OF assms(2), symmetric]
  by (simp add: set_keys_def SetKey_def WhyKey_def MetaKey_def)

lemma holds_other:
  assumes "redis_holds api view r name m c" and "api_Tx api cmds r = (r', True)"
    and "set_keys name \<inter> \<Union> (cmd_keys ` set cmds) = {}"
  shows "redis_holds api view r' name m c"
proof -
  have "view r' = fold cmd_effect cmds (view r)"
    using assms(1,2) redis_tx by (auto simp: redis_holds_def)
  moreover have "SetKey name \<notin> \<Union> (cmd_keys ` set cmds)" "WhyKey name \<notin> \<Union> (cmd_keys ` set cmds)"
    "MetaKey name \<notin> \<Union> (cmd_keys ` set cmds)" using assms(3) by (auto simp: set_keys_def)
  ultimately show ?thesis
    using assms(1) cmds_effect_other [of "SetKey name" cmds "view r"] cmds_effect_other [of "WhyKey name" cmds "view r"]
      cmds_effect_other [of "MetaKey name" cmds "view r"]
    by (simp add: redis_holds_def db_content_def)
qed

lemma holds_single:
  assumes "redis_holds api view r name m c" and "api_Tx api [cmd] r = (r', ok)" and "set_keys name \<inter> cmd_keys cmd = {}"
  shows "redis_holds api view r' name m c"
proof -
  have ok: "redis_ok api view" using assms(1) by (simp add: redis_holds_def)
  have "SetKey name \<notin> cmd_keys cmd" "WhyKey name \<notin> cmd_keys cmd" "MetaKey name \<notin> cmd_keys cmd"
    using assms(3) by (auto simp: set_keys_def)
  then show ?thesis
    using assms(1) redis_single [OF ok assms(2)] by (auto simp: redis_holds_def db_content_def cmd_effect_other)
qed

lemma drop_other:
  assumes "redis_holds api view r name m c" and "plain_name name" "plain_name n" "n \<noteq> name"
  shows "redis_holds api view (fst (state_Drop api n r)) name m c"
proof -
  obtain r' ok where d: "api_Tx api [Del [SetKey n, WhyKey n, MetaKey n]] r = (r', ok)"
    by (cases "api_Tx api [Del [SetKey n, WhyKey n, MetaKey n]] r") auto
  have "redis_holds api view r' name m c"
    by (rule holds_single [OF assms(1) d]) (use set_keys_disjoint [OF assms(2,3)] assms(4) in \<open>auto simp: set_keys_def\<close>)
  then show ?thesis using d by (simp add: state_Drop_def)
qed

section \<open>Mounting\<close>

lemma redis_mount_holds:
  assumes ok: "redis_ok api view" and load: "state_Load api name r = Some (m, recs, bad)"
    and reset: "state_Reset api name m' keep r = (r', True)" and m': "meta_ok m'" and keep: "keep \<longrightarrow> bad \<or> m \<noteq> None"
  shows "redis_holds api view r' name m' (if keep then rec_content recs else fmempty)"
proof -
  have v: "view r' = fold cmd_effect (reset_cmds name m' keep) (view r)"
    by (rule redis_tx [OF ok]) (use reset in \<open>simp add: state_Reset_def\<close>)
  have meta: "parseMeta (db_hash (view r') (MetaKey name)) = Some m'"
    unfolding v using parseMeta_metaFields [OF m'] by (simp add: reset_cmds_def)
  show ?thesis
  proof (cases keep)
    case False
    then have "db_content (view r') name = fmempty" by (simp add: v reset_cmds_def db_content_def)
    then show ?thesis using False ok meta by (simp add: redis_holds_def)
  next
    case True
    obtain zs whys where z: "api_ZRange api (SetKey name) r = Some zs" "api_HGetAll api (WhyKey name) r = Some whys"
      and recs: "recs = map (load_record whys) zs"
      using load keep True by (auto simp: state_Load_def Let_def split: option.splits if_splits)
    have d: "distinct (map fst zs)" "map_of zs = fmlookup (db_zset (view r) (SetKey name))"
      and w: "whys = db_hash (view r) (WhyKey name)" using ok z by (simp_all add: redis_ok_def)
    have "distinct (map r_Value recs)" using d(1) by (simp add: recs comp_def)
    from rec_content_list [OF this] load_record_content [OF d, of whys]
    have "rec_content recs = db_content (view r) name" by (simp add: recs w db_content_def)
    moreover have "db_content (view r') name = db_content (view r) name" using True by (simp add: v reset_cmds_def db_content_def)
    ultimately show ?thesis using True ok meta by (simp add: redis_holds_def)
  qed
qed

lemma drop_state_other:
  assumes "redis_holds api view r name m c" and "plain_name name" and "name \<notin> set ns"
    and "\<forall>n h. fmlookup sets n = Some h \<longrightarrow> d_Name (h_Def h) = n"
    and "\<forall>n\<in>set ns. plain_name n"
  shows "redis_holds api view (fold (drop_state (redis_store api) sets) ns r) name m c"
  using assms(1,3,5)
proof (induction ns arbitrary: r)
  case (Cons n ns)
  have "redis_holds api view (drop_state (redis_store api) sets n r) name m c"
    using Cons.prems assms(2,4) drop_other [OF Cons.prems(1) assms(2), of n]
    by (auto simp: drop_state_def redis_store_def split: option.splits)
  then show ?case using Cons by simp
qed simp

lemma parseMeta_key: "parseMeta f = Some m \<Longrightarrow> length (m_Key m) = 16"
  by (auto simp: parseMeta_def split: option.splits if_splits)

lemma state_Load_key: "state_Load api name r = Some (Some m, recs, bad) \<Longrightarrow> length (m_Key m) = 16 \<and> \<not> bad"
  by (auto simp: state_Load_def Let_def parseMeta_key split: option.splits if_splits)

lemma mount_set_key:
  assumes "\<And>m'. m = Some m' \<Longrightarrow> length (m_Key m') = 16" and "length (w_key w1) = 16" and "length (w_key w2) = 16"
  shows "length (s_key (fst (mount_set d fresh (m, recs, bad) w1 w2))) = 16"
  using assms
  by (auto simp: mount_set_def Let_def set_Resume_def set_Load_def new_set_def set_New_def meta_matches_def split: option.splits)

lemma mount_set_keep:
  "snd (mount_set d fresh (m, recs, bad) w1 w2) \<longleftrightarrow> bad \<or> meta_matches d m"
  by (simp add: mount_set_def Let_def)

text \<open>The mounted set and the store, when the definition was not mounted already.\<close>

lemma mount_splits:
  assumes "mount st d fresh w ord (k, r) = ((k', r'), True)" and "fresh \<or> \<not> mounted (k_sets k) d"
  obtains out s keep h sets r1 where "st_Load st (d_Name d) r = Some out" and "mount_set d fresh out (fst w) (snd w) = (s, keep)"
    and "st_Reset st (d_Name d) (meta_of d s) keep r = (r1, True)" and "h = publishTick (new_holder s)"
    and "sets = fmupd (d_Name d) h (k_sets k)" and "k' = k\<lparr>k_sets := fold fmdrop (renamed_sets d (ord sets) sets) sets\<rparr>"
    and "r' = fold (drop_state st sets) (renamed_sets d (ord sets) sets) r1"
proof -
  obtain out where out: "st_Load st (d_Name d) r = Some out"
    using assms by (auto simp: mount_def split: option.splits)
  obtain s keep where s: "mount_set d fresh out (fst w) (snd w) = (s, keep)" by fastforce
  obtain r1 ok where r1: "st_Reset st (d_Name d) (meta_of d s) keep r = (r1, ok)" by fastforce
  have ok: "ok" using assms out s r1 by (auto simp: mount_def split: if_splits)
  let ?sets = "fmupd (d_Name d) (publishTick (new_holder s)) (k_sets k)"
  have "k' = k\<lparr>k_sets := fold fmdrop (renamed_sets d (ord ?sets) ?sets) ?sets\<rparr>"
    "r' = fold (drop_state st ?sets) (renamed_sets d (ord ?sets) ?sets) r1"
    using assms out s r1 ok by (auto simp: mount_def Let_def)
  then show thesis by (intro that [OF out s _ refl refl]) (use r1 ok in simp_all)
qed

text \<open>What is stored is what is held: the contract between a holder and its store at the start.\<close>

definition settled :: "'r redis_api \<Rightarrow> ('r \<Rightarrow> redis_db) \<Rightarrow> sset \<Rightarrow> 'r \<Rightarrow> bool" where
  "settled api view s r \<longleftrightarrow>
     redis_holds api view r (d_Name (s_Def s)) (meta_of (s_Def s) s) (content (s_entries s))"

lemma redis_reset_settled:
  assumes "redis_ok api view" and "state_Load api (d_Name d) r = Some out" and "int64_range (d_Type d)"
    and "length (w_key w1) = 16" and "length (w_key w2) = 16"
    and "state_Reset api (d_Name d) (meta_of d (fst (mount_set d fresh out w1 w2))) (snd (mount_set d fresh out w1 w2)) r = (r1, True)"
  shows "settled api view (fst (mount_set d fresh out w1 w2)) r1"
proof -
  obtain m recs bad where out: "out = (m, recs, bad)" by (cases out) auto
  have "length (m_Key m') = 16" if "m = Some m'" for m'
    using state_Load_key [of api "d_Name d" r m' recs bad] assms(2) that by (simp add: out)
  from mount_set_key [OF this assms(4,5)] have "meta_ok (meta_of d (fst (mount_set d fresh out w1 w2)))"
    using assms(3) by (simp add: meta_ok_def meta_of_def out)
  moreover have "snd (mount_set d fresh out w1 w2) \<longrightarrow> bad \<or> m \<noteq> None"
    by (auto simp: out mount_set_keep meta_matches_def)
  ultimately have "redis_holds api view r1 (d_Name d) (meta_of d (fst (mount_set d fresh out w1 w2)))
      (if snd (mount_set d fresh out w1 w2) then rec_content recs else fmempty)"
    using redis_mount_holds [OF assms(1) assms(2) [unfolded out] assms(6)] by blast
  then show ?thesis by (simp add: settled_def mount_set_content out)
qed

lemma renamed_sets_names: "reads_map ord \<Longrightarrow> set (renamed_sets d (ord sets) sets) \<subseteq> fset (fmdom sets) - {d_Name d}"
  by (auto simp: renamed_sets_set intro: fmdomI)

lemma stays_settled:
  assumes "pipe_reach (redis_store api) opts (sys_init s r) y" and "inflight s []" and "depth_ok opts"
    and "settled api view s r" and "\<not> y_failed y" and "\<forall>d\<in>set (log_deltas (y_log y)). storable d"
  shows "settled api view (y_s y) (y_store y)"
proof -
  have "s_Def (y_s y) = s_Def s" "s_epoch (y_s y) = s_epoch s" "s_key (y_s y) = s_key s"
    using pipe_reach_log [OF assms(1-3)] by (simp_all add: log_inv_def)
  then have "meta_of (s_Def (y_s y)) (y_s y) = (meta_of (s_Def s) s)\<lparr>m_Seq := s_seq (y_s y), m_Hash := s_hash (y_s y)\<rparr>"
    by (simp add: meta_of_def)
  then show ?thesis
    using redis.store_follows [OF assms(1-3) assms(4) [unfolded settled_def] _ _ assms(5,6)] \<open>s_Def (y_s y) = s_Def s\<close>
    by (simp add: settled_def meta_of_def)
qed

section \<open>A Redis\<close>

definition demo_redis :: "redis_db redis_api" where
  "demo_redis =
     \<lparr>api_HGetAll = (\<lambda>k db. Some (db_hash db k)),
      api_ZRange = (\<lambda>k db. Some (sort_key snd (sorted_list_of_fmap (db_zset db k)))),
      api_Tx = (\<lambda>cmds db. (fold cmd_effect cmds db, True))\<rparr>"

definition demo_db :: redis_db where
  "demo_db = \<lparr>db_zset = (\<lambda>k. fmempty), db_hash = (\<lambda>k. fmempty), db_str = (\<lambda>k. None)\<rparr>"

lemma sorted_fmap_keys: "map fst (sorted_list_of_fmap m) = sorted_list_of_fset (fmdom m)"
  by (simp add: sorted_list_of_fmap_def comp_def)

lemma demo_redis_ok: "redis_ok demo_redis id"
proof -
  have d: "distinct (map fst (sort_key snd (sorted_list_of_fmap m)))" for m :: "(string, int) fmap"
  proof -
    have "mset (map fst (sort_key snd (sorted_list_of_fmap m))) = mset (map fst (sorted_list_of_fmap m))" by simp
    then show ?thesis
      using mset_eq_imp_distinct_iff sorted_fmap_keys [of m] by (metis sorted_list_of_fset.rep_eq distinct_sorted_list_of_set)
  qed
  moreover have "map_of (sort_key snd (sorted_list_of_fmap m)) = fmlookup m" for m :: "(string, int) fmap"
  proof -
    have "map_of (sort_key snd (sorted_list_of_fmap m)) = map_of (sorted_list_of_fmap m)"
      by (rule map_of_inject_set [THEN iffD2])
        (use d [of m] sorted_fmap_keys [of m] in \<open>simp_all add: sorted_list_of_fset.rep_eq\<close>)
    then show ?thesis by simp
  qed
  ultimately show ?thesis by (auto simp: redis_ok_def demo_redis_def)
qed

definition demo_ord :: "(string, holder) fmap \<Rightarrow> string list" where
  "demo_ord sets = sorted_list_of_fset (fmdom sets)"

lemma demo_ord_reads: "reads_map demo_ord"
  by (simp add: reads_map_def map_order_def demo_ord_def sorted_list_of_fset.rep_eq)

lemma demo_redis_Load: "\<exists>out. state_Load demo_redis name db = Some out"
  by (auto simp: state_Load_def demo_redis_def Let_def)

lemma demo_mount_total:
  "\<exists>k' r'. mount (redis_store demo_redis) d fresh w ord (k, db) = ((k', r'), True)"
proof (cases "\<not> fresh \<and> mounted (k_sets k) d")
  case True
  then show ?thesis by (simp add: mount_def)
next
  case False
  obtain out where out: "state_Load demo_redis (d_Name d) db = Some out" using demo_redis_Load by blast
  obtain s keep where s: "mount_set d fresh out (fst w) (snd w) = (s, keep)" by fastforce
  show ?thesis
    unfolding mount_def using False out s by (simp add: redis_store_def state_Reset_def demo_redis_def Let_def)
qed

definition demo_new :: "newset \<times> newset" where
  "demo_new = (\<lparr>w_now = 0, w_rnd = replicate 8 1, w_key = replicate 16 7\<rparr>, \<lparr>w_now = 0, w_rnd = replicate 8 2, w_key = replicate 16 9\<rparr>)"

section \<open>Properties\<close>

text \<open>
  C17: Mounting a set that has no holder settles the store. After a successful \<open>mount\<close> of a definition under whose name no holder
  is running, as at \<open>Start\<close> or when a set is defined for the first time, the holder is in the map under its
  name with nothing in flight, and Redis holds exactly its meta and its content, for a new set, a
  kept one, a resumed one and one with unreadable meta alike. Dropping the state of the sets that
  were renamed to this one does not touch it. The names of the sets, the old and the new ones, have no colon, every holder is under
  the name of its definition and no other request for the name is under way; holders of other names may be running, for
  they write under their own keys (\<open>stored_sets_independent\<close>). Replacing a running holder of the same name is not
  covered: what it commits while \<open>mount\<close> is at work is the subject of \<open>Replace\<close>, with what is kept if it commits nothing and
  what is lost otherwise.
\<close>

theorem mount_settles_store:
  assumes "redis_ok api view" and "reads_map ord"
    and "mount (redis_store api) d fresh w ord (k, r) = ((k', r'), True)" and "fmlookup (k_sets k) (d_Name d) = None"
    and "int64_range (d_Type d)" and "length (w_key (fst w)) = 16" and "length (w_key (snd w)) = 16"
    and "keeper_ok (k_sets k)" and "\<forall>n\<in>fset (fmdom (k_sets k)). plain_name n" and "plain_name (d_Name d)"
  shows "\<exists>h. fmlookup (k_sets k') (d_Name d) = Some h \<and> h_Def h = d \<and> inflight (h_s h) [] \<and> settled api view (h_s h) r'"
proof -
  obtain out s keep h sets r1 where o: "st_Load (redis_store api) (d_Name d) r = Some out"
    "mount_set d fresh out (fst w) (snd w) = (s, keep)" "st_Reset (redis_store api) (d_Name d) (meta_of d s) keep r = (r1, True)"
    and h: "h = publishTick (new_holder s)" "sets = fmupd (d_Name d) h (k_sets k)"
    and k': "k' = k\<lparr>k_sets := fold fmdrop (renamed_sets d (ord sets) sets) sets\<rparr>"
    and r': "r' = fold (drop_state (redis_store api) sets) (renamed_sets d (ord sets) sets) r1"
    by (rule mount_splits [OF assms(3)]) (use assms(4) in \<open>simp_all add: mounted_def\<close>)
  have s: "s_Def s = d" "inflight s []"
    using mount_set_def_of [of d fresh out "fst w" "snd w"] mount_set_inflight [of d fresh out "fst w" "snd w"] o(2) by simp_all
  have "settled api view s r1"
    using redis_reset_settled [OF assms(1) _ assms(5-7), of r out fresh r1] o by (simp add: redis_store_def)
  moreover have ns: "set (renamed_sets d (ord sets) sets) \<subseteq> fset (fmdom (k_sets k)) - {d_Name d}"
    using renamed_sets_names [OF assms(2), of d sets] by (auto simp: h)
  moreover have "\<forall>n h. fmlookup sets n = Some h \<longrightarrow> d_Name (h_Def h) = n"
    using assms(8) s(1) by (auto simp: h keeper_ok_def new_holder_def)
  ultimately have "settled api view s r'"
    unfolding settled_def r' s(1) using assms(9,10) by (intro drop_state_other) auto
  moreover have "fmlookup (k_sets k') (d_Name d) = Some h"
    using ns by (auto simp: k' fold_fmdrop_lookup h)
  ultimately show ?thesis using s by (auto simp: h new_holder_def)
qed

theorem mount_settles_store_witness:
  "\<exists>(k' :: keeper) r' h. fmlookup (k_sets k') ''blocked'' = Some h \<and> h_Def h = demo_def TypeString 2 \<and> settled demo_redis id (h_s h) r'"
proof -
  obtain k' r' where m: "mount (redis_store demo_redis) (demo_def TypeString 2) True demo_new demo_ord (keeper_New demo_opts, demo_db)
      = ((k', r'), True)" using demo_mount_total by blast
  have "\<exists>h. fmlookup (k_sets k') (d_Name (demo_def TypeString 2)) = Some h \<and> h_Def h = demo_def TypeString 2
      \<and> inflight (h_s h) [] \<and> settled demo_redis id (h_s h) r'"
    by (rule mount_settles_store [OF demo_redis_ok demo_ord_reads m])
      (simp_all add: demo_def_def TypeString_def int64_range_def demo_new_def keeper_ok_def keeper_New_def plain_name_def)
  moreover have "d_Name (demo_def TypeString 2) = ''blocked''" by (simp add: demo_def_def)
  ultimately show ?thesis by metis
qed

text \<open>
  C6: The store follows the holder: from a settled start, in every reachable state in which no
  commit has failed and every committed record fits a Redis score and the origin separator,
  Redis holds the committed sequence number, hash and content, so nothing that was acknowledged
  is lost with the process.
\<close>

theorem store_follows_holder:
  assumes "pipe_reach (redis_store api) opts (sys_init s r) y" and "inflight s []" and "depth_ok opts"
    and "settled api view s r" and "\<not> y_failed y" and "\<forall>d\<in>set (log_deltas (y_log y)). storable d"
  shows "settled api view (y_s y) (y_store y)"
  by (rule stays_settled [OF assms])

lemma demo_redis_total: "\<forall>name ds seq hash key pkg ttl. snd (st_Commit (redis_store demo_redis) name ds seq hash key pkg ttl db)"
  by (simp add: redis_store_def state_Commit_def demo_redis_def)

text \<open>The demo set, reset into the empty Redis.\<close>

definition demo_start :: redis_db where
  "demo_start = fst (state_Reset demo_redis ''blocked'' (meta_of (demo_def TypeString 2) demo_set) False demo_db)"

lemma demo_settled: "settled demo_redis id demo_set demo_start"
proof -
  have l: "state_Load demo_redis ''blocked'' demo_db = Some (None, [], False)"
    by (simp add: state_Load_def demo_redis_def demo_db_def)
  have "meta_ok (meta_of (demo_def TypeString 2) demo_set)"
    by (simp add: meta_ok_def meta_of_def demo_set_def set_New_def demo_def_def TypeString_def int64_range_def)
  then have "redis_holds demo_redis id demo_start ''blocked'' (meta_of (demo_def TypeString 2) demo_set) fmempty"
    using redis_mount_holds [OF demo_redis_ok l, of "meta_of (demo_def TypeString 2) demo_set" False demo_start]
    by (simp add: demo_start_def state_Reset_def demo_redis_def)
  then show ?thesis by (simp add: settled_def demo_def_def)
qed

lemma demo_redis_run:
  "\<exists>y. demo_reach (redis_store demo_redis) demo_start y \<and> \<not> y_failed y \<and> log_deltas (y_log y) = pl_Deltas (snd demo_planned)"
  using demo_trace_on [OF demo_redis_total, of demo_start] by (auto simp: log_deltas_def)

lemma demo_storable: "\<forall>d\<in>set (pl_Deltas (snd demo_planned)). storable d"
  unfolding demo_planned_def demo_plan Let_def by (simp add: storable_def demo_add_def whySep_def)

theorem store_follows_holder_witness:
  "\<exists>y. settled demo_redis id (y_s y) (y_store y) \<and> log_deltas (y_log y) \<noteq> []"
proof -
  obtain y where y: "demo_reach (redis_store demo_redis) demo_start y" "\<not> y_failed y"
    "log_deltas (y_log y) = pl_Deltas (snd demo_planned)" using demo_redis_run by blast
  have "\<forall>d\<in>set (log_deltas (y_log y)). storable d" unfolding y(3) by (rule demo_storable)
  from store_follows_holder [OF y(1) demo_inflight demo_depth demo_settled y(2) this] y(3) show ?thesis
    by (intro exI [of _ y]) simp
qed

text \<open>
  C7: A restart resumes the set. When a definition is mounted from the store a running holder has left
  behind, with no failed commit, by a keeper that has not mounted it, the new holder has the same epoch, key, sequence number, hash and
  entries, so mirrors need no new snapshot. It holds for records that come back from Redis as they were (\<open>storable\<close>): every committed
  expiry is below \<open>2^53\<close> milliseconds, so that the score is exact, and no committed origin has the byte \<open>0x1F\<close>, which separates
  origin and reason in the store and which \<open>Submit\<close> does not refuse (\<open>separator_in_origin\<close> in \<open>Corners\<close>). The set started settled and with
  canonical values, and it is not a CIDR set with \<open>Def.Hash\<close>, whose hash does not depend on the stored text only.
\<close>

theorem restart_resumes:
  assumes "pipe_reach (redis_store api) opts (sys_init s r) y" and "inflight s []" and "depth_ok opts"
    and "settled api view s r" and "typed_entries s (s_entries s)" and "text_hashed (s_Def s)"
    and "\<not> y_failed y" and "\<forall>d\<in>set (log_deltas (y_log y)). storable d"
    and "mount (redis_store api) (s_Def s) False w ord (k, y_store y) = ((k', r'), True)"
    and "\<not> mounted (k_sets k) (s_Def s)" and "reads_map ord"
  shows "\<exists>h. fmlookup (k_sets k') (d_Name (s_Def s)) = Some h \<and> h_Def h = s_Def s
    \<and> s_epoch (h_s h) = s_epoch (y_s y) \<and> s_key (h_s h) = s_key (y_s y) \<and> s_seq (h_s h) = s_seq (y_s y)
    \<and> s_hash (h_s h) = s_hash (y_s y) \<and> s_entries (h_s h) = s_entries (y_s y)"
proof -
  have settled: "settled api view (y_s y) (y_store y)" by (rule stays_settled [OF assms(1-4,7,8)])
  have same: "s_Def (y_s y) = s_Def s" "s_key (y_s y) = s_key s"
    using pipe_reach_log [OF assms(1-3)] by (simp_all add: log_inv_def)
  have "typed_entries s (s_entries (y_s y))" using typed.pipe_reach_property [OF assms(1-3,5)] by simp
  then have hm: "hash_map (y_s y) (s_entries (y_s y))" using assms(6) same by (simp add: typed_entries_def hash_map_def)
  have hash: "s_hash (y_s y) = hsum (s_entries (y_s y))"
    using pipe_invD(1) [OF pipe_reach_inv [OF assms(1-3)]] by (simp add: inflight_def)
  obtain out s' keep h sets r1 where o: "st_Load (redis_store api) (d_Name (s_Def s)) (y_store y) = Some out"
    "mount_set (s_Def s) False out (fst w) (snd w) = (s', keep)"
    and h: "h = publishTick (new_holder s')" "sets = fmupd (d_Name (s_Def s)) h (k_sets k)"
    and k': "k' = k\<lparr>k_sets := fold fmdrop (renamed_sets (s_Def s) (ord sets) sets) sets\<rparr>"
    by (rule mount_splits [OF assms(9)]) (use assms(10) in simp_all)
  obtain recs where out: "out = (Some (meta_of (s_Def s) (y_s y)), recs, False)" and d: "distinct (map r_Value recs)"
    and z: "\<forall>q\<in>set recs. r_Prefix q = zero_prefix"
    and c: "fmap_of_list (map (\<lambda>q. (r_Value q, (r_Exp q, r_Origin q, r_Reason q))) recs) = content (s_entries (y_s y))"
    using redis.load_holds [OF settled [unfolded settled_def same] o(1)] by blast
  have "d_Name (s_Def s) \<notin> set (renamed_sets (s_Def s) (ord sets) sets)" by (simp add: renamed_sets_def)
  then have "fmlookup (k_sets k') (d_Name (s_Def s)) = Some h" by (simp add: k' fold_fmdrop_lookup h(2))
  moreover have "h_s h = s'" "h_Def h = s_Def s"
    using mount_set_def_of [of "s_Def s" False out "fst w" "snd w"] o(2) by (simp_all add: h new_holder_def)
  ultimately show ?thesis
    using mount_set_resumes [of "meta_of (s_Def s) (y_s y)" "s_Def s" "y_s y" recs "fst w" "snd w"] same hash hm z
      rec_content_list [OF d] c o(2) out
    by (simp add: meta_of_def Let_def)
qed

theorem restart_resumes_witness:
  "\<exists>(y :: redis_db sys) (k' :: keeper) h. log_deltas (y_log y) \<noteq> [] \<and> fmlookup (k_sets k') ''blocked'' = Some h
     \<and> s_entries (h_s h) = s_entries (y_s y) \<and> s_epoch (h_s h) = s_epoch (y_s y)
     \<and> demo_reach (redis_store demo_redis) demo_start y"
proof -
  obtain y where y: "demo_reach (redis_store demo_redis) demo_start y" "\<not> y_failed y"
    "log_deltas (y_log y) = pl_Deltas (snd demo_planned)" using demo_redis_run by blast
  have st: "\<forall>d\<in>set (log_deltas (y_log y)). storable d" unfolding y(3) by (rule demo_storable)
  obtain k' r' where m: "mount (redis_store demo_redis) (s_Def demo_set) False demo_new demo_ord (keeper_New demo_opts, y_store y)
      = ((k', r'), True)" using demo_mount_total by blast
  have "\<exists>h. fmlookup (k_sets k') (d_Name (s_Def demo_set)) = Some h \<and> h_Def h = s_Def demo_set
    \<and> s_epoch (h_s h) = s_epoch (y_s y) \<and> s_key (h_s h) = s_key (y_s y) \<and> s_seq (h_s h) = s_seq (y_s y)
    \<and> s_hash (h_s h) = s_hash (y_s y) \<and> s_entries (h_s h) = s_entries (y_s y)"
    by (rule restart_resumes [OF y(1) demo_inflight demo_depth demo_settled _ _ y(2) st m _ demo_ord_reads])
      (simp_all add: typed_entries_def hash_map_def text_hashed_def demo_def_def keeper_New_def mounted_def)
  moreover have "d_Name (s_Def demo_set) = ''blocked''" "log_deltas (y_log y) \<noteq> []" using y(3) by (simp_all add: demo_def_def)
  ultimately show ?thesis using y(1) by metis
qed

text \<open>
  C18: Mounting, defining, reloading and dropping keep the map of sets well-formed, whether they
  succeed or fail: every holder is under the name of its definition and no two holders have the same
  identifier. So a renamed set never stays mounted under both names.
\<close>

theorem sets_stay_unique:
  assumes "reads_map ord" and "keeper_ok (k_sets k)"
  shows "keeper_ok (k_sets (fst (fst (mount st d fresh w ord (k, r)))))
    \<and> keeper_ok (k_sets (fst (fst (keeper_Define st found name w ord (k, r)))))
    \<and> keeper_ok (k_sets (fst (fst (keeper_Reload st defs ws ord (k, r)))))
    \<and> keeper_ok (k_sets (fst (fst (keeper_Start st defs ws ord (k, r)))))
    \<and> keeper_ok (k_sets (fst (keeper_drop st name (k, r))))"
proof -
  have m: "keeper_ok (k_sets (fst (fst (mount st d fresh w ord (k, r)))))" for d fresh
    using mount_keeper_ok [OF _ assms, of st d fresh w r] by (metis prod.collapse)
  have a: "keeper_ok (k_sets (fst (fst (mount_all st ds ws ord (k, r)))))" for ds
    using mount_all_keeper_ok [OF _ assms, of st ds ws r] by (metis prod.collapse)
  have dr: "keeper_ok (k_sets (fst (keeper_drop st name (k, r))))"
    by (simp add: keeper_drop_sets keeper_ok_drop assms(2))
  have def: "keeper_ok (k_sets (fst (fst (keeper_Define st found name w ord (k, r)))))"
    using m [of _ True] dr assms(2)
    by (auto simp: keeper_Define_def Let_def split: option.splits prod.splits if_splits) (metis fst_conv)+
  have rel: "keeper_ok (k_sets (fst (fst (keeper_Reload st defs ws ord (k, r)))))"
    using a assms(2)
    by (auto simp: keeper_Reload_def Let_def keeper_drop_fold_sets split: option.splits prod.splits if_splits
        intro!: fold_drop_keeper_ok) (metis fst_conv)+
  have st: "keeper_ok (k_sets (fst (fst (keeper_Start st defs ws ord (k, r)))))"
    using a assms(2)
    by (auto simp: keeper_Start_def Let_def split: option.splits prod.splits if_splits) (metis fst_conv)+
  show ?thesis using m dr def rel st by simp
qed

theorem sets_stay_unique_witness:
  "\<exists>k :: keeper. k_sets k \<noteq> fmempty \<and> keeper_ok (k_sets k)"
proof -
  let ?m = "mount (redis_store demo_redis) (demo_def TypeString 2) True demo_new demo_ord (keeper_New demo_opts, demo_db)"
  obtain k' r' where m: "?m = ((k', r'), True)" using demo_mount_total by blast
  have "keeper_ok (k_sets (keeper_New demo_opts))" by (simp add: keeper_ok_def keeper_New_def)
  from sets_stay_unique [OF demo_ord_reads this, of "redis_store demo_redis" "demo_def TypeString 2" True demo_new demo_db]
  have "keeper_ok (k_sets k')" using m by simp
  moreover have "k_sets k' \<noteq> fmempty" using mount_sets [OF m demo_ord_reads] replaces_self by (metis fmempty_lookup option.distinct(1))
  ultimately show ?thesis by blast
qed

end
