(* ===== verification/KeeperProps.thy ===== *)
theory KeeperProps
  imports StoreProps
begin

text \<open>
  The keeper as its clients see it: which events \<open>Submit\<close> accepts and what it makes of them, what
  \<open>Lookup\<close> finds afterwards, which sets are mounted after \<open>Start\<close>, \<open>Define\<close> and \<open>Reload\<close>, how a definition is
  brought together with the stored state, and that the stored states of two sets are independent.
\<close>

section \<open>Submit\<close>

text \<open>The value an event stands for in the set, and its prefix.\<close>

definition event_value :: "set_def \<Rightarrow> event \<Rightarrow> string \<times> prefix \<Rightarrow> string" where
  "event_value d ev vp = (if d_Hash d \<and> \<not> ev_Hashed ev then MD5Hex (fst vp) else fst vp)"

definition canonical :: "set_def \<Rightarrow> string \<Rightarrow> bool" where
  "canonical d raw \<longleftrightarrow> isl (map_sum id fst (CanonPrefix (d_Type d) raw)) = False"

lemma canonicalE:
  assumes "canonical d raw"
  obtains v p where "CanonPrefix (d_Type d) raw = Inr (v, p)"
  using assms by (cases "CanonPrefix (d_Type d) raw") (auto simp: canonical_def)

lemma submit_loop_ok:
  assumes "submit_loop d ev raws seen recs0 = Inr recs" and "seen = fset_of_list (map r_Value recs0)" and "distinct (map r_Value recs0)"
  shows "distinct (map r_Value recs) \<and> (\<forall>raw\<in>set raws. canonical d raw)
    \<and> r_Value ` set recs = r_Value ` set recs0 \<union> (\<lambda>raw. event_value d ev (projr (CanonPrefix (d_Type d) raw))) ` set raws
    \<and> (\<forall>q\<in>set recs. q \<in> set recs0 \<or> r_Origin q = ev_Origin ev \<and> r_Reason q = ev_Reason ev)"
  using assms
proof (induction raws arbitrary: seen recs0)
  case (Cons raw raws)
  obtain v p where c: "CanonPrefix (d_Type d) raw = Inr (v, p)"
    using Cons.prems(1) by (auto split: sum.splits)
  let ?v = "event_value d ev (v, p)"
  let ?q = "\<lparr>r_Value = ?v, r_Exp = 0, r_Origin = ev_Origin ev, r_Reason = ev_Reason ev, r_Prefix = p\<rparr>"
  show ?case
  proof (cases "?v |\<in>| seen")
    case True
    then have "submit_loop d ev raws seen recs0 = Inr recs"
      using Cons.prems(1) c by (auto simp: Let_def event_value_def split: if_splits)
    moreover have "?v \<in> r_Value ` set recs0" using True Cons.prems(2) by (simp add: fset_of_list.rep_eq)
    ultimately show ?thesis using Cons.IH [OF _ Cons.prems(2,3)] c by (auto simp: canonical_def)
  next
    case False
    then have "submit_loop d ev raws (finsert ?v seen) (recs0 @ [?q]) = Inr recs"
      using Cons.prems(1) c by (auto simp: Let_def event_value_def split: if_splits)
    moreover have "finsert ?v seen = fset_of_list (map r_Value (recs0 @ [?q]))"
      using Cons.prems(2) by (simp add: fset_eq_iff fset_of_list.rep_eq)
    moreover have "distinct (map r_Value (recs0 @ [?q]))"
      using False Cons.prems(2,3) by (simp add: fset_of_list.rep_eq image_iff)
    ultimately have "distinct (map r_Value recs) \<and> (\<forall>raw\<in>set raws. canonical d raw)
      \<and> r_Value ` set recs = r_Value ` set (recs0 @ [?q]) \<union> (\<lambda>raw. event_value d ev (projr (CanonPrefix (d_Type d) raw))) ` set raws
      \<and> (\<forall>q\<in>set recs. q \<in> set (recs0 @ [?q]) \<or> r_Origin q = ev_Origin ev \<and> r_Reason q = ev_Reason ev)"
      by (rule Cons.IH)
    then show ?thesis using c by (auto simp: canonical_def)
  qed
qed simp

lemma submit_loop_total:
  "(\<exists>recs. submit_loop d ev raws seen recs0 = Inr recs) \<longleftrightarrow> (\<forall>raw\<in>set raws. canonical d raw)"
proof (induction raws arbitrary: seen recs0)
  case (Cons raw raws)
  then show ?case by (auto simp: canonical_def Let_def split: sum.splits)
qed simp

definition event_op :: "event \<Rightarrow> string" where
  "event_op ev = (if ev_Op ev = [] then OpAdd else ev_Op ev)"

definition event_ttl :: "set_def \<Rightarrow> event \<Rightarrow> int" where
  "event_ttl d ev = (if ev_TTL ev \<le> 0 then d_TTL d else ev_TTL ev)"

definition valid_event :: "set_def \<Rightarrow> event \<Rightarrow> bool" where
  "valid_event d ev \<longleftrightarrow>
     (event_op ev = OpAdd \<and> \<not> ev_Forever ev \<and> 0 < event_ttl d ev \<or> event_op ev = OpRemove)
     \<and> TrimSpace (ev_Origin ev) \<noteq> [] \<and> submit_values ev \<noteq> [] \<and> (\<forall>raw\<in>set (submit_values ev). canonical d raw)"

lemma submit_prepare_ok:
  "submit_prepare d ev now = Inr (op, recs) \<longleftrightarrow>
     op = event_op ev \<and> valid_event d ev \<and>
     (\<exists>rs. submit_loop d ev (submit_values ev) {||} [] = Inr rs \<and>
        recs = (if op = OpAdd then map (\<lambda>r. r\<lparr>r_Exp := submit_exp now (event_ttl d ev)\<rparr>) rs else rs))"
  using submit_loop_total [of d ev "submit_values ev" "{||}" "[]"]
  by (auto simp: submit_prepare_def valid_event_def event_op_def event_ttl_def Let_def not_le split: sum.splits if_splits)

lemma submit_prepare_recs:
  assumes "submit_prepare d ev now = Inr (op, recs)"
  shows "op = event_op ev \<and> recs \<noteq> [] \<and> distinct (map r_Value recs)
    \<and> r_Value ` set recs = (\<lambda>raw. event_value d ev (projr (CanonPrefix (d_Type d) raw))) ` set (submit_values ev)
    \<and> (\<forall>q\<in>set recs. r_Origin q = ev_Origin ev \<and> r_Reason q = ev_Reason ev
         \<and> (op = OpAdd \<longrightarrow> r_Exp q = submit_exp now (event_ttl d ev)))"
proof -
  obtain rs where rs: "submit_loop d ev (submit_values ev) {||} [] = Inr rs" and v: "op = event_op ev" "valid_event d ev"
    and recs: "recs = (if op = OpAdd then map (\<lambda>r. r\<lparr>r_Exp := submit_exp now (event_ttl d ev)\<rparr>) rs else rs)"
    using assms by (auto simp: submit_prepare_ok)
  note L = submit_loop_ok [OF rs]
  have vals: "map r_Value recs = map r_Value rs" by (simp add: recs comp_def)
  have "r_Value ` set recs = r_Value ` set rs" using arg_cong [OF vals, of set] by simp
  moreover have "recs \<noteq> []" using L v vals by (auto simp: valid_event_def)
  ultimately show ?thesis using L vals v(1) by (auto simp: recs)
qed

section \<open>Lookup\<close>

text \<open>
  What a set answers for a value that was written: the record as requested.
\<close>

definition written :: "content \<Rightarrow> rec \<Rightarrow> bool" where
  "written c q \<longleftrightarrow> fmlookup c (r_Value q) = Some (r_Exp q, r_Origin q, r_Reason q)"

section \<open>Properties of the requests\<close>

text \<open>
  C26: \<open>Submit\<close> accepts exactly the valid events: a known operation, an origin, at least one value,
  every value canonical for the type of the set, and for an add a positive lifetime (the event's or
  the set's) and no request to live forever. An accepted event becomes a job with one record per
  distinct canonical value, hashed if the set is, each with the event's origin and reason, and for an
  add the same moment of expiry.
\<close>

theorem Submit_accepts_exactly:
  "((\<exists>op recs. submit_prepare d ev now = Inr (op, recs)) \<longleftrightarrow> valid_event d ev)
   \<and> (\<forall>op recs. submit_prepare d ev now = Inr (op, recs) \<longrightarrow>
        op = event_op ev \<and> recs \<noteq> [] \<and> distinct (map r_Value recs)
        \<and> r_Value ` set recs = (\<lambda>raw. event_value d ev (projr (CanonPrefix (d_Type d) raw))) ` set (submit_values ev)
        \<and> (\<forall>q\<in>set recs. r_Origin q = ev_Origin ev \<and> r_Reason q = ev_Reason ev
             \<and> (op = OpAdd \<longrightarrow> r_Exp q = submit_exp now (event_ttl d ev))))"
proof (intro conjI allI impI)
  show "(\<exists>op recs. submit_prepare d ev now = Inr (op, recs)) \<longleftrightarrow> valid_event d ev"
    using submit_loop_total [of d ev "submit_values ev" "{||}" "[]"] by (auto simp: submit_prepare_ok valid_event_def)
qed (auto dest!: submit_prepare_recs)

theorem Submit_accepts_exactly_witness:
  "valid_event (demo_def TypeString 2) demo_event \<and> \<not> valid_event (demo_def TypeString 2) (demo_event\<lparr>ev_Forever := True\<rparr>)"
proof -
  have "submit_prepare (demo_def TypeString 2) (demo_event\<lparr>ev_Forever := True\<rparr>) 0 = Inl ErrForever"
    by code_simp
  then have "\<not> (\<exists>op recs. submit_prepare (demo_def TypeString 2) (demo_event\<lparr>ev_Forever := True\<rparr>) 0 = Inr (op, recs))"
    by simp
  then show ?thesis
    using demo_prepare Submit_accepts_exactly [of "demo_def TypeString 2" demo_event 0]
      Submit_accepts_exactly [of "demo_def TypeString 2" "demo_event\<lparr>ev_Forever := True\<rparr>" 0] by blast
qed

text \<open>
  C29: A value that was added is found. Once the records of an accepted add are in the committed
  content, looking up any of the submitted texts, as it was written in the event, finds the value
  with the expiry \<open>e\<close> of the event until that moment, and not from it on if \<open>e\<close> is positive. It is for a clock after 1970
  and a lifetime of at most 9223372036 seconds; a longer one overflows, and with an \<open>e\<close> that is not positive the value is found at
  any time (\<open>huge_ttl_lives_forever\<close> in \<open>Corners\<close>). The one exception is an event that sends MD5 sums (\<open>Hashed\<close>) to a hashed set:
  \<open>Lookup\<close> hashes what it is asked for, so the sum itself is not what to ask for, and instead every text whose canonical value
  has the sum that was sent is found.
\<close>

theorem Lookup_finds_submitted:
  assumes "submit_prepare (h_Def h) ev now = Inr (OpAdd, recs)" and "raw \<in> set (submit_values ev)"
    and "\<forall>q\<in>set recs. written (content (s_entries (h_s h))) q"
  shows "let e = submit_exp now (event_ttl (h_Def h) ev);
             found = (if 0 < e \<and> e \<le> UnixMilli t then \<lparr>lr_OK = True, lr_Found = False, lr_Exp = 0, lr_Error = []\<rparr>
                      else \<lparr>lr_OK = True, lr_Found = True, lr_Exp = e, lr_Error = []\<rparr>)
    in (if d_Hash (h_Def h) \<and> ev_Hashed ev
        then \<forall>x. Canon (d_Type (h_Def h)) raw = map_sum id MD5Hex (Canon (d_Type (h_Def h)) x) \<longrightarrow> holder_Lookup x t h = found
        else holder_Lookup raw t h = found)
     \<and> (0 \<le> now \<and> event_ttl (h_Def h) ev \<le> 9223372036 \<longrightarrow> 0 < e)"
proof -
  define e where "e = submit_exp now (event_ttl (h_Def h) ev)"
  note R = submit_prepare_recs [OF assms(1)]
  have valid: "valid_event (h_Def h) ev" "event_op ev = OpAdd" using assms(1) R by (auto simp: submit_prepare_ok)
  have "canonical (h_Def h) raw" using valid(1) assms(2) by (auto simp: valid_event_def)
  then obtain v p where c: "CanonPrefix (d_Type (h_Def h)) raw = Inr (v, p)" by (rule canonicalE)
  let ?v = "event_value (h_Def h) ev (v, p)"
  have "?v \<in> r_Value ` set recs" using R assms(2) c by (metis (no_types, lifting) image_eqI sum.sel(2))
  then obtain q where q: "q \<in> set recs" "r_Value q = ?v" by auto
  then have "fmlookup (content (s_entries (h_s h))) ?v = Some (e, r_Origin q, r_Reason q)"
    using assms(3) R by (auto simp: written_def e_def)
  then obtain en where en: "set_Get (h_s h) ?v = Some en" "e_Exp en = e" by (auto simp: set_Get_def)
  have look: "holder_Lookup x t h = (if 0 < e \<and> e \<le> UnixMilli t then \<lparr>lr_OK = True, lr_Found = False, lr_Exp = 0, lr_Error = []\<rparr>
      else \<lparr>lr_OK = True, lr_Found = True, lr_Exp = e, lr_Error = []\<rparr>)"
    if "Canon (d_Type (h_Def h)) x = Inr u" "(if d_Hash (h_Def h) then MD5Hex u else u) = ?v" for x u
    using that en by (simp add: holder_Lookup_def Let_def)
  have "0 < e" if "0 \<le> now" "event_ttl (h_Def h) ev \<le> 9223372036"
  proof -
    have "0 < event_ttl (h_Def h) ev" using valid OpAdd_def OpRemove_def by (auto simp: valid_event_def)
    then show ?thesis using that by (simp add: e_def submit_exp_def UnixMilli_def Second_def wrap64_id int64_range_def)
  qed
  moreover have "Canon (d_Type (h_Def h)) raw = Inr v" using c by (simp add: Canon_def)
  ultimately show ?thesis
    unfolding e_def [symmetric] Let_def
    using look [of raw v] look by (auto simp: event_value_def map_sum_def split: sum.splits)
qed

theorem Lookup_finds_submitted_witness:
  "holder_Lookup ''a'' 0 (new_holder (set_Load [dl_Rec (demo_add ''a'' 1000)] demo_set))
     = \<lparr>lr_OK = True, lr_Found = True, lr_Exp = 1000, lr_Error = []\<rparr>"
proof -
  let ?h = "new_holder (set_Load [dl_Rec (demo_add ''a'' 1000)] demo_set)"
  have d: "h_Def ?h = demo_def TypeString 2" by (simp add: new_holder_def set_Load_def)
  have e: "submit_exp 0 (event_ttl (demo_def TypeString 2) demo_event) = 1000" by code_simp
  have v: "''a'' \<in> set (submit_values demo_event)" "\<not> ev_Hashed demo_event" by (simp_all add: submit_values_def demo_event_def)
  have "\<forall>q\<in>set [dl_Rec (demo_add ''a'' 1000)]. written (content (s_entries (h_s ?h))) q"
    by (simp add: new_holder_def set_Load_def load_recs_content rec_content_def written_def)
  from Lookup_finds_submitted [OF demo_prepare [folded d] v(1) this, of 0] v(2)
  show ?thesis by (simp add: d e Let_def UnixMilli_def)
qed

section \<open>Properties of the map of sets\<close>

text \<open>
  How a definition meets the stored state. The stored records are kept exactly when the meta cannot
  be read or is of the same set and type, and then they are the content of the set; otherwise it starts
  empty. The mounted set has nothing in flight and its hash is that of its content. A newly
  defined set, one with foreign or unreadable meta and one whose records do not give the stored hash
  start a new epoch with a new key at a new sequence number; only a set whose records give the
  stored hash goes on with the stored epoch, key and number.
\<close>

theorem mount_decides:
  assumes "mount_set d fresh (m, recs, bad) w1 w2 = (s, keep)"
  shows "(keep \<longleftrightarrow> bad \<or> (\<exists>m'. m = Some m' \<and> m_ID m' = d_ID d \<and> m_Type m' = d_Type d))
    \<and> content (s_entries s) = (if keep then rec_content recs else fmempty)
    \<and> inflight s [] \<and> s_Def s = d
    \<and> ((s_epoch s, s_key s, s_seq s) = (randomU64 (w_rnd w1), w_key w1, seq0 (w_now w1))
       \<or> \<not> fresh \<and> \<not> bad \<and> keep \<and> (s_epoch s, s_key s, s_seq s) = (m_Epoch (the m), m_Key (the m), m_Seq (the m)) \<and> s_hash s = m_Hash (the m)
       \<or> \<not> fresh \<and> \<not> bad \<and> keep \<and> (s_epoch s, s_key s, s_seq s) = (randomU64 (w_rnd w2), w_key w2, seq0 (w_now w2)))"
proof -
  have "keep \<longleftrightarrow> bad \<or> (\<exists>m'. m = Some m' \<and> m_ID m' = d_ID d \<and> m_Type m' = d_Type d)"
    using mount_set_keep [of d fresh m recs bad w1 w2] assms by (auto simp: meta_matches_def split: option.splits)
  moreover have "content (s_entries s) = (if keep then rec_content recs else fmempty)"
    using mount_set_content [of d fresh m recs bad w1 w2] assms by simp
  moreover have "inflight s []" "s_Def s = d"
    using mount_set_inflight [of d fresh "(m, recs, bad)" w1 w2] mount_set_def_of [of d fresh "(m, recs, bad)" w1 w2] assms by simp_all
  moreover have "(s_epoch s, s_key s, s_seq s) = (randomU64 (w_rnd w1), w_key w1, seq0 (w_now w1))
       \<or> \<not> fresh \<and> \<not> bad \<and> keep \<and> (s_epoch s, s_key s, s_seq s) = (m_Epoch (the m), m_Key (the m), m_Seq (the m)) \<and> s_hash s = m_Hash (the m)
       \<or> \<not> fresh \<and> \<not> bad \<and> keep \<and> (s_epoch s, s_key s, s_seq s) = (randomU64 (w_rnd w2), w_key w2, seq0 (w_now w2))"
    using assms by (auto simp: mount_set_def Let_def set_Resume_def set_Load_def new_set_def set_New_def split: if_splits)
  ultimately show ?thesis by blast
qed

theorem mount_decides_witness:
  "\<exists>s keep. mount_set (demo_def TypeString 2) True (None, [dl_Rec (demo_add ''a'' 1000)], True) (fst demo_new) (snd demo_new) = (s, keep)
     \<and> keep \<and> content (s_entries s) = rec_content [dl_Rec (demo_add ''a'' 1000)]"
proof -
  obtain s keep where s: "mount_set (demo_def TypeString 2) True (None, [dl_Rec (demo_add ''a'' 1000)], True) (fst demo_new) (snd demo_new) = (s, keep)"
    by fastforce
  from mount_decides [OF s] s show ?thesis by auto
qed

lemma mount_all_keeps:
  assumes "mount_all st ds w ord (k, r) = ((k', r'), True)" and "reads_map ord"
    and "distinct (map d_Name ds)" and "distinct (map d_ID ds)"
    and "d \<in> set ds" and "fmlookup (k_sets k) (d_Name d) = Some h" and "h_Def h = d"
  shows "fmlookup (k_sets k') (d_Name d) = Some h"
  using assms(1,3-6)
proof (induction ds arbitrary: w k r)
  case (Cons e ds)
  obtain k1 r1 where m: "mount st e False (w 0) ord (k, r) = ((k1, r1), True)"
    and rest: "mount_all st ds (\<lambda>i. w (Suc i)) ord (k1, r1) = ((k', r'), True)"
    using Cons.prems(1) by (auto split: prod.splits if_splits)
  show ?case
  proof (cases "e = d")
    case True
    then have "k1 = k" using m Cons.prems(5) assms(7) by (simp add: mount_def mounted_def)
    then show ?thesis
      using mount_all_mounted [OF rest assms(2)] Cons.prems True assms(7) by auto
  next
    case False
    then have "d \<in> set ds" using Cons.prems(4) by simp
    then have ne: "d_Name d \<noteq> d_Name e" "d_ID d \<noteq> d_ID e" using Cons.prems(2,3) by (auto simp: image_iff)
    have "fmlookup (k_sets k1) (d_Name d) = Some h"
      using mount_sets [OF m assms(2)] replaces_other [of "k_sets k" e _ "k_sets k1" "d_Name d" h] Cons.prems(5) ne assms(7) by metis
    then show ?thesis using Cons.IH [OF rest] Cons.prems \<open>d \<in> set ds\<close> by simp
  qed
qed simp

lemma mount_frame: "mount st d fresh w ord (k, r) = ((k', r'), ok) \<Longrightarrow> k_ready k' = k_ready k \<and> k_opts k' = k_opts k"
  by (auto simp: mount_def Let_def split: option.splits prod.splits if_splits)

lemma mount_all_frame: "mount_all st ds w ord (k, r) = ((k', r'), ok) \<Longrightarrow> k_ready k' = k_ready k \<and> k_opts k' = k_opts k"
proof (induction ds arbitrary: w k r)
  case (Cons d ds)
  obtain k1 r1 ok1 where m: "mount st d False (w 0) ord (k, r) = ((k1, r1), ok1)"
    by (cases "mount st d False (w 0) ord (k, r)") auto
  then show ?case using Cons mount_frame [OF m] by (auto split: if_splits)
qed simp

lemma Reload_sets:
  assumes "keeper_Reload st (Some ds) w ord (k, r) = ((k', r'), True)" and "reads_map ord"
  obtains k1 r1 where "mount_all st ds w ord (k, r) = ((k1, r1), True)"
    and "k_sets k' = fold fmdrop (filter (\<lambda>n. n \<notin> set (map d_Name ds)) (ord (k_sets k1))) (k_sets k1)"
proof -
  obtain k1 r1 ok where m: "mount_all st ds w ord (k, r) = ((k1, r1), ok)" by (cases "mount_all st ds w ord (k, r)") auto
  then have ok using assms(1) by (auto simp: keeper_Reload_def split: if_splits)
  moreover have "(k', r') = fold (keeper_drop st) (filter (\<lambda>n. n \<notin> set (map d_Name ds)) (ord (k_sets k1))) (k1, r1)"
    using assms(1) m calculation by (simp add: keeper_Reload_def Let_def)
  ultimately show thesis
    by (intro that [of k1 r1]) (use m in simp, metis fst_conv keeper_drop_fold_sets)
qed

text \<open>
  C24: After a successful \<open>Reload\<close> exactly the listed definitions are mounted, each under its name, and
  a set whose definition did not change keeps its holder, with its queue, its plans in flight and its
  sequence number, untouched. The loaded definitions have distinct names and identifiers, as rows of the database do.
\<close>

theorem Reload_exact:
  assumes "keeper_Reload st (Some ds) w ord (k, r) = ((k', r'), True)" and "reads_map ord"
    and "distinct (map d_Name ds)" and "distinct (map d_ID ds)"
  shows "fset (fmdom (k_sets k')) = set (map d_Name ds)
    \<and> (\<forall>d\<in>set ds. \<exists>h. fmlookup (k_sets k') (d_Name d) = Some h \<and> h_Def h = d)
    \<and> (\<forall>d\<in>set ds. mounted (k_sets k) d \<longrightarrow> fmlookup (k_sets k') (d_Name d) = fmlookup (k_sets k) (d_Name d))"
proof -
  obtain k1 r1 where m: "mount_all st ds w ord (k, r) = ((k1, r1), True)"
    and k': "k_sets k' = fold fmdrop (filter (\<lambda>n. n \<notin> set (map d_Name ds)) (ord (k_sets k1))) (k_sets k1)"
    by (rule Reload_sets [OF assms(1,2)])
  have lk: "fmlookup (k_sets k') n = (if n \<in> set (map d_Name ds) then fmlookup (k_sets k1) n else None)" for n
    using assms(2) by (auto simp: k' fold_fmdrop_lookup reads_map_def map_order_def fmdom_notD)
  have here: "\<forall>d\<in>set ds. \<exists>h. fmlookup (k_sets k1) (d_Name d) = Some h \<and> h_Def h = d"
    using mount_all_mounted [OF m assms(2-4)] by blast
  have keeps: "\<forall>d\<in>set ds. mounted (k_sets k) d \<longrightarrow> fmlookup (k_sets k1) (d_Name d) = fmlookup (k_sets k) (d_Name d)"
    using mount_all_keeps [OF m assms(2-4)] by (auto simp: mounted_def split: option.splits)
  have "n |\<in>| fmdom (k_sets k') \<longleftrightarrow> n \<in> set (map d_Name ds)" for n
    using here by (auto simp: fmlookup_dom_iff lk split: if_splits)
  then show ?thesis using here keeps lk by auto
qed

lemma demo_mount_all_total:
  "\<exists>k' r'. mount_all (redis_store demo_redis) ds w ord (k, db) = ((k', r'), True)"
proof (induction ds arbitrary: w k db)
  case (Cons d ds)
  obtain k1 r1 where "mount (redis_store demo_redis) d False (w 0) ord (k, db) = ((k1, r1), True)"
    using demo_mount_total by blast
  then show ?case using Cons.IH by simp
qed simp

lemma demo_Reload_total:
  "\<exists>k' r'. keeper_Reload (redis_store demo_redis) (Some ds) w ord (k, db) = ((k', r'), True)"
proof -
  obtain k1 r1 where "mount_all (redis_store demo_redis) ds w ord (k, db) = ((k1, r1), True)"
    using demo_mount_all_total by blast
  then show ?thesis by (simp add: keeper_Reload_def Let_def)
qed

theorem Reload_exact_witness:
  "\<exists>k' :: keeper. fset (fmdom (k_sets k')) = {''blocked''}"
proof -
  obtain k' r' where r: "keeper_Reload (redis_store demo_redis) (Some [demo_def TypeString 2]) (\<lambda>i. demo_new) demo_ord
      (keeper_New demo_opts, demo_db) = ((k', r'), True)" using demo_Reload_total by blast
  have "fset (fmdom (k_sets k')) = set (map d_Name [demo_def TypeString 2])"
    using Reload_exact [OF r demo_ord_reads] by simp
  then show ?thesis by (intro exI [of _ k']) (simp add: demo_def_def)
qed

text \<open>
  C25: A keeper that has not started refuses: when \<open>Start\<close> fails, because the definitions could not be
  read or the store failed for one of them, no write and no snapshot is served, whatever was mounted
  until then, and nothing is changed; when it succeeds every definition is mounted and the keeper is ready.
\<close>

theorem Start_all_or_not_ready:
  assumes "keeper_Start st defs w ord (keeper_New op, r) = ((k, r'), ok)" and "reads_map ord"
  shows "(\<not> ok \<longrightarrow> keeper_Submit name ev now rid deadline sel k = (k, Some (event_error ErrNotReady))
           \<and> keeper_Snapshot st name order now at k r' = (k, r', snap_error name OpNotReady))
    \<and> (ok \<longrightarrow> k_ready k \<and> (\<exists>ds. defs = Some ds \<and>
           (distinct (map d_Name ds) \<longrightarrow> distinct (map d_ID ds) \<longrightarrow>
              (\<forall>d\<in>set ds. \<exists>h. fmlookup (k_sets k) (d_Name d) = Some h \<and> h_Def h = d))))"
proof (cases ok)
  case False
  then have "\<not> k_ready k"
    using assms(1)
    by (auto simp: keeper_Start_def keeper_New_def dest: mount_all_frame split: option.splits prod.splits if_splits)
  then show ?thesis using False by (simp add: keeper_Submit_def keeper_Snapshot_def)
next
  case True
  then obtain ds k1 where ds: "defs = Some ds" "mount_all st ds w ord (keeper_New op, r) = ((k1, r'), True)" "k = k1\<lparr>k_ready := True\<rparr>"
    using assms(1) by (auto simp: keeper_Start_def split: option.splits prod.splits if_splits)
  then show ?thesis using True mount_all_mounted [OF ds(2) assms(2)] by simp
qed

theorem Start_all_or_not_ready_witness:
  "\<exists>k :: keeper. keeper_Submit ''blocked'' demo_event 0 0 None JobSent k = (k, Some (event_error ErrNotReady))"
proof -
  have "keeper_Start (redis_store demo_redis) None (\<lambda>i. demo_new) demo_ord (keeper_New demo_opts, demo_db)
      = ((keeper_New demo_opts, demo_db), False)" by (simp add: keeper_Start_def)
  from Start_all_or_not_ready [OF this demo_ord_reads] show ?thesis by blast
qed

section \<open>Properties of the stored sets\<close>

text \<open>
  C35: What is stored of one set does not depend on another: committing, resetting and dropping a
  set, and storing any snapshot, leave the meta and the content of every set with another name as they
  were. The names must not contain a colon, since \<open>a:why\<close> is also the key of the reasons of \<open>a\<close>.
\<close>

theorem stored_sets_independent:
  assumes "redis_holds api view r name m c" and "plain_name name" and "plain_name n" and "n \<noteq> name"
  shows "(\<forall>r'. state_Commit api n ds seq hash (DiffKey n seq) pkg ttl r = (r', True) \<longrightarrow> redis_holds api view r' name m c)
    \<and> (\<forall>r'. state_Reset api n m' keep r = (r', True) \<longrightarrow> redis_holds api view r' name m c)
    \<and> redis_holds api view (fst (state_Drop api n r)) name m c
    \<and> redis_holds api view (fst (state_Put api (SnapKey n' e q) data ttl r)) name m c"
proof (intro conjI allI impI)
  have d: "set_keys name \<inter> set_keys n = {}" by (rule set_keys_disjoint [OF assms(2,3)]) (use assms(4) in simp)
  show "redis_holds api view r' name m c" if "state_Commit api n ds seq hash (DiffKey n seq) pkg ttl r = (r', True)" for r'
  proof (rule holds_other [OF assms(1) that [unfolded state_Commit_def]])
    have "DiffKey n seq \<notin> set_keys name" by (simp add: set_keys_def)
    then show "set_keys name \<inter> \<Union> (cmd_keys ` set (commit_cmds n ds seq hash (DiffKey n seq) pkg ttl)) = {}"
      using d commit_cmds_keys [of n ds seq hash "DiffKey n seq" pkg ttl] by blast
  qed
  show "redis_holds api view r' name m c" if "state_Reset api n m' keep r = (r', True)" for r'
    by (rule holds_other [OF assms(1) that [unfolded state_Reset_def]]) (use d in \<open>auto simp: reset_cmds_def set_keys_def\<close>)
  show "redis_holds api view (fst (state_Drop api n r)) name m c"
    by (rule drop_other [OF assms])
  show "redis_holds api view (fst (state_Put api (SnapKey n' e q) data ttl r)) name m c"
    by (rule holds_single [OF assms(1), of "SetEx (SnapKey n' e q) data ttl" _ "snd (state_Put api (SnapKey n' e q) data ttl r)"])
      (simp_all add: state_Put_def set_keys_def)
qed

theorem stored_sets_independent_witness:
  "redis_holds demo_redis id (fst (state_Drop demo_redis ''trusted'' demo_start)) ''blocked''
     (meta_of (demo_def TypeString 2) demo_set) fmempty"
proof -
  have h: "redis_holds demo_redis id demo_start ''blocked'' (meta_of (demo_def TypeString 2) demo_set) fmempty"
    using demo_settled by (simp add: settled_def demo_def_def)
  have p: "plain_name ''blocked''" "plain_name ''trusted''" "''trusted'' \<noteq> ''blocked''" by (simp_all add: plain_name_def)
  from stored_sets_independent [OF h p] show ?thesis by blast
qed

text \<open>
  The planner takes the jobs in the order in which they were queued: a gathered batch is the first
  job, then the queue from the front, then the arrivals of the window, and what is not taken stays
  at the front of the queue; the count of queued records goes down by exactly the records taken.
\<close>

theorem gather_takes_in_order:
  assumes "gather opts evs j h = (h', batch)"
  shows "\<exists>taken rest. batch = j # taken \<and> h_jobs h @ arrivals evs = taken @ rest \<and> (\<exists>more. rest = h_jobs h' @ more)
    \<and> h' = h\<lparr>h_jobs := h_jobs h', h_queued := h_queued h - recs_total batch\<rparr>"
proof -
  obtain taken rest where g: "batch = [j] @ taken" "h_jobs (take_job j h) @ arrivals evs = taken @ rest"
    "\<exists>more. rest = h_jobs h' @ more" "h' = (take_job j h)\<lparr>h_jobs := h_jobs h', h_queued := h_queued (take_job j h) - recs_total taken\<rparr>"
    using gather_loop_fifo [OF assms [unfolded gather_def]] by blast
  have "h' = h\<lparr>h_jobs := h_jobs h', h_queued := h_queued h - recs_total batch\<rparr>"
    by (subst g(4)) (simp add: take_job_def g(1))
  then show ?thesis using g(1-3) by (auto simp: take_job_def)
qed

theorem gather_takes_in_order_witness:
  "\<exists>h' batch. gather demo_opts [] demo_job ((new_holder demo_set)\<lparr>h_jobs := [demo_job, demo_job], h_queued := 3\<rparr>) = (h', batch)
     \<and> h_queued h' = 3 - recs_total batch"
proof -
  obtain h' batch where g: "gather demo_opts [] demo_job ((new_holder demo_set)\<lparr>h_jobs := [demo_job, demo_job], h_queued := 3\<rparr>) = (h', batch)"
    by fastforce
  obtain js where "h' = (new_holder demo_set)\<lparr>h_jobs := js, h_queued := 3 - recs_total batch\<rparr>"
    using gather_takes_in_order [OF g] by auto
  then show ?thesis using g by simp
qed

end
