(* ===== verification/Mirror.thy ===== *)
theory Mirror
  imports PipelineProps
begin

text \<open>
  The other end of the wire: a mirror that decodes the published packages and applies their records
  in order. It is the specification of what the packages mean; the theorem composes the pipeline, the
  package format and the base64 of the frames.
\<close>

section \<open>A mirror\<close>

text \<open>
  A mirror keeps the records under their hash material, \<open>PackRecord.Material\<close>, with expiry and reason; packages
  of CIDR sets carry no reasons. After each package it compares the XOR of the SipHash of its keys with the
  hash of the package, and gives up when they differ.
\<close>

type_synonym mirror = "(byte list, int \<times> string) fmap"

definition mirror_rec :: "byte \<Rightarrow> pack_rec \<Rightarrow> mirror \<Rightarrow> mirror" where
  "mirror_rec t r m =
     (if k_Op r = RecRemove then fmdrop (PackRecord_Material t r) m
      else fmupd (PackRecord_Material t r) (k_Exp r, k_Reason r) m)"

definition mirror_hash :: "byte list \<Rightarrow> mirror \<Rightarrow> u64" where
  "mirror_hash key m = xor_sum.F (SipHashBytes key) (fset (fmdom m))"

definition mirror_pkg :: "byte list \<Rightarrow> mirror \<Rightarrow> mirror option" where
  "mirror_pkg pkg m =
     (case Unpack pkg of
        Inl err \<Rightarrow> None
      | Inr (h, recs) \<Rightarrow>
          (let m' = fold (mirror_rec (h_Type h)) recs m
           in if mirror_hash (h_Key h) m' = h_Hash h then Some m' else None))"

fun mirror_run :: "byte list list \<Rightarrow> mirror \<Rightarrow> mirror option" where
  "mirror_run [] m = Some m"
| "mirror_run (pkg # pkgs) m = (case mirror_pkg pkg m of None \<Rightarrow> None | Some m' \<Rightarrow> mirror_run pkgs m')"

text \<open>The mirror has exactly the content.\<close>

definition mirrors :: "set_type \<Rightarrow> entries \<Rightarrow> mirror \<Rightarrow> bool" where
  "mirrors t m x \<longleftrightarrow>
     fset (fmdom x) = Material t ` fset (fmdom m)
     \<and> (\<forall>v e. fmlookup m v = Some e \<longrightarrow>
          fmlookup x (Material t v) = Some (e_Exp e, if t = TypeCIDR then [] else e_Reason e))"

lemma mirrors_empty: "mirrors t fmempty fmempty"
  by (simp add: mirrors_def)

section \<open>Applying records\<close>

text \<open>A delta that the format can carry.\<close>

definition wire_delta :: "delta \<Rightarrow> bool" where
  "wire_delta d \<longleftrightarrow> int64_range (r_Exp (dl_Rec d)) \<and> length (r_Reason (dl_Rec d)) < 2 ^ 16"

definition wire_batch :: "batch \<Rightarrow> bool" where
  "wire_batch b \<longleftrightarrow> (\<forall>d\<in>set (pl_Deltas (b_plan b)). wire_delta d) \<and> length (pl_Deltas (b_plan b)) < 2 ^ 32"

definition delta_record :: "set_type \<Rightarrow> delta \<Rightarrow> pack_rec" where
  "delta_record t d = RecordOf t (if dl_Op d = OpRemove then RecRemove else RecAdd) (dl_Rec d)"

lemma typed_change_length: "typed_change s d \<Longrightarrow> length (r_Value (dl_Rec d)) < 2 ^ 16"
  using CanonPrefix_length canon_value_prefix
  by (fastforce simp: typed_change_def typed_value_def MD5Hex_def length_hex_encode ValueMax_def)

lemma delta_record_prefix:
  assumes "typed_change s d" and "text_hashed (s_Def s)" and "d_Type (s_Def s) = TypeCIDR"
  shows "set_ParsePrefix (r_Value (dl_Rec d)) = Some (k_Prefix (delta_record TypeCIDR d))"
    and "plain_prefix (k_Prefix (delta_record TypeCIDR d))"
proof -
  have "canon_value TypeCIDR (r_Value (dl_Rec d))"
    using assms by (auto simp: typed_change_def typed_value_def text_hashed_def)
  then obtain p where "CanonPrefix TypeCIDR (r_Value (dl_Rec d)) = Inr (r_Value (dl_Rec d), p)" using canon_value_prefix by blast
  note p = CanonPrefix_parse [OF this]
  have "k_Prefix (delta_record TypeCIDR d) = p"
    using assms p(1) by (auto simp: delta_record_def RecordOf_def typed_change_def prefix_agrees_def text_hashed_def)
  then show "set_ParsePrefix (r_Value (dl_Rec d)) = Some (k_Prefix (delta_record TypeCIDR d))"
    "plain_prefix (k_Prefix (delta_record TypeCIDR d))" using p by simp_all
qed

lemma delta_record_material:
  assumes "typed_change s d" and "text_hashed (s_Def s)" and "d_Type (s_Def s) = t"
    and "h_Type h = PackType t"
  shows "PackRecord_Material (h_Type h) (unpacked h (delta_record t d)) = Material t (r_Value (dl_Rec d))"
proof (cases "t = TypeCIDR")
  case True
  then show ?thesis using assms delta_record_prefix(1) [OF assms(1,2)]
    by (simp add: PackRecord_Material_def PackType_def unpacked_def Material_def)
next
  case False
  then show ?thesis using assms(4)
    by (simp add: PackRecord_Material_def PackType_def unpacked_def Material_def delta_record_def RecordOf_def pack_consts)
qed

lemma mirror_change:
  assumes x: "mirrors t m x" and inj: "inj_on (Material t) (insert (r_Value (dl_Rec d)) (fset (fmdom m)))"
    and op: "dl_Op d = OpAdd \<or> dl_Op d = OpRemove"
    and r: "PackRecord_Material pt r = Material t (r_Value (dl_Rec d))"
      "k_Op r = (if dl_Op d = OpRemove then RecRemove else RecAdd)"
      "k_Exp r = r_Exp (dl_Rec d)" "k_Reason r = (if t = TypeCIDR then [] else r_Reason (dl_Rec d))"
  shows "mirrors t (apply_delta d m) (mirror_rec pt r x)"
proof -
  have c: "OpRemove \<noteq> OpAdd" "RecAdd \<noteq> RecRemove" by (simp_all add: OpAdd_def OpRemove_def pack_consts)
  let ?v = "r_Value (dl_Rec d)"
  have ne: "Material t v \<noteq> Material t ?v" if "v |\<in>| fmdom m" "v \<noteq> ?v" for v
    using inj_onD [OF inj, of v ?v] that by auto
  then have eq: "v = ?v" if "fmlookup m v = Some e" "Material t ?v = Material t v" for v e
    using that by (metis fmdomI)
  have im: "Material t ` (fset (fmdom m) - {?v}) = Material t ` fset (fmdom m) - {Material t ?v}" using ne by auto
  show ?thesis
  proof (cases "dl_Op d = OpRemove")
    case True
    then show ?thesis using x r c im by (auto simp: mirrors_def mirror_rec_def apply_delta_def dest!: eq)
  next
    case False
    then show ?thesis using x r c op by (auto simp: mirrors_def mirror_rec_def apply_delta_def delta_entry_def dest: eq)
  qed
qed

lemma touched_dom: "fset (fmdom (apply_delta d m)) \<subseteq> insert (r_Value (dl_Rec d)) (fset (fmdom m))"
  by (auto simp: apply_delta_def)

lemma replay_touched: "fset (fmdom (replay ds m)) \<subseteq> fset (fmdom m) \<union> touched ds"
  using touched_dom by (induction ds arbitrary: m) fastforce+

lemma mirror_changes:
  assumes "\<forall>d\<in>set ds. typed_change s d" and "text_hashed (s_Def s)" and "d_Type (s_Def s) = t"
    and h: "h_Type h = PackType t" "h_Flags h = PackFlags t"
    and "mirrors t m x" and "inj_on (Material t) (fset (fmdom m) \<union> touched ds)"
  shows "mirrors t (replay ds m) (fold (mirror_rec (h_Type h)) (map (unpacked h) (map (delta_record t) ds)) x)"
  using assms(1,6,7)
proof (induction ds arbitrary: m x)
  case (Cons d ds)
  let ?r = "unpacked h (delta_record t d)"
  have "mirrors t (apply_delta d m) (mirror_rec (h_Type h) ?r x)"
  proof (rule mirror_change [OF Cons.prems(2)])
    show "inj_on (Material t) (insert (r_Value (dl_Rec d)) (fset (fmdom m)))" by (rule inj_on_subset [OF Cons.prems(3)]) auto
    show "PackRecord_Material (h_Type h) ?r = Material t (r_Value (dl_Rec d))"
      by (rule delta_record_material [OF _ assms(2,3) h(1)]) (use Cons.prems(1) in simp)
    show "dl_Op d = OpAdd \<or> dl_Op d = OpRemove" using Cons.prems(1) by (simp add: typed_change_def)
    show "k_Op ?r = (if dl_Op d = OpRemove then RecRemove else RecAdd)" "k_Exp ?r = r_Exp (dl_Rec d)"
      "k_Reason ?r = (if t = TypeCIDR then [] else r_Reason (dl_Rec d))"
      using h by (auto simp: unpacked_def delta_record_def RecordOf_def PackType_def PackFlags_def has_reasons_def pack_consts)
  qed
  moreover have "inj_on (Material t) (fset (fmdom (apply_delta d m)) \<union> touched ds)"
    by (rule inj_on_subset [OF Cons.prems(3)]) (use touched_dom [of d m] in auto)
  ultimately show ?case using Cons.IH [of "apply_delta d m"] Cons.prems(1) by simp
qed simp

lemma mirrors_hash:
  assumes "mirrors t m x" and "hash_map s m" and "d_Type (s_Def s) = t" and "inj_on (Material t) (fset (fmdom m))"
  shows "mirror_hash (s_key s) x = hsum m"
proof -
  have "xor_sum.F (SipHashBytes (s_key s)) (Material t ` fset (fmdom m)) = xor_sum.F (\<lambda>v. SipHashBytes (s_key s) (Material t v)) (fset (fmdom m))"
    using xor_sum.reindex [OF assms(4)] by (simp add: comp_def)
  also have "\<dots> = xor_sum.F (\<lambda>v. e_hash (the (fmlookup m v))) (fset (fmdom m))"
    by (rule xor_sum.cong) (use assms(2,3) in \<open>auto simp: hash_map_def HashValue_def elim!: fmdomE\<close>)
  finally show ?thesis using assms(1) by (simp add: mirrors_def mirror_hash_def hsum_def xor_over_def)
qed

section \<open>Packages\<close>

lemma mirror_package:
  assumes "wire_batch b" and "(b_pkgKey b, b_pkg b) = keeper_pack s (b_plan b)" and key: "length (s_key s) = 16"
    and typed: "\<forall>d\<in>set (pl_Deltas (b_plan b)). typed_change s d" "typed_entries s m" and th: "text_hashed (s_Def s)"
    and hash: "pl_Hash (b_plan b) = hsum (replay (pl_Deltas (b_plan b)) m)"
    and x: "mirrors (d_Type (s_Def s)) m x"
    and inj: "inj_on (Material (d_Type (s_Def s))) (fset (fmdom m) \<union> touched (pl_Deltas (b_plan b)))"
  shows "\<exists>x'. mirror_pkg (b_pkg b) x = Some x' \<and> mirrors (d_Type (s_Def s)) (replay (pl_Deltas (b_plan b)) m) x'"
proof -
  let ?t = "d_Type (s_Def s)" and ?ds = "pl_Deltas (b_plan b)"
  let ?h = "\<lparr>h_Kind = KindPackage, h_Type = PackType ?t, h_Flags = PackFlags ?t, h_Epoch = s_epoch s,
     h_Seq = pl_Seq (b_plan b), h_Hash = pl_Hash (b_plan b), h_Key = s_key s, h_Count = 0\<rparr>"
  let ?x = "fold (mirror_rec (h_Type ?h)) (map (unpacked ?h) (map (delta_record ?t) ?ds)) x"
  have pkg: "b_pkg b = Pack ?h (map (delta_record ?t) ?ds)"
    using assms(2) by (simp add: keeper_pack_def Let_def delta_record_def [abs_def])
  have h: "pack_typed ?h" "h_Kind ?h \<noteq> KindSnapshot"
    using key by (simp_all add: PackType_def pack_typed_def pack_consts)
  have "fits ?h (delta_record ?t d)" if "d \<in> set ?ds" for d
    using assms(1) that typed(1) delta_record_prefix(2) [OF _ th, of d] typed_change_length [of s d]
    by (auto simp: wire_batch_def wire_delta_def fits_def wire_prefix_def plain_prefix_def PackType_def delta_record_def RecordOf_def pack_consts)
  then have "\<forall>r\<in>set (map (delta_record ?t) ?ds). fits ?h r" by auto
  from Unpack_Pack_order [OF h(1) this] have u: "Unpack (b_pkg b)
      = Inr (?h\<lparr>h_Count := word_of_nat (length ?ds)\<rparr>, map (unpacked ?h) (map (delta_record ?t) ?ds))"
    using assms(1) h(2) by (simp add: pkg wire_batch_def pack_order_def)
  have m': "mirrors ?t (replay ?ds m) ?x" by (rule mirror_changes [OF typed(1) th refl _ _ x inj]) simp_all
  have "hash_map s (replay ?ds m)" using replay_typed [OF typed(2,1)] th by (simp add: typed_entries_def)
  from mirrors_hash [OF m' this refl] have "mirror_hash (s_key s) ?x = pl_Hash (b_plan b)"
    using hash inj_on_subset [OF inj replay_touched] by simp
  then show ?thesis using u m' by (simp add: mirror_pkg_def)
qed

lemma mirror_log:
  assumes "\<forall>b\<in>set bs. wire_batch b \<and> (b_pkgKey b, b_pkg b) = keeper_pack s (b_plan b)" and key: "length (s_key s) = 16"
    and "\<forall>d\<in>set (log_deltas bs). typed_change s d" and "typed_entries s m" and th: "text_hashed (s_Def s)"
    and "log_ok m q bs" and "mirrors (d_Type (s_Def s)) m x"
    and "inj_on (Material (d_Type (s_Def s))) (fset (fmdom m) \<union> touched (log_deltas bs))"
  shows "\<exists>x'. mirror_run (map b_pkg bs) x = Some x' \<and> mirrors (d_Type (s_Def s)) (replay (log_deltas bs) m) x'"
  using assms(1,3,4,6-8)
proof (induction bs arbitrary: m q x)
  case (Cons b bs)
  let ?ds = "pl_Deltas (b_plan b)"
  have "inj_on (Material (d_Type (s_Def s))) (fset (fmdom m) \<union> touched ?ds)"
    by (rule inj_on_subset [OF Cons.prems(6)]) auto
  then obtain x' where x': "mirror_pkg (b_pkg b) x = Some x'" "mirrors (d_Type (s_Def s)) (replay ?ds m) x'"
    using mirror_package [of b s m x] Cons.prems key th by auto
  have "inj_on (Material (d_Type (s_Def s))) (fset (fmdom (replay ?ds m)) \<union> touched (log_deltas bs))"
    by (rule inj_on_subset [OF Cons.prems(6)]) (use replay_touched [of ?ds m] in auto)
  moreover have "typed_entries s (replay ?ds m)" using replay_typed [OF Cons.prems(3)] Cons.prems(2) by simp
  ultimately show ?case using Cons.IH [OF _ _ _ _ x'(2), of "q + 1"] Cons.prems x'(1) by simp
qed simp

lemma typed_materials:
  assumes "\<forall>v\<in>V. typed_value d v" and "text_hashed d" and "d_Type d = TypeCIDR \<Longrightarrow> \<forall>v\<in>V. \<not> mapped_text v"
  shows "inj_on (Material (d_Type d)) V"
proof (cases "d_Type d = TypeCIDR")
  case True
  then show ?thesis
    using assms Material_inj [of TypeCIDR] by (auto simp: inj_on_def typed_value_def text_hashed_def)
qed (simp add: inj_on_def Material_def)

section \<open>Property\<close>

text \<open>
  C3: Mirrors converge. A mirror that has the content at some point, decodes the packages published since and
  applies them in order, checking the hash after each one, never finds a wrong hash and ends with exactly the
  committed values with their expiries, and reasons in string sets, and with the hash of the keeper; and a package
  that rides inside its frame is, after base64, the package itself. This holds for all sets but CIDR sets with
  \<open>Def.Hash\<close>, for CIDR sets without prefixes of IPv4-mapped addresses. The records must fit the format: reasons
  below 64 KiB, fewer than 2^32 of them.
\<close>

theorem mirror_converges:
  assumes "pipe_reach st opts (sys_init s r) y" and "inflight s []" and "depth_ok opts"
    and "typed_entries s (s_entries s)" and "text_hashed (s_Def s)"
    and "length (s_key s) = 16" and "\<forall>b\<in>set (y_log y). wire_batch b"
    and "d_Type (s_Def s) = TypeCIDR \<longrightarrow> (\<forall>v\<in>fset (fmdom (s_entries s)) \<union> touched (log_deltas (y_log y)). \<not> mapped_text v)"
    and "mirrors (d_Type (s_Def s)) (s_entries s) x"
  shows "(\<exists>x'. mirror_run (map b_pkg (y_log y)) x = Some x' \<and> mirrors (d_Type (s_Def s)) (s_entries (y_s y)) x'
        \<and> mirror_hash (s_key s) x' = s_hash (y_s y))
    \<and> (\<forall>i<length (y_log y). f_Inline (diffs (y_h y) ! i) \<noteq> [] \<longrightarrow> b64_decode (f_Inline (diffs (y_h y) ! i)) = Some (b_pkg (y_log y ! i)))"
proof -
  let ?V = "fset (fmdom (s_entries s)) \<union> touched (log_deltas (y_log y))"
  have log: "log_inv opts s y" by (rule pipe_reach_log [OF assms(1-3)])
  have changes: "\<forall>d\<in>set (log_deltas (y_log y)). typed_change s d" by (rule typed.pipe_reach_deltas [OF assms(1-4)])
  have e: "s_entries (y_s y) = replay (log_deltas (y_log y)) (s_entries s)" using log by (simp add: log_inv_def)
  have inj: "inj_on (Material (d_Type (s_Def s))) ?V"
    by (rule typed_materials) (use assms(4,5,8) changes in \<open>auto simp: typed_entries_def typed_change_def touched_def\<close>)
  obtain x' where x': "mirror_run (map b_pkg (y_log y)) x = Some x'" "mirrors (d_Type (s_Def s)) (s_entries (y_s y)) x'"
    using mirror_log [OF _ assms(6) changes assms(4,5) _ assms(9) inj, of "s_seq s"] log assms(7) by (auto simp: log_inv_def e)
  have "hash_map s (s_entries (y_s y))"
    using typed.pipe_reach_property [OF assms(1-4)] assms(5) by (simp add: typed_entries_def)
  from mirrors_hash [OF x'(2) this refl] have "mirror_hash (s_key s) x' = hsum (s_entries (y_s y))"
    using inj_on_subset [OF inj replay_touched] by (simp add: e)
  moreover have "s_hash (y_s y) = hsum (s_entries (y_s y))"
    using pipe_invD(1) [OF pipe_reach_inv [OF assms(1-3)]] by (simp add: inflight_def)
  moreover have d: "diffs (y_h y) = map (frame_of opts (s_epoch s) (s_Def s)) (y_log y)" using log by (simp add: log_inv_def)
  ultimately show ?thesis using x' by (auto simp: d frame_of_def diff_frame_def b64_decode_encode split: if_splits)
qed

theorem mirror_converges_witness:
  "\<exists>y x'. demo_reach demo_store [] y \<and> length (y_log y) = 1
     \<and> mirror_run (map b_pkg (y_log y)) fmempty = Some x' \<and> mirrors TypeString (s_entries (y_s y)) x'"
proof -
  obtain y b where y: "demo_reach demo_store [] y" "y_log y = [b]" "b_plan b = snd demo_planned" using demo_trace by blast
  have "wire_batch b"
    unfolding wire_batch_def y(3) demo_planned_def demo_plan Let_def
    by (simp add: wire_delta_def demo_add_def int64_range_def)
  moreover have "length (s_key demo_set) = 16" by (simp add: demo_set_def set_New_def)
  moreover have "typed_entries demo_set (s_entries demo_set)" by (simp add: typed_entries_def hash_map_def)
  moreover have "text_hashed (s_Def demo_set)" "d_Type (s_Def demo_set) = TypeString" "s_entries demo_set = fmempty"
    by (simp_all add: demo_def_def text_hashed_def)
  ultimately have "\<exists>x'. mirror_run (map b_pkg (y_log y)) fmempty = Some x' \<and> mirrors TypeString (s_entries (y_s y)) x'"
    using mirror_converges [OF y(1) demo_inflight demo_depth, of fmempty] y(2) by (auto simp: mirrors_empty)
  then show ?thesis using y by auto
qed

section \<open>Snapshots\<close>

text \<open>A mirror without content takes a snapshot like a package.\<close>

lemma mirror_adds:
  assumes "\<forall>r\<in>set rs. k_Op r \<noteq> RecRemove \<and> f (PackRecord_Material pt r) = (k_Exp r, k_Reason r)"
  shows "fmlookup (fold (mirror_rec pt) rs x) k = (if k \<in> PackRecord_Material pt ` set rs then Some (f k) else fmlookup x k)"
  using assms by (induction rs arbitrary: x) (auto simp: mirror_rec_def)

definition entry_rec :: "string \<Rightarrow> entry \<Rightarrow> rec" where
  "entry_rec v e = \<lparr>r_Value = v, r_Exp = e_Exp e, r_Origin = e_Origin e, r_Reason = e_Reason e, r_Prefix = zero_prefix\<rparr>"

lemma set_Snapshot_recs:
  assumes "map_order (s_entries s) order"
  shows "set_Snapshot s order = (s_epoch s, s_seq s, s_hash s, s_key s, map (\<lambda>v. entry_rec v (the (fmlookup (s_entries s) v))) order)"
proof -
  have "concat (map (\<lambda>v. case fmlookup (s_entries s) v of None \<Rightarrow> [] | Some e \<Rightarrow> [\<lparr>r_Value = v, r_Exp = e_Exp e,
      r_Origin = e_Origin e, r_Reason = e_Reason e, r_Prefix = zero_prefix\<rparr>]) vs) = map (\<lambda>v. entry_rec v (the (fmlookup (s_entries s) v))) vs"
    if "set vs \<subseteq> fset (fmdom (s_entries s))" for vs
    using that by (induction vs) (auto simp: entry_rec_def split: option.splits elim!: fmdomE)
  then show ?thesis using assms by (simp add: set_Snapshot_def map_order_def)
qed

definition wire_entries :: "entries \<Rightarrow> bool" where
  "wire_entries m \<longleftrightarrow> map_len m < 2 ^ 32
     \<and> (\<forall>v e. fmlookup m v = Some e \<longrightarrow> int64_range (e_Exp e) \<and> length (e_Reason e) < 2 ^ 16)"

lemma entry_rec_typed:
  assumes "typed_entries s m" and "text_hashed (s_Def s)" and "fmlookup m v = Some e"
  shows "typed_change s \<lparr>dl_Op = OpAdd, dl_Rec = entry_rec v e, dl_hash = e_hash e\<rparr>"
  using assms by (auto simp: typed_change_def typed_entries_def prefix_agrees_def entry_rec_def hash_map_def zero_prefix_def
      prefix_IsValid_def intro: fmdomI)

text \<open>The records of a snapshot, as additions.\<close>

definition entry_add :: "entries \<Rightarrow> string \<Rightarrow> delta" where
  "entry_add m v = (let e = the (fmlookup m v) in \<lparr>dl_Op = OpAdd, dl_Rec = entry_rec v e, dl_hash = e_hash e\<rparr>)"

lemma entry_add_record:
  "delta_record t (entry_add m v) = RecordOf t RecAdd (entry_rec v (the (fmlookup m v)))"
  "r_Value (dl_Rec (entry_add m v)) = v"
  by (simp_all add: delta_record_def entry_add_def entry_rec_def Let_def)

lemma entry_add_typed:
  "typed_entries s m \<Longrightarrow> text_hashed (s_Def s) \<Longrightarrow> v \<in> fset (fmdom m) \<Longrightarrow> typed_change s (entry_add m v)"
  using entry_rec_typed by (force simp: entry_add_def Let_def fmlookup_dom_iff)

lemma entry_add_fits:
  assumes "typed_entries s m" and "text_hashed (s_Def s)" and "wire_entries m" and "v \<in> fset (fmdom m)"
    and "h_Type h = PackType (d_Type (s_Def s))"
  shows "fits h (delta_record (d_Type (s_Def s)) (entry_add m v))"
proof -
  note tc = entry_add_typed [OF assms(1,2,4)]
  obtain e where "fmlookup m v = Some e" using assms(4) fmdomE by metis
  then show ?thesis
    using assms(3,5) delta_record_prefix(2) [OF tc assms(2)] typed_change_length [OF tc]
    by (auto simp: wire_entries_def fits_def wire_prefix_def plain_prefix_def PackType_def delta_record_def RecordOf_def
        pack_consts entry_add_def entry_rec_def)
qed

lemma snapshot_unpacks:
  assumes "typed_entries s m" and "text_hashed (s_Def s)" and "length (s_key s) = 16" and "wire_entries m" and "map_order m order"
    and "h_Type h = PackType (d_Type (s_Def s))" and "h_Key h = s_key s"
    and "rs = map (\<lambda>v. delta_record (d_Type (s_Def s)) (entry_add m v)) order"
  shows "Unpack (Pack h rs) = Inr (h\<lparr>h_Count := word_of_nat (length rs)\<rparr>, map (unpacked h) (pack_order h rs))"
proof -
  have "\<forall>r\<in>set rs. fits h r" using entry_add_fits [OF assms(1,2,4) _ assms(6)] assms(5,8) by (auto simp: map_order_def)
  moreover have "length rs < 2 ^ 32"
    using assms(4,5,8) distinct_card [of order] by (auto simp: wire_entries_def map_order_def fcard.rep_eq)
  moreover have "pack_typed h" using assms(3,6,7) by (simp add: PackType_def pack_typed_def)
  ultimately show ?thesis using Unpack_Pack_order [of h rs] by simp
qed

lemma mirror_entries:
  assumes typed: "typed_entries s m" and th: "text_hashed (s_Def s)" and t: "d_Type (s_Def s) = t"
    and inj: "inj_on (Material t) (fset (fmdom m))" and h: "h_Type h = PackType t" "h_Flags h = PackFlags t"
    and L: "set rs = (\<lambda>v. unpacked h (delta_record t (entry_add m v))) ` fset (fmdom m)"
  shows "mirrors t m (fold (mirror_rec (h_Type h)) rs fmempty)"
proof -
  let ?V = "fset (fmdom m)" and ?x = "fold (mirror_rec (h_Type h)) rs fmempty"
  let ?f = "\<lambda>k. let e = the (fmlookup m (inv_into ?V (Material t) k)) in (e_Exp e, if t = TypeCIDR then [] else e_Reason e)"
  have k: "PackRecord_Material (h_Type h) (unpacked h (delta_record t (entry_add m v))) = Material t v" if "v \<in> ?V" for v
    using delta_record_material [OF entry_add_typed [OF typed th that] th t h(1)] by (simp add: entry_add_record)
  have "k_Op r \<noteq> RecRemove \<and> ?f (PackRecord_Material (h_Type h) r) = (k_Exp r, k_Reason r)" if r: "r \<in> set rs" for r
  proof -
    obtain v where v: "v \<in> ?V" "r = unpacked h (delta_record t (entry_add m v))"
      using r L by blast
    then show ?thesis
      using k [OF v(1)] inv_into_f_f [OF inj v(1)] h
      by (auto simp: Let_def unpacked_def entry_add_record RecordOf_def PackType_def PackFlags_def has_reasons_def
          entry_rec_def pack_consts)
  qed
  then have lk: "fmlookup ?x a = (if a \<in> PackRecord_Material (h_Type h) ` set rs then Some (?f a) else None)" for a
    using mirror_adds [of rs ?f "h_Type h" fmempty a] by simp
  have keys: "PackRecord_Material (h_Type h) ` set rs = Material t ` ?V" using k unfolding L image_image by (auto intro!: image_cong)
  show ?thesis unfolding mirrors_def
  proof (intro conjI allI impI)
    show "fset (fmdom ?x) = Material t ` ?V" using lk keys by (auto simp: set_eq_iff fmlookup_dom_iff split: if_splits)
    fix v e assume e: "fmlookup m v = Some e"
    then have v: "v \<in> ?V" by (auto intro: fmdomI)
    then show "fmlookup ?x (Material t v) = Some (e_Exp e, if t = TypeCIDR then [] else e_Reason e)"
      unfolding lk keys using e inv_into_f_f [OF inj v] by simp
  qed
qed

lemma mirror_snapshot:
  assumes typed: "typed_entries s m" and th: "text_hashed (s_Def s)" and "length (s_key s) = 16"
    and hash: "h_Hash h = hsum m" and "wire_entries m" and ord: "map_order m order"
    and inj: "inj_on (Material (d_Type (s_Def s))) (fset (fmdom m))"
    and h: "h_Type h = PackType (d_Type (s_Def s))" "h_Flags h = PackFlags (d_Type (s_Def s))" "h_Key h = s_key s"
  shows "\<exists>x. mirror_pkg (Pack h (map (RecordOf (d_Type (s_Def s)) RecAdd) (map (\<lambda>v. entry_rec v (the (fmlookup m v))) order))) fmempty = Some x
    \<and> mirrors (d_Type (s_Def s)) m x \<and> mirror_hash (s_key s) x = hsum m"
proof -
  let ?t = "d_Type (s_Def s)"
  define rs where "rs = map (\<lambda>v. delta_record ?t (entry_add m v)) order"
  have r: "map (RecordOf ?t RecAdd) (map (\<lambda>v. entry_rec v (the (fmlookup m v))) order) = rs"
    by (simp add: rs_def entry_add_record)
  note u = snapshot_unpacks [OF assms(1-3,5) ord h(1,3) rs_def]
  let ?x = "fold (mirror_rec (h_Type h)) (map (unpacked h) (pack_order h rs)) fmempty"
  have x: "mirrors ?t m ?x"
    by (rule mirror_entries [OF typed th refl inj h(1,2)]) (use ord in \<open>auto simp: rs_def map_order_def\<close>)
  have "hash_map s m" using typed th by (simp add: typed_entries_def)
  from mirrors_hash [OF x this refl inj] show ?thesis
    unfolding r using u x hash h by (intro exI [of _ ?x]) (simp add: mirror_pkg_def)
qed

text \<open>
  C4: A snapshot starts a mirror. For a set that a holder has reached from canonical values, the object that \<open>packSnapshot\<close>
  puts into the store, whatever the order in which the entries were read, is accepted by a mirror without content:
  the hash of the header fits, and the mirror has exactly the committed values with their expiries, and reasons in string sets. The reference that is handed out has the key of
  that object, the sequence number and hash it was taken at and the number of its records. So the packages published after
  that number are the ones to continue with. As for the packages, this holds for all sets but CIDR sets with \<open>Def.Hash\<close>, whose
  records carry an invalid prefix (\<open>hashed_cidr_loses_prefix\<close> in \<open>Corners\<close>), for CIDR sets without prefixes of IPv4-mapped addresses
  (\<open>mapped_prefix_same_material\<close>), and for entries that fit the format: reasons below 64 KiB, expiries in 64 bits, fewer than 2^32 records.
\<close>

theorem snapshot_starts_mirror:
  assumes "pipe_reach st opts (sys_init s r) y" and "inflight s []" and "depth_ok opts"
    and "typed_entries s (s_entries s)" and "text_hashed (s_Def s)" and "length (s_key s) = 16"
    and "wire_entries (s_entries (y_s y))" and "map_order (s_entries (y_s y)) order"
    and "d_Type (s_Def s) = TypeCIDR \<longrightarrow> (\<forall>v\<in>fset (fmdom (s_entries (y_s y))). \<not> mapped_text v)"
    and "packSnapshot st opts order at (y_s y) r' = (r'', Some sn)"
  shows "\<exists>data x. st_Put st (n_key sn) data (o_SnapshotTTL opts) r' = (r'', True)
    \<and> mirror_pkg data fmempty = Some x \<and> mirrors (d_Type (s_Def s)) (s_entries (y_s y)) x
    \<and> mirror_hash (s_key s) x = n_hash sn \<and> n_seq sn = s_seq (y_s y) \<and> n_count sn = map_len (s_entries (y_s y))"
proof -
  let ?m = "s_entries (y_s y)" and ?t = "d_Type (s_Def s)"
  have same: "s_Def (y_s y) = s_Def s" "s_key (y_s y) = s_key s" using pipe_reach_log [OF assms(1-3)] by (simp_all add: log_inv_def)
  have typed: "typed_entries s ?m" using typed.pipe_reach_property [OF assms(1-4)] by simp
  have hash: "s_hash (y_s y) = hsum ?m" using pipe_invD(1) [OF pipe_reach_inv [OF assms(1-3)]] by (simp add: inflight_def)
  have inj: "inj_on (Material ?t) (fset (fmdom ?m))"
    by (rule typed_materials) (use typed assms(5,9) in \<open>auto simp: typed_entries_def\<close>)
  let ?h = "\<lparr>h_Kind = KindSnapshot, h_Type = PackType ?t, h_Flags = PackFlags ?t, h_Epoch = s_epoch (y_s y),
    h_Seq = s_seq (y_s y), h_Hash = s_hash (y_s y), h_Key = s_key s, h_Count = 0\<rparr>"
  let ?data = "Pack ?h (map (RecordOf ?t RecAdd) (map (\<lambda>v. entry_rec v (the (fmlookup ?m v))) order))"
  have len: "int (length order) = map_len ?m"
    using assms(8) distinct_card [of order] by (simp add: map_order_def fcard.rep_eq)
  have sn: "st_Put st (n_key sn) ?data (o_SnapshotTTL opts) r' = (r'', True)" "n_hash sn = s_hash (y_s y)"
      "n_seq sn = s_seq (y_s y)" "n_count sn = map_len ?m"
    using assms(10) len
    by (auto simp: packSnapshot_def set_Snapshot_recs [OF assms(8)] same Let_def split: prod.splits if_splits)
  obtain x where "mirror_pkg ?data fmempty = Some x" "mirrors ?t ?m x" "mirror_hash (s_key s) x = hsum ?m"
    using mirror_snapshot [OF typed assms(5,6) _ assms(7,8) inj, of ?h] hash by auto
  then show ?thesis using sn hash by (intro exI [of _ ?data] exI [of _ x]) simp
qed

theorem snapshot_starts_mirror_witness:
  "\<exists>y (sn :: snapObj) data x. demo_reach demo_store [] y \<and> length (y_log y) = 1 \<and> n_count sn = 1
     \<and> mirror_pkg data fmempty = Some x \<and> mirrors TypeString (s_entries (y_s y)) x \<and> mirror_hash (s_key demo_set) x = n_hash sn"
proof -
  obtain y b where y: "demo_reach demo_store [] y" "y_log y = [b]" "b_plan b = snd demo_planned" using demo_trace by blast
  have "s_entries (y_s y) = replay (pl_Deltas (snd demo_planned)) fmempty"
    using pipe_reach_log [OF y(1) demo_inflight demo_depth] y(2,3) by (simp add: log_inv_def)
  then obtain e where m: "s_entries (y_s y) = fmupd ''a'' e fmempty" "e_Exp e = 1000" "e_Reason e = ''abuse''"
    unfolding demo_planned_def demo_plan Let_def by (simp add: demo_add_def apply_delta_def delta_entry_def)
  have w: "wire_entries (s_entries (y_s y))" "map_order (s_entries (y_s y)) [''a'']" "map_len (s_entries (y_s y)) = 1"
    using m by (auto simp: wire_entries_def map_order_def int64_range_def fcard.rep_eq split: if_splits)
  obtain sn where sn: "packSnapshot demo_store demo_opts [''a''] 0 (y_s y) [] = ([], Some sn)"
    by (simp add: packSnapshot_def demo_store_def set_Snapshot_def Let_def)
  have "typed_entries demo_set (s_entries demo_set)" "text_hashed (s_Def demo_set)" "length (s_key demo_set) = 16"
    "d_Type (s_Def demo_set) = TypeString"
    by (simp_all add: typed_entries_def hash_map_def text_hashed_def demo_def_def demo_set_def set_New_def)
  with snapshot_starts_mirror [OF y(1) demo_inflight demo_depth _ _ _ w(1,2) _ sn] w(3)
  obtain data x where "mirror_pkg data fmempty = Some x" "mirrors TypeString (s_entries (y_s y)) x"
    "mirror_hash (s_key demo_set) x = n_hash sn" "n_count sn = 1" by auto
  then show ?thesis using y by (intro exI [of _ y] exI [of _ sn] exI [of _ data] exI [of _ x]) simp
qed

end
