(* ===== verification/Replace.thy ===== *)
theory Replace
  imports KeeperProps
begin

text \<open>
  Replacing a mounted set: \<open>mount\<close> of a definition whose set is running (\<open>src/internal/keeper/keeper.go\<close>) with its
  steps interleaved with those of the old holder, and the end of the old holder, \<open>shutdown\<close>. The old holder
  works on while the stored state is loaded and reset; only then its \<open>stop\<close> channel is closed, and \<open>mount\<close> waits for
  planner and committer to return.
\<close>

section \<open>States and steps\<close>

text \<open>
  Where \<open>mount\<close> stands: before \<open>Load\<close>, before \<open>Reset\<close> with the new set and whether records are kept, before the new
  holder enters the map, before the old one is told to stop, waiting for it, and the two ends.
\<close>

datatype mount_phase =
    MLoad
  | MReset sset bool
  | MSwap sset
  | MClose sset
  | MStopping sset
  | MDone holder
  | MFailed

text \<open>\<open>x_old\<close> is the old holder with its goroutines and the store; the flags tell which of them have returned.\<close>

record 'r swap =
  x_old :: "'r sys"
  x_phase :: mount_phase
  x_planner :: bool
  x_committer :: bool

definition swap_init :: "'r sys \<Rightarrow> 'r swap" where
  "swap_init y = \<lparr>x_old = y, x_phase = MLoad, x_planner = False, x_committer = False\<rparr>"

text \<open>
  A planner that has returned takes no step, nor does a committer that has returned. Once \<open>stop\<close> is closed, a
  planner that is sending may drop its batch, and both may return from the \<open>select\<close> of their loops.
\<close>

inductive swap_step ::
  "'r store \<Rightarrow> options \<Rightarrow> set_def \<Rightarrow> bool \<Rightarrow> newset \<times> newset \<Rightarrow> 'r swap \<Rightarrow> 'r swap \<Rightarrow> bool"
  for st opts d fresh w where
  Old:
    "pipe_step st opts (x_old x) y' \<Longrightarrow>
     (x_planner x \<longrightarrow> y_planner y' = y_planner (x_old x)) \<Longrightarrow>
     (x_committer x \<longrightarrow> y_com y' = y_com (x_old x) \<and> length (h_batches (y_h (x_old x))) \<le> length (h_batches (y_h y'))) \<Longrightarrow>
     swap_step st opts d fresh w x (x\<lparr>x_old := y'\<rparr>)"
| Load:
    "x_phase x = MLoad \<Longrightarrow> st_Load st (d_Name d) (y_store (x_old x)) = Some out \<Longrightarrow>
     mount_set d fresh out (fst w) (snd w) = (s, keep) \<Longrightarrow>
     swap_step st opts d fresh w x (x\<lparr>x_phase := MReset s keep\<rparr>)"
| LoadFails:
    "x_phase x = MLoad \<Longrightarrow> st_Load st (d_Name d) (y_store (x_old x)) = None \<Longrightarrow>
     swap_step st opts d fresh w x (x\<lparr>x_phase := MFailed\<rparr>)"
| Reset:
    "x_phase x = MReset s keep \<Longrightarrow> st_Reset st (d_Name d) (meta_of d s) keep (y_store (x_old x)) = (r', True) \<Longrightarrow>
     swap_step st opts d fresh w x (x\<lparr>x_old := (x_old x)\<lparr>y_store := r'\<rparr>, x_phase := MSwap s\<rparr>)"
| ResetFails:
    "x_phase x = MReset s keep \<Longrightarrow> st_Reset st (d_Name d) (meta_of d s) keep (y_store (x_old x)) = (r', False) \<Longrightarrow>
     swap_step st opts d fresh w x (x\<lparr>x_old := (x_old x)\<lparr>y_store := r'\<rparr>, x_phase := MFailed\<rparr>)"
| Swap:
    "x_phase x = MSwap s \<Longrightarrow> swap_step st opts d fresh w x (x\<lparr>x_phase := MClose s\<rparr>)"
| Close:
    "x_phase x = MClose s \<Longrightarrow> swap_step st opts d fresh w x (x\<lparr>x_phase := MStopping s\<rparr>)"
| DropBatch:
    "x_phase x = MStopping s \<Longrightarrow> y_planner (x_old x) = PSend b rest \<Longrightarrow>
     swap_step st opts d fresh w x (x\<lparr>x_old := (x_old x)\<lparr>y_h := send_batch False b (y_h (x_old x)), y_planner := PSweep rest\<rparr>\<rparr>)"
| PlannerEnds:
    "x_phase x = MStopping s \<Longrightarrow> y_planner (x_old x) = PIdle \<Longrightarrow> swap_step st opts d fresh w x (x\<lparr>x_planner := True\<rparr>)"
| CommitterEnds:
    "x_phase x = MStopping s \<Longrightarrow> y_com (x_old x) = None \<Longrightarrow> swap_step st opts d fresh w x (x\<lparr>x_committer := True\<rparr>)"
| Done:
    "x_phase x = MStopping s \<Longrightarrow> x_planner x \<Longrightarrow> x_committer x \<Longrightarrow>
     swap_step st opts d fresh w x (x\<lparr>x_phase := MDone (publishTick (new_holder s))\<rparr>)"

abbreviation swap_reach ::
  "'r store \<Rightarrow> options \<Rightarrow> set_def \<Rightarrow> bool \<Rightarrow> newset \<times> newset \<Rightarrow> 'r swap \<Rightarrow> 'r swap \<Rightarrow> bool" where
  "swap_reach st opts d fresh w \<equiv> (swap_step st opts d fresh w)\<^sup>*\<^sup>*"

section \<open>Batches are never empty\<close>

definition full_batches :: "'r sys \<Rightarrow> bool" where
  "full_batches y \<longleftrightarrow> (\<forall>b\<in>set (outstanding y). pl_Deltas (b_plan b) \<noteq> [])"

lemma full_batches_mono: "full_batches y \<Longrightarrow> set (outstanding y') \<subseteq> set (outstanding y) \<Longrightarrow> full_batches y'"
  by (auto simp: full_batches_def)

lemma full_batches_step:
  assumes "pipe_step st opts y y'" and ok: "full_batches y"
  shows "full_batches y'"
  using assms(1)
proof cases
  case (Submit ev now w sel deadline h' reply)
  with submit_queue_frame [OF Submit(4)] show ?thesis by (intro full_batches_mono [OF ok]) (auto simp: outstanding_def)
next
  case (Finish now e js c clean rest h' b)
  obtain s' p results where d: "decide js c (y_s y) = (s', p, results)" by (cases "decide js c (y_s y)") auto
  show ?thesis using Finish ok plan_finish_split [OF Finish(3) d]
    by (auto simp: full_batches_def outstanding_def split: option.splits if_splits)
next
  case (Stored b r' ms h')
  then show ?thesis using commit_stored_ok [OF Stored(4)] by (intro full_batches_mono [OF ok]) (auto simp: outstanding_def)
next
  case (Failed b r' ms h')
  then show ?thesis using commit_stored_fail [OF Failed(4)] by (intro full_batches_mono [OF ok]) (auto simp: outstanding_def)
next
  case (Snapshot order name now at h' r' f)
  with holder_Snapshot_frame [OF Snapshot(3)] show ?thesis by (intro full_batches_mono [OF ok]) (auto simp: outstanding_def)
qed (intro full_batches_mono [OF ok]; auto simp: outstanding_def)+

lemma full_batches_reach: "pipe_reach st opts (sys_init s r) y \<Longrightarrow> full_batches y"
proof (induction rule: rtranclp_induct)
  case base
  show ?case by (simp add: full_batches_def outstanding_def sys_init_def new_holder_def)
qed (rule full_batches_step)

lemma commit_total: "pl_Deltas (b_plan b) \<noteq> [] \<Longrightarrow> \<exists>h'. commit_stored opts b ok ms h = Some h'"
  by (auto simp: commit_stored_def set_Commit_def Let_def)

text \<open>What holds while the old holder ends: a goroutine has returned only after \<open>stop\<close> was closed, from its loop.\<close>

definition swap_inv :: "'r swap \<Rightarrow> bool" where
  "swap_inv x \<longleftrightarrow> full_batches (x_old x)
     \<and> (x_planner x \<longrightarrow> y_planner (x_old x) = PIdle) \<and> (x_committer x \<longrightarrow> y_com (x_old x) = None)"

lemma swap_inv_step: "swap_step st opts d fresh w x x' \<Longrightarrow> swap_inv x \<Longrightarrow> swap_inv x'"
proof (induction rule: swap_step.induct)
  case (Old x y')
  then show ?case using full_batches_step by (auto simp: swap_inv_def)
qed (auto simp: swap_inv_def full_batches_def outstanding_def send_batch_def)

lemma swap_reach_inv: "swap_reach st opts d fresh w (swap_init y) x \<Longrightarrow> full_batches y \<Longrightarrow> swap_inv x"
proof (induction rule: rtranclp_induct)
  case base
  then show ?case by (simp add: swap_inv_def swap_init_def)
qed (blast intro: swap_inv_step)

section \<open>The old holder can always end\<close>

text \<open>How many steps the planner is away from its loop, at most.\<close>

fun planner_rest :: "planner \<Rightarrow> nat" where
  "planner_rest PIdle = 0"
| "planner_rest (PGather js n) = 4 + length js"
| "planner_rest (PSweep rest) = 1 + 5 * length rest"
| "planner_rest (PCollect now e js todo c clean rest) = 3 + length todo + 5 * length rest"
| "planner_rest (PSend b rest) = 2 + 5 * length rest"

definition same_end :: "'r swap \<Rightarrow> 'r swap \<Rightarrow> bool" where
  "same_end x x' \<longleftrightarrow> x_phase x' = x_phase x \<and> x_planner x' = x_planner x \<and> x_committer x' = x_committer x"

lemma swap_planner:
  assumes "pipe_step st opts (x_old x) y'" and "\<not> x_planner x" and "y_com y' = y_com (x_old x)"
    and "h_batches (y_h y') = h_batches (y_h (x_old x))"
    and "planner_rest (y_planner y') < planner_rest (y_planner (x_old x))"
  shows "\<exists>x'. swap_step st opts d fresh w x x' \<and> same_end x x'
    \<and> planner_rest (y_planner (x_old x')) < planner_rest (y_planner (x_old x))"
  by (rule exI [of _ "x\<lparr>x_old := y'\<rparr>"]) (use assms in \<open>auto simp: same_end_def intro!: swap_step.Old\<close>)

lemma planner_progress:
  assumes ph: "x_phase x = MStopping s" and p: "\<not> x_planner x" and n: "y_planner (x_old x) \<noteq> PIdle"
  shows "\<exists>x'. swap_step st opts d fresh w x x' \<and> same_end x x'
    \<and> planner_rest (y_planner (x_old x')) < planner_rest (y_planner (x_old x))"
proof (cases "y_planner (x_old x)")
  case (PGather js n)
  show ?thesis by (rule swap_planner [OF pipe_step.GatherEnd [OF PGather] p]) (simp_all add: start_collect_def PGather)
next
  case (PSweep rest)
  show ?thesis
  proof (cases rest)
    case Nil
    show ?thesis by (rule swap_planner [OF pipe_step.SweepEnd [OF PSweep [unfolded Nil]] p]) (simp_all add: PSweep)
  next
    case (Cons v vs)
    show ?thesis
      by (rule swap_planner [OF pipe_step.SweepNext [OF PSweep [unfolded Cons]] p]) (simp_all add: start_collect_def PSweep Cons)
  qed
next
  case (PCollect now e js todo c clean rest)
  show ?thesis
  proof (cases todo)
    case Nil
    obtain h' b where f: "plan_finish now e js c (y_h (x_old x)) = (h', b)" by (cases "plan_finish now e js c (y_h (x_old x))") auto
    obtain s' q results where d: "decide js c (y_s (x_old x)) = (s', q, results)" by (cases "decide js c (y_s (x_old x))") auto
    show ?thesis
      by (rule swap_planner [OF pipe_step.Finish [OF PCollect [unfolded Nil] f] p])
        (use plan_finish_split [OF f d] in \<open>simp_all add: PCollect Nil split: option.splits\<close>)
  next
    case (Cons j js')
    show ?thesis by (rule swap_planner [OF pipe_step.Collect [OF PCollect [unfolded Cons]] p]) (simp_all add: PCollect Cons)
  qed
next
  case (PSend b rest)
  show ?thesis
    by (rule exI, rule conjI, rule swap_step.DropBatch [OF ph PSend]) (simp add: same_end_def PSend)
qed (use n in simp)

lemma planner_ends:
  assumes "x_phase x = MStopping s" and "swap_inv x"
  shows "\<exists>x'. swap_reach st opts d fresh w x x' \<and> x_phase x' = MStopping s \<and> x_planner x' \<and> x_committer x' = x_committer x"
  using assms
proof (induction "planner_rest (y_planner (x_old x))" arbitrary: x rule: less_induct)
  case less
  show ?case
  proof (cases "x_planner x")
    case True
    then show ?thesis using less.prems by blast
  next
    case p: False
    show ?thesis
    proof (cases "y_planner (x_old x) = PIdle")
      case True
      have "swap_step st opts d fresh w x (x\<lparr>x_planner := True\<rparr>)" by (rule swap_step.PlannerEnds [OF less.prems(1) True])
      then show ?thesis using less.prems by (intro exI [of _ "x\<lparr>x_planner := True\<rparr>"]) auto
    next
      case False
      obtain x1 where x1: "swap_step st opts d fresh w x x1" "same_end x x1"
        "planner_rest (y_planner (x_old x1)) < planner_rest (y_planner (x_old x))"
        using planner_progress [OF less.prems(1) p False] by blast
      have "swap_inv x1" by (rule swap_inv_step [OF x1(1) less.prems(2)])
      with less.hyps [OF x1(3)] x1(2) less.prems(1) obtain x2 where
        "swap_reach st opts d fresh w x1 x2" "x_phase x2 = MStopping s" "x_planner x2" "x_committer x2 = x_committer x"
        by (auto simp: same_end_def)
      then show ?thesis using converse_rtranclp_into_rtranclp [where r = "swap_step st opts d fresh w", OF x1(1)] by blast
    qed
  qed
qed

text \<open>The committer finishes the batch it has, whether the store takes it or not.\<close>

lemma commit_returns:
  assumes "y_com y = Some b" and "pl_Deltas (b_plan b) \<noteq> []"
  shows "\<exists>y'. pipe_step st opts y y' \<and> y_com y' = None \<and> (y_planner y = PIdle \<longrightarrow> y_planner y' = PIdle)"
proof -
  obtain r' ok where tx: "st_Commit st (d_Name (h_Def (y_h y))) (pl_Deltas (b_plan b)) (pl_Seq (b_plan b)) (pl_Hash (b_plan b))
      (b_pkgKey b) (b_pkg b) (o_DiffTTL opts) (y_store y) = (r', ok)" by fastforce
  obtain h' where c: "commit_stored opts b ok 0 (y_h y) = Some h'" using commit_total [OF assms(2)] by blast
  show ?thesis
  proof (cases ok)
    case True
    then have t: "st_Commit st (d_Name (h_Def (y_h y))) (pl_Deltas (b_plan b)) (pl_Seq (b_plan b)) (pl_Hash (b_plan b))
      (b_pkgKey b) (b_pkg b) (o_DiffTTL opts) (y_store y) = (r', True)" "commit_stored opts b True 0 (y_h y) = Some h'"
      using tx c by simp_all
    show ?thesis by (rule exI, rule conjI, rule pipe_step.Stored [OF assms(1) t]) simp
  next
    case False
    then have f: "st_Commit st (d_Name (h_Def (y_h y))) (pl_Deltas (b_plan b)) (pl_Seq (b_plan b)) (pl_Hash (b_plan b))
      (b_pkgKey b) (b_pkg b) (o_DiffTTL opts) (y_store y) = (r', False)" "commit_stored opts b False 0 (y_h y) = Some h'"
      using tx c by simp_all
    show ?thesis by (rule exI, rule conjI, rule pipe_step.Failed [OF assms(1) f]) simp
  qed
qed

lemma committer_ends:
  assumes ph: "x_phase x = MStopping s" and inv: "swap_inv x"
  shows "\<exists>x'. swap_reach st opts d fresh w x x' \<and> x_phase x' = MStopping s \<and> x_committer x' \<and> x_planner x' = x_planner x"
proof (cases "y_com (x_old x)")
  case None
  have "swap_step st opts d fresh w x (x\<lparr>x_committer := True\<rparr>)" by (rule swap_step.CommitterEnds [OF ph None])
  then show ?thesis using ph by (intro exI [of _ "x\<lparr>x_committer := True\<rparr>"]) auto
next
  case (Some b)
  have "pl_Deltas (b_plan b) \<noteq> []" using inv Some by (simp add: swap_inv_def full_batches_def outstanding_def)
  from commit_returns [OF Some this] obtain y' where y': "pipe_step st opts (x_old x) y'" "y_com y' = None"
    "y_planner (x_old x) = PIdle \<longrightarrow> y_planner y' = PIdle" by blast
  let ?x = "x\<lparr>x_old := y'\<rparr>"
  have one: "swap_step st opts d fresh w x ?x"
    by (rule swap_step.Old [OF y'(1)]) (use y'(3) inv Some in \<open>auto simp: swap_inv_def\<close>)
  have two: "swap_step st opts d fresh w ?x (?x\<lparr>x_committer := True\<rparr>)"
    by (rule swap_step.CommitterEnds [of _ s]) (use ph y'(2) in simp_all)
  show ?thesis using rtranclp.rtrancl_into_rtrancl [OF r_into_rtranclp [of "swap_step st opts d fresh w", OF one] two] ph
    by (intro exI [of _ "?x\<lparr>x_committer := True\<rparr>"]) auto
qed

lemma stopping_completes:
  assumes "x_phase x = MStopping s" and "swap_inv x"
  shows "\<exists>x'. swap_reach st opts d fresh w x x' \<and> x_phase x' = MDone (publishTick (new_holder s))"
proof -
  let ?R = "swap_reach st opts d fresh w"
  obtain x1 where x1: "?R x x1" "x_phase x1 = MStopping s" "x_planner x1" using planner_ends [OF assms] by blast
  have "swap_inv x1" using x1(1) assms(2) by (induction rule: rtranclp_induct) (auto intro: swap_inv_step)
  then obtain x2 where x2: "?R x1 x2" "x_phase x2 = MStopping s" "x_committer x2" "x_planner x2"
    using committer_ends [OF x1(2)] x1(3) by blast
  have "swap_step st opts d fresh w x2 (x2\<lparr>x_phase := MDone (publishTick (new_holder s))\<rparr>)"
    by (rule swap_step.Done [OF x2(2,4,3)])
  then have "?R x (x2\<lparr>x_phase := MDone (publishTick (new_holder s))\<rparr>)" using x1(1) x2(1) by (meson rtranclp.rtrancl_into_rtrancl rtranclp_trans)
  then show ?thesis by (intro exI [of _ "x2\<lparr>x_phase := MDone (publishTick (new_holder s))\<rparr>"]) simp
qed

section \<open>What the new holder has\<close>

lemma pipe_step_log:
  "pipe_step st opts y y' \<Longrightarrow> (y_log y' = y_log y \<or> length (y_log y) < length (y_log y')) \<and> (y_failed y \<longrightarrow> y_failed y')"
  by (induction rule: pipe_step.induct) auto

lemma snapshot_holds:
  assumes "redis_holds api view r n m c" and "holder_Snapshot (redis_store api) opts name order now at h r = (h', r', f)"
  shows "redis_holds api view r' n m c"
proof (cases "r' = r")
  case False
  then obtain key data ttl ok where put: "st_Put (redis_store api) key data ttl r = (r', ok)"
    and key: "key = SnapKey (d_Name (h_Def h)) (s_epoch (h_s h)) (s_seq (h_s h))"
    using assms(2)
    by (auto simp: holder_Snapshot_def packSnapshot_def set_Snapshot_def Let_def split: prod.splits if_splits option.splits)
  show ?thesis by (rule redis.put_holds [OF assms(1) put [unfolded key]])
qed (use assms in simp)

lemma quiet_holds:
  assumes "pipe_step (redis_store api) opts y y'" and "y_log y' = y_log y" and "\<not> y_failed y'"
    and "redis_holds api view (y_store y) n m c"
  shows "redis_holds api view (y_store y') n m c"
  using assms(1)
proof cases
  case (Snapshot order name now at h' r' f)
  then show ?thesis using snapshot_holds [OF assms(4)] by simp
qed (use assms in auto)

text \<open>
  The contract of one replacement: the set before it, the new definition under the same name, and what a new set takes from
  outside. The stored records are kept when the definition is still of the same set and type.
\<close>

definition replaces_def :: "sset \<Rightarrow> set_def \<Rightarrow> newset \<times> newset \<Rightarrow> bool" where
  "replaces_def s0 d w \<longleftrightarrow> d_Name d = d_Name (s_Def s0)
     \<and> int64_range (d_Type d) \<and> length (w_key (fst w)) = 16 \<and> length (w_key (snd w)) = 16"

definition same_set :: "sset \<Rightarrow> set_def \<Rightarrow> bool" where
  "same_set s0 d \<longleftrightarrow> d_ID d = d_ID (s_Def s0) \<and> d_Type d = d_Type (s_Def s0)"

definition kept_content :: "sset \<Rightarrow> set_def \<Rightarrow> content" where
  "kept_content s0 d = (if same_set s0 d then content (s_entries s0) else fmempty)"

definition takes_over :: "sset \<Rightarrow> set_def \<Rightarrow> sset \<Rightarrow> bool" where
  "takes_over s0 d s \<longleftrightarrow> s_Def s = d \<and> content (s_entries s) = kept_content s0 d \<and> length (s_key s) = 16"

definition swap_holds :: "'r redis_api \<Rightarrow> ('r \<Rightarrow> redis_db) \<Rightarrow> sset \<Rightarrow> set_def \<Rightarrow> 'r swap \<Rightarrow> bool" where
  "swap_holds api view s0 d x \<longleftrightarrow>
     (case x_phase x of
        MLoad \<Rightarrow> settled api view s0 (y_store (x_old x))
      | MReset s keep \<Rightarrow> settled api view s0 (y_store (x_old x)) \<and> takes_over s0 d s \<and> keep = same_set s0 d
      | MSwap s \<Rightarrow> settled api view s (y_store (x_old x)) \<and> takes_over s0 d s
      | MClose s \<Rightarrow> settled api view s (y_store (x_old x)) \<and> takes_over s0 d s
      | MStopping s \<Rightarrow> settled api view s (y_store (x_old x)) \<and> takes_over s0 d s
      | MDone h \<Rightarrow> settled api view (h_s h) (y_store (x_old x)) \<and> takes_over s0 d (h_s h)
      | MFailed \<Rightarrow> True)"

lemma load_takes_over:
  assumes "replaces_def s0 d w" and "settled api view s0 r" and l: "state_Load api (d_Name d) r = Some out"
    and m: "mount_set d fresh out (fst w) (snd w) = (s, keep)"
  shows "takes_over s0 d s \<and> keep = same_set s0 d"
proof -
  let ?m = "meta_of (s_Def s0) s0"
  have "st_Load (redis_store api) (d_Name (s_Def s0)) r = Some out" using l assms(1) by (simp add: redis_store_def replaces_def_def)
  from redis.load_holds [OF assms(2) [unfolded settled_def] this] obtain recs where out: "out = (Some ?m, recs, False)"
    and recs: "distinct (map r_Value recs)" "fmap_of_list (map (\<lambda>q. (r_Value q, (r_Exp q, r_Origin q, r_Reason q))) recs) = content (s_entries s0)"
    by blast
  have "meta_matches d (Some ?m) = same_set s0 d" by (auto simp: meta_matches_def meta_of_def same_set_def)
  then have keep: "keep = same_set s0 d" using mount_set_keep [of d fresh "Some ?m" recs False "fst w" "snd w"] m out by simp
  moreover have "content (s_entries s) = kept_content s0 d"
    using mount_set_content [of d fresh "Some ?m" recs False "fst w" "snd w"] m out keep rec_content_list [OF recs(1)] recs(2)
    by (simp add: kept_content_def)
  moreover have "s_Def s = d" using mount_set_def_of [of d fresh out "fst w" "snd w"] m by simp
  moreover have "length (s_key s) = 16"
    using mount_set_key [of "Some ?m" "fst w" "snd w" d fresh recs False] state_Load_key [of api "d_Name d" r ?m recs False]
      l m out assms(1) by (simp add: replaces_def_def)
  ultimately show ?thesis by (simp add: takes_over_def)
qed

lemma swap_holds_step:
  assumes "swap_step (redis_store api) opts d fresh w x x'" and r: "replaces_def s0 d w" and "swap_holds api view s0 d x"
    and "y_log (x_old x') = y_log (x_old x)" and "\<not> y_failed (x_old x')"
  shows "swap_holds api view s0 d x'"
  using assms(1)
proof cases
  case (Old y')
  then have "redis_holds api view (y_store (x_old x)) n m c \<Longrightarrow> redis_holds api view (y_store y') n m c" for n m c
    using quiet_holds [OF Old(2)] assms(4,5) by simp
  then show ?thesis using Old assms(3) by (auto simp: swap_holds_def settled_def split: mount_phase.splits)
next
  case (Load out s keep)
  have "settled api view s0 (y_store (x_old x))" using assms(3) Load by (simp add: swap_holds_def)
  then show ?thesis using Load load_takes_over [OF r, of api view "y_store (x_old x)" out fresh s keep]
    by (simp add: swap_holds_def redis_store_def)
next
  case (Reset s keep r')
  have s: "settled api view s0 (y_store (x_old x))" "takes_over s0 d s" "keep = same_set s0 d"
    using assms(3) Reset by (simp_all add: swap_holds_def)
  have "meta_ok (meta_of d s)" using s(2) r unfolding meta_ok_def meta_of_def takes_over_def replaces_def_def by auto
  then have "settled api view s r'"
    using redis.reset_holds [OF s(1) [unfolded settled_def], of "meta_of d s" keep r'] Reset(3) s r
    by (simp add: settled_def takes_over_def replaces_def_def kept_content_def)
  then show ?thesis using Reset s by (simp add: swap_holds_def)
qed (use assms(3) in \<open>auto simp: swap_holds_def new_holder_def publishTick_def Let_def\<close>)

lemma swap_step_log:
  "swap_step st opts d fresh w x x' \<Longrightarrow>
   (y_log (x_old x') = y_log (x_old x) \<or> length (y_log (x_old x)) < length (y_log (x_old x')))
   \<and> (y_failed (x_old x) \<longrightarrow> y_failed (x_old x'))"
  by (induction rule: swap_step.induct) (auto dest: pipe_step_log)

lemma quiet_swap_holds:
  assumes "swap_reach (redis_store api) opts d fresh w (swap_init y) x" and "replaces_def (y_s y) d w"
    and "settled api view (y_s y) (y_store y)"
  shows "length (y_log y) \<le> length (y_log (x_old x))
    \<and> (y_log (x_old x) = y_log y \<longrightarrow> \<not> y_failed (x_old x) \<longrightarrow> swap_holds api view (y_s y) d x)"
  using assms(1)
proof (induction rule: rtranclp_induct)
  case base
  then show ?case using assms(3) by (simp add: swap_holds_def swap_init_def)
next
  case (step x z)
  show ?case
    using step.IH swap_step_log [OF step.hyps(2)] swap_holds_step [OF step.hyps(2) assms(2)] by (metis leD le_trans less_imp_le)
qed

section \<open>A replacement of the demonstration set\<close>

lemma swap_old:
  assumes "pipe_reach st opts (x_old x) y" and "\<not> x_planner x" and "\<not> x_committer x"
  shows "swap_reach st opts d fresh w x (x\<lparr>x_old := y\<rparr>)"
  using assms(1)
proof (induction rule: rtranclp_induct)
  case (step y z)
  have "swap_step st opts d fresh w (x\<lparr>x_old := y\<rparr>) (x\<lparr>x_old := y\<rparr>\<lparr>x_old := z\<rparr>)"
    by (rule swap_step.Old) (use step assms(2,3) in simp_all)
  then show ?case using step.IH by (simp add: rtranclp.rtrancl_into_rtrancl)
qed simp

lemma swap_to_stop:
  assumes "x_phase x = MReset s keep" and "st_Reset st (d_Name d) (meta_of d s) keep (y_store (x_old x)) = (r', True)"
  shows "swap_reach st opts d fresh w x (x\<lparr>x_old := (x_old x)\<lparr>y_store := r'\<rparr>, x_phase := MStopping s\<rparr>)"
proof -
  let ?R = "swap_step st opts d fresh w"
  let ?x1 = "x\<lparr>x_old := (x_old x)\<lparr>y_store := r'\<rparr>, x_phase := MSwap s\<rparr>"
  have "?R x ?x1" by (rule swap_step.Reset [OF assms])
  moreover have "?R ?x1 (?x1\<lparr>x_phase := MClose s\<rparr>)" by (rule swap_step.Swap) simp
  moreover have "?R (?x1\<lparr>x_phase := MClose s\<rparr>) (?x1\<lparr>x_phase := MClose s\<rparr>\<lparr>x_phase := MStopping s\<rparr>)" by (rule swap_step.Close) simp
  ultimately show ?thesis by (simp add: rtranclp.rtrancl_into_rtrancl r_into_rtranclp)
qed

lemma demo_reset: "\<exists>r'. st_Reset (redis_store demo_redis) n m keep r = (r', True)"
  by (simp add: redis_store_def state_Reset_def demo_redis_def)

lemma demo_replaces: "replaces_def demo_set (demo_def TypeString 2) demo_new"
  by (simp add: replaces_def_def demo_new_def demo_def_def int64_range_def TypeString_def)

text \<open>
  \<open>mount\<close> loads the stored state of the empty set; then the old holder takes any of its runs, and only after that its
  \<open>stop\<close> channel is closed.
\<close>

lemma demo_stopping:
  assumes run: "demo_reach (redis_store demo_redis) demo_start y"
  obtains s r' where "takes_over demo_set (demo_def TypeString 2) s"
    and "swap_reach (redis_store demo_redis) demo_opts (demo_def TypeString 2) True demo_new
      (swap_init (sys_init demo_set demo_start))
      \<lparr>x_old = y\<lparr>y_store := r'\<rparr>, x_phase = MStopping s, x_planner = False, x_committer = False\<rparr>"
proof -
  let ?d = "demo_def TypeString 2" and ?x = "swap_init (sys_init demo_set demo_start)"
  let ?R = "swap_reach (redis_store demo_redis) demo_opts ?d True demo_new"
  obtain out where l: "state_Load demo_redis (d_Name ?d) demo_start = Some out" using demo_redis_Load by blast
  obtain s keep where m: "mount_set ?d True out (fst demo_new) (snd demo_new) = (s, keep)" by fastforce
  have t: "takes_over demo_set ?d s \<and> keep = same_set demo_set ?d" by (rule load_takes_over [OF demo_replaces demo_settled l m])
  let ?x1 = "?x\<lparr>x_phase := MReset s keep\<rparr>"
  have "swap_step (redis_store demo_redis) demo_opts ?d True demo_new ?x ?x1"
    by (rule swap_step.Load [of _ _ _ out]) (use l m in \<open>simp_all add: swap_init_def sys_init_def redis_store_def\<close>)
  then have one: "?R ?x ?x1" by (rule r_into_rtranclp)
  have two: "?R ?x1 (?x1\<lparr>x_old := y\<rparr>)" by (rule swap_old) (use run in \<open>simp_all add: swap_init_def\<close>)
  obtain r' where r': "st_Reset (redis_store demo_redis) (d_Name ?d) (meta_of ?d s) keep (y_store y) = (r', True)"
    using demo_reset by blast
  have "?R (?x1\<lparr>x_old := y\<rparr>) (?x1\<lparr>x_old := y\<rparr>\<lparr>x_old := y\<lparr>y_store := r'\<rparr>, x_phase := MStopping s\<rparr>)"
    using swap_to_stop [of "?x1\<lparr>x_old := y\<rparr>" s keep "redis_store demo_redis" ?d r'] r' by simp
  then have "?R ?x \<lparr>x_old = y\<lparr>y_store := r'\<rparr>, x_phase = MStopping s, x_planner = False, x_committer = False\<rparr>"
    using rtranclp_trans [OF rtranclp_trans [OF one two]] by (simp add: swap_init_def)
  then show thesis using t by (intro that) auto
qed

text \<open>An idle holder ends at once.\<close>

lemma idle_ends:
  assumes "y_planner y = PIdle" and "y_com y = None"
  shows "swap_reach st opts d fresh w \<lparr>x_old = y, x_phase = MStopping s, x_planner = False, x_committer = False\<rparr>
    \<lparr>x_old = y, x_phase = MDone (publishTick (new_holder s)), x_planner = True, x_committer = True\<rparr>"
proof -
  let ?R = "swap_step st opts d fresh w"
  let ?x = "\<lambda>ph p c. \<lparr>x_old = y, x_phase = ph, x_planner = p, x_committer = c\<rparr>"
  have "?R (?x (MStopping s) False False) (?x (MStopping s) True False)"
    using swap_step.PlannerEnds [of "?x (MStopping s) False False" s] assms by simp
  moreover have "?R (?x (MStopping s) True False) (?x (MStopping s) True True)"
    using swap_step.CommitterEnds [of "?x (MStopping s) True False" s] assms by simp
  moreover have "?R (?x (MStopping s) True True) (?x (MDone (publishTick (new_holder s))) True True)"
    using swap_step.Done [of "?x (MStopping s) True True" s] by simp
  ultimately show ?thesis by (meson converse_rtranclp_into_rtranclp r_into_rtranclp)
qed

section \<open>Properties\<close>

text \<open>
  C20: Replacing a set never hangs. Whatever the old holder was doing when \<open>mount\<close> closed its \<open>stop\<close> channel (gathering,
  sweeping, collecting, waiting to send to a committer that is gone, waiting for the store), its planner and
  committer can return, so that \<open>shutdown\<close> ends and the new holder is started; and the committer never
  dereferences a nil change on the way, also after batches were dropped.
\<close>

theorem shutdown_completes:
  assumes "pipe_reach st opts (sys_init s0 r) y" and "swap_reach st opts d fresh w (swap_init y) x"
    and "x_phase x = MStopping s"
  shows "(\<exists>x'. swap_reach st opts d fresh w x x' \<and> x_phase x' = MDone (publishTick (new_holder s)))
    \<and> (\<forall>b ok ms. y_com (x_old x) = Some b \<longrightarrow> commit_stored opts b ok ms (y_h (x_old x)) \<noteq> None)"
proof -
  have inv: "swap_inv x" by (rule swap_reach_inv [OF assms(2) full_batches_reach [OF assms(1)]])
  moreover have "pl_Deltas (b_plan b) \<noteq> []" if "y_com (x_old x) = Some b" for b
    using inv that by (simp add: swap_inv_def full_batches_def outstanding_def)
  ultimately show ?thesis using stopping_completes [OF assms(3)] commit_total by (metis option.distinct(1))
qed

theorem shutdown_completes_witness:
  "\<exists>s x'. swap_reach (redis_store demo_redis) demo_opts (demo_def TypeString 2) True demo_new
     (swap_init (sys_init demo_set demo_start)) x' \<and> x_phase x' = MDone (publishTick (new_holder s))"
proof -
  obtain s r' where s: "swap_reach (redis_store demo_redis) demo_opts (demo_def TypeString 2) True demo_new
      (swap_init (sys_init demo_set demo_start))
      \<lparr>x_old = (sys_init demo_set demo_start)\<lparr>y_store := r'\<rparr>, x_phase = MStopping s, x_planner = False, x_committer = False\<rparr>"
    using demo_stopping [OF rtranclp.rtrancl_refl] by blast
  from shutdown_completes [OF rtranclp.rtrancl_refl s, of s] show ?thesis using rtranclp_trans [OF s] by (simp; blast)
qed

text \<open>
  C19: What a replacement keeps. If stored state and old holder agreed when \<open>mount\<close> began, and the old holder neither committed
  a batch nor failed to until it ended, then the new holder has the new definition; it has exactly the
  values of the old one when that definition has the identifier and the type of the old one, and is empty
  when one of them differs, where \<open>mount\<close> drops what is stored. Redis holds the meta and the content of the new holder either way. Planned but
  uncommitted batches, snapshots, new jobs and ticks of the old holder in between do not matter. What a commit in between
  does is the run of \<open>replace_loses_write\<close> in \<open>Corners\<close>.
\<close>

theorem replace_keeps_content:
  assumes "swap_reach (redis_store api) opts d fresh w (swap_init y) x" and "replaces_def (y_s y) d w"
    and "settled api view (y_s y) (y_store y)" and "x_phase x = MDone h"
    and "y_log (x_old x) = y_log y" and "\<not> y_failed (x_old x)"
  shows "h_Def h = d
    \<and> content (s_entries (h_s h)) = (if d_ID d = d_ID (s_Def (y_s y)) \<and> d_Type d = d_Type (s_Def (y_s y))
         then content (s_entries (y_s y)) else fmempty)
    \<and> settled api view (h_s h) (y_store (x_old x))"
  using quiet_swap_holds [OF assms(1-3)] assms(4-6) by (simp add: swap_holds_def takes_over_def kept_content_def same_set_def)

theorem replace_keeps_content_witness:
  "\<exists>x h. swap_reach (redis_store demo_redis) demo_opts (demo_def TypeString 2) True demo_new
       (swap_init (sys_init demo_set demo_start)) x
     \<and> x_phase x = MDone h \<and> settled demo_redis id (h_s h) (y_store (x_old x))"
proof -
  let ?y = "sys_init demo_set demo_start"
  let ?R = "swap_reach (redis_store demo_redis) demo_opts (demo_def TypeString 2) True demo_new"
  obtain s r' where s: "?R (swap_init ?y)
      \<lparr>x_old = ?y\<lparr>y_store := r'\<rparr>, x_phase = MStopping s, x_planner = False, x_committer = False\<rparr>"
    using demo_stopping [OF rtranclp.rtrancl_refl] by blast
  let ?x = "\<lparr>x_old = ?y\<lparr>y_store := r'\<rparr>, x_phase = MDone (publishTick (new_holder s)), x_planner = True, x_committer = True\<rparr>"
  have x: "?R (swap_init ?y) ?x" by (rule rtranclp_trans [OF s idle_ends]) (simp_all add: sys_init_def)
  have "settled demo_redis id (h_s (publishTick (new_holder s))) (y_store (x_old ?x))"
    using replace_keeps_content [OF x, of id] demo_replaces demo_settled by (simp add: sys_init_def new_holder_def)
  then show ?thesis using x by (intro exI [of _ ?x]) auto
qed

end
