(* ===== verification/BusText.thy ===== *)
theory BusText
  imports ServiceProps PipelineProps
begin

text \<open>
  Requests and frames as bytes on the bus: an event that a client encodes reaches \<open>Submit\<close> as it was and the reply
  decodes to the answer, and every frame a holder publishes decodes to itself.
\<close>

section \<open>Texts the keeper makes are valid\<close>

lemma utf8_valid_append3: "utf8_valid a \<Longrightarrow> utf8_valid b \<Longrightarrow> utf8_valid c \<Longrightarrow> utf8_valid (a @ b @ c)"
  by (intro utf8_valid_append)

lemma digit_char_ascii: "d < 16 \<Longrightarrow> byte_val (digit_char d) < 128"
  by (rule digit_char_cases [of d]) (simp_all add: digit_char_def)

lemma nat_digits_valid: "2 \<le> base \<Longrightarrow> base \<le> 16 \<Longrightarrow> list_all (\<lambda>c. byte_val c < 128) (nat_digits base n)"
  using nat_digits_chars [of base _ n] digit_char_ascii by (fastforce simp: list_all_iff)

lemma Hex_valid [simp]: "utf8_valid (Hex w)"
  using nat_digits_valid [of 16 "unat w"] by (intro ascii_valid) (auto simp: Hex_def Let_def list_all_iff)

lemma FormatUint_valid [simp]: "utf8_valid (FormatUint w)"
  unfolding FormatUint_def by (intro ascii_valid nat_digits_valid) simp_all

lemma b64_char_ascii: "i < 64 \<Longrightarrow> byte_val (b64_char i) < 128"
proof -
  assume "i < 64"
  moreover have "list_all (\<lambda>c. byte_val c < 128) b64_alphabet" by (simp add: b64_alphabet_def)
  ultimately show ?thesis by (simp add: b64_char_def b64_table(2) list_all_length)
qed

lemma b64_encode_valid [simp]: "utf8_valid (b64_encode bs)"
proof (rule ascii_valid)
  show "list_all (\<lambda>c. byte_val c < 128) (b64_encode bs)"
    by (induction bs rule: b64_encode.induct) (simp_all add: b64_char_ascii b64_parts b64_index)
qed

lemma DiffKey_valid: "utf8_valid name \<Longrightarrow> utf8_valid (DiffKey name seq)"
  unfolding DiffKey_def by (intro utf8_valid_append) (simp_all add: ascii_valid)

lemma op_valid [simp]: "utf8_valid OpDiff" "utf8_valid OpTick"
  by (simp_all add: OpDiff_def OpTick_def ascii_valid)

section \<open>Published frames\<close>

definition tick_frame :: "set_def \<Rightarrow> u64 \<Rightarrow> u64 \<Rightarrow> u64 \<Rightarrow> frame" where
  "tick_frame d epoch seq hash =
     zero_frame\<lparr>f_V := V3, f_Set := d_Name d, f_Epoch := Hex epoch, f_Seq := seq, f_Op := OpTick, f_Hash := Hex hash\<rparr>"

definition published_inv :: "set_def \<Rightarrow> 'r sys \<Rightarrow> bool" where
  "published_inv d y \<longleftrightarrow> (\<forall>f\<in>set (h_published (y_h y)). f_Op f = OpDiff \<or> (\<exists>e q x. f = tick_frame d e q x))"

lemma publishTick_adds:
  "h_published (publishTick h) = h_published h @ [tick_frame (s_Def (h_s h)) (s_epoch (h_s h)) (s_seq (h_s h)) (s_hash (h_s h))]"
  by (simp add: publishTick_def tick_frame_def Let_def)

lemma published_inv_step:
  assumes "pipe_step st opts y y'" and inv: "pipe_inv opts y" and log: "log_inv opts s0 y" and pub: "published_inv (s_Def s0) y"
  shows "published_inv (s_Def s0) y'"
  using assms(1)
proof cases
  case (Submit ev now w sel deadline h' reply)
  with submit_queue_frame [OF Submit(4)] pub show ?thesis by (simp add: published_inv_def)
next
  case (Finish now e js c clean rest h' b)
  obtain s' p results where d: "decide js c (y_s y) = (s', p, results)" by (cases "decide js c (y_s y)") auto
  with plan_finish_split [OF Finish(3) d] Finish pub show ?thesis by (auto simp: published_inv_def)
next
  case (Stored b r' ms h')
  with commit_stored_ok [OF Stored(4)] pub show ?thesis by (auto simp: published_inv_def)
next
  case (Failed b r' ms h')
  with commit_stored_fail [OF Failed(4)] pub show ?thesis by (auto simp: published_inv_def)
next
  case Tick
  moreover have "s_Def (y_s y) = s_Def s0" using log by (simp add: log_inv_def)
  ultimately show ?thesis using pub by (fastforce simp: published_inv_def publishTick_adds)
next
  case (Snapshot order name now at h' r' f)
  with holder_Snapshot_frame [OF Snapshot(3)] pub show ?thesis by (simp add: published_inv_def)
qed (use pub in \<open>auto simp: published_inv_def\<close>)

interpretation pipe_pub: step_invariant_under "pipe_step st opts"
  "\<lambda>y. (depth_ok opts \<and> pipe_inv opts y) \<and> log_inv opts s0 y" "published_inv (s_Def s0)"
  for st opts s0
  by unfold_locales (auto intro: log_inv_step published_inv_step pipe_step_inv)

lemma pipe_reach_published:
  assumes "pipe_reach st opts (sys_init s r) y" and "inflight s []" and "depth_ok opts"
  shows "published_inv (s_Def s) y"
  using pipe_pub.reach_keeps_under [OF assms(1)] sys_init_inv [OF assms(2), of opts r] log_inv_init [OF assms(2), of opts r]
    assms(3) by (simp add: depth_ok_def published_inv_def sys_init_def new_holder_def)

lemma tick_frame_ok: "utf8_valid (d_Name d) \<Longrightarrow> message_ok (MFrame (tick_frame d e q x))"
  by (simp add: tick_frame_def zero_frame_def frame_values_def goval_ok_def V3_def int64_range_def)

lemma frame_of_ok:
  assumes "utf8_valid (d_Name d)" and "length (pl_Deltas (b_plan b)) < 2 ^ 63" and "b_pkgKey b = DiffKey (d_Name d) q"
  shows "message_ok (MFrame (frame_of opts e d b))"
  using assms DiffKey_valid [OF assms(1)]
  by (simp add: frame_of_def diff_frame_def zero_frame_def frame_values_def goval_ok_def V3_def int64_range_def)

lemma wire_Unmarshal_frame: "wire_Unmarshal (MFrame g) data = wire_Unmarshal (MFrame f) data"
  by (simp add: wire_Unmarshal_def frame_values_def)

lemma wire_Unmarshal_event: "wire_Unmarshal (MEvent g) data = wire_Unmarshal (MEvent f) data"
  by (simp add: wire_Unmarshal_def event_values_def)

lemma wire_Unmarshal_event_reply: "wire_Unmarshal (MEventReply g) data = wire_Unmarshal (MEventReply f) data"
  by (simp add: wire_Unmarshal_def event_reply_values_def)

text \<open>
  C5: Published frames arrive as they were. In every reachable state, each frame the holder has published, diff or tick,
  goes out under the subject of its set, and a receiver that decodes the bytes gets exactly that frame. The name of the
  set must be valid UTF-8 and a batch must count its changes in 63 bits.
\<close>

theorem published_bytes_decode:
  assumes "pipe_reach st opts (sys_init s r) y" and "inflight s []" and "depth_ok opts"
    and "utf8_valid (d_Name (s_Def s))" and "\<forall>b\<in>set (y_log y). length (pl_Deltas (b_plan b)) < 2 ^ 63"
  shows "\<forall>f\<in>set (h_published (y_h y)).
    fst (bus_Publish (f_Set f) (wire_Encode (MFrame f))) = bus_prefix @ d_Name (s_Def s)
    \<and> wire_Unmarshal (MFrame zero_frame) (snd (bus_Publish (f_Set f) (wire_Encode (MFrame f)))) = (MFrame f, True)"
proof
  fix f assume f: "f \<in> set (h_published (y_h y))"
  have log: "log_inv opts s y" by (rule pipe_reach_log [OF assms(1-3)])
  have "message_ok (MFrame f) \<and> f_Set f = d_Name (s_Def s)"
  proof (cases "f_Op f = OpDiff")
    case True
    have "diffs (y_h y) = map (frame_of opts (s_epoch s) (s_Def s)) (y_log y)" using log by (simp add: log_inv_def)
    moreover have "f \<in> set (diffs (y_h y))" using True f by simp
    ultimately obtain b where b: "b \<in> set (y_log y)" "f = frame_of opts (s_epoch s) (s_Def s) b" by auto
    then have "(b_pkgKey b, b_pkg b) = keeper_pack s (b_plan b)" using log by (auto simp: log_inv_def)
    then have "b_pkgKey b = DiffKey (d_Name (s_Def s)) (pl_Seq (b_plan b))" by (auto simp: keeper_pack_def Let_def)
    with b assms(4,5) show ?thesis by (simp add: frame_of_ok del: message_ok.simps) (simp add: frame_of_def diff_frame_def)
  next
    case False
    then obtain e q x where "f = tick_frame (s_Def s) e q x"
      using pipe_reach_published [OF assms(1-3)] f by (auto simp: published_inv_def)
    then show ?thesis using tick_frame_ok [OF assms(4)] by (simp add: tick_frame_def del: message_ok.simps)
  qed
  then show "fst (bus_Publish (f_Set f) (wire_Encode (MFrame f))) = bus_prefix @ d_Name (s_Def s)
    \<and> wire_Unmarshal (MFrame zero_frame) (snd (bus_Publish (f_Set f) (wire_Encode (MFrame f)))) = (MFrame f, True)"
    using wire_Unmarshal_Encode [of "MFrame f"] wire_Unmarshal_frame [of zero_frame _ f] by (simp add: bus_Publish_def)
qed

theorem published_bytes_decode_witness:
  "\<exists>y f. demo_reach demo_store [] y \<and> f \<in> set (h_published (y_h y)) \<and> f_Op f = OpDiff
     \<and> wire_Unmarshal (MFrame zero_frame) (wire_Encode (MFrame f)) = (MFrame f, True)"
proof -
  obtain y b where y: "demo_reach demo_store [] y" "y_log y = [b]" "b_plan b = snd demo_planned" using demo_trace by blast
  have "diffs (y_h y) = [frame_of demo_opts (s_epoch demo_set) (s_Def demo_set) b]"
    using pipe_reach_log [OF y(1) demo_inflight demo_depth] y(2) by (simp add: log_inv_def)
  then have f: "frame_of demo_opts (s_epoch demo_set) (s_Def demo_set) b \<in> set (h_published (y_h y))"
    by (metis filter_is_subset list.set_intros(1) subsetD)
  have "utf8_valid (d_Name (s_Def demo_set))" by (simp add: demo_def_def ascii_valid)
  moreover have "length (pl_Deltas (b_plan b)) < 2 ^ 63"
    unfolding y(3) demo_planned_def demo_plan Let_def by simp
  ultimately show ?thesis
    using published_bytes_decode [OF y(1) demo_inflight demo_depth] y f by (fastforce simp: bus_Publish_def)
qed

section \<open>Events\<close>

lemma submit_loop_code: "submit_loop d ev vs seen recs = Inl c \<Longrightarrow> c = ErrValueTooLong \<or> c = ErrWrongType"
  by (induction d ev vs seen recs rule: submit_loop.induct)
    (auto simp: submit_code_def Let_def split: sum.splits prod.splits if_splits)

lemma codes_valid [simp]:
  "utf8_valid ErrUnknownSet" "utf8_valid ErrFull" "utf8_valid ErrWrongType" "utf8_valid ErrValueTooLong" "utf8_valid ErrNoOrigin"
  "utf8_valid ErrNoTTL" "utf8_valid ErrBadOp" "utf8_valid ErrBadRequest" "utf8_valid ErrStoreUnavailable" "utf8_valid ErrNotReady"
  "utf8_valid ErrOverloaded" "utf8_valid ErrForever"
  by (simp_all add: wire_codes ascii_valid)

lemma submit_prepare_code_valid: "submit_prepare d ev now = Inl c \<Longrightarrow> utf8_valid c"
  by (auto simp: submit_prepare_def Let_def split: if_splits sum.splits dest!: submit_loop_code)

lemma event_error_ok: "utf8_valid c \<Longrightarrow> message_ok (MEventReply (event_error c))"
  by (simp add: event_reply_values_def event_error_def goval_ok_def int64_range_def)

lemma submit_queue_ok: "submit_queue opts w rid deadline sel h = (h', Some r) \<Longrightarrow> message_ok (MEventReply r)"
  by (auto simp: submit_queue_def Let_def simp del: message_ok.simps intro!: event_error_ok
      split: prod.splits if_splits queue_select.splits)

lemma keeper_Submit_ok: "keeper_Submit name ev now rid deadline sel k = (k', Some r) \<Longrightarrow> message_ok (MEventReply r)"
  by (auto simp: keeper_Submit_def simp del: message_ok.simps intro!: event_error_ok
      split: if_splits option.splits sum.splits prod.splits dest: submit_prepare_code_valid submit_queue_ok)

lemma submit_reply_ok:
  assumes "int64_range (d_Limit d)" and "\<And>q. res = Some q \<Longrightarrow> utf8_valid (q_code q)"
  shows "message_ok (MEventReply (submit_reply d res))"
  using assms
  by (auto simp: submit_reply_def event_reply_values_def event_error_def goval_ok_def int64_range_def split: option.splits)

definition event_msg :: "string \<Rightarrow> string \<Rightarrow> event \<Rightarrow> msg" where
  "event_msg name inbox ev =
     \<lparr>mg_Subject = bus_prefix @ name @ ''.event'', mg_Reply = inbox, mg_Data = wire_Encode (MEvent ev)\<rparr>"

lemma reply_decodes:
  assumes "message_ok (MEventReply x)" and "inbox \<noteq> []"
  shows "\<exists>bs. bus_reply (event_msg name inbox ev) (MEventReply x) = [(inbox, bs)]
    \<and> wire_Unmarshal (MEventReply x') bs = (MEventReply x, True)"
  using wire_Unmarshal_Encode [OF assms(1)] wire_Unmarshal_event_reply [of x' _ x] assms(2)
  by (simp add: bus_reply_def event_msg_def)

text \<open>
  C27: Writes over the wire. An event that a client encodes and sends to the subject of a set without a dot in its name is
  submitted to that set exactly as it was, with a deadline five seconds after its arrival. Every reply, one that \<open>Submit\<close>
  gives at once or one for the result of the job, goes to the inbox of the request, and its bytes decode to the reply. The strings of
  the event are valid UTF-8 and its numbers fit 64 bits, as a client has them.
\<close>

theorem event_over_the_wire:
  assumes "message_ok (MEvent ev)" and "name \<noteq> []" and "CHR ''.'' \<notin> set name" and "inbox \<noteq> []"
    and "int64_range (d_Limit d)" and "\<forall>q. res = Some q \<longrightarrow> utf8_valid (q_code q)"
  shows "onEvent_run (event_msg name inbox ev) at now rid sel k = keeper_Submit name ev now rid (Some (at + eventTimeout)) sel k
    \<and> (\<forall>k' r. onEvent_run (event_msg name inbox ev) at now rid sel k = (k', Some r) \<longrightarrow>
        (\<exists>bs. bus_reply (event_msg name inbox ev) (MEventReply r) = [(inbox, bs)]
          \<and> wire_Unmarshal (MEventReply r') bs = (MEventReply r, True)))
    \<and> (\<exists>bs. bus_reply (event_msg name inbox ev) (MEventReply (submit_reply d res)) = [(inbox, bs)]
          \<and> wire_Unmarshal (MEventReply r') bs = (MEventReply (submit_reply d res), True))"
proof -
  have "Unmarshal_event (wire_Encode (MEvent ev)) = Some ev"
    using wire_Unmarshal_Encode [OF assms(1)] wire_Unmarshal_event [of zero_event _ ev] by (simp add: Unmarshal_event_def)
  then have run: "onEvent_run (event_msg name inbox ev) at now rid sel k = keeper_Submit name ev now rid (Some (at + eventTimeout)) sel k"
    using assms(2) setOf_name [OF assms(3)] by (simp add: onEvent_run_def event_msg_def event_name_def)
  have "message_ok (MEventReply (submit_reply d res))" by (rule submit_reply_ok) (use assms in auto)
  then show ?thesis using run reply_decodes [OF _ assms(4)] keeper_Submit_ok by (metis (no_types, lifting))
qed

theorem event_over_the_wire_witness:
  "\<exists>bs. onEvent_run (event_msg ''blocked'' ''_INBOX.1'' demo_event) 0 0 0 JobSent (keeper_New demo_opts)
      = (keeper_New demo_opts, Some (event_error ErrNotReady))
    \<and> bus_reply (event_msg ''blocked'' ''_INBOX.1'' demo_event) (MEventReply (event_error ErrNotReady)) = [(''_INBOX.1'', bs)]
    \<and> wire_Unmarshal (MEventReply (event_error [])) bs = (MEventReply (event_error ErrNotReady), True)"
proof -
  have ok: "message_ok (MEvent demo_event)"
    by (simp add: demo_event_def event_values_def goval_ok_def int64_range_def ascii_valid)
  have "keeper_Submit ''blocked'' demo_event 0 0 d JobSent (keeper_New demo_opts)
    = (keeper_New demo_opts, Some (event_error ErrNotReady))" for d
    by (simp add: keeper_Submit_def keeper_New_def)
  then show ?thesis
    using event_over_the_wire [OF ok, of "''blocked''" "''_INBOX.1''" "demo_def TypeString 2" None 0 0 0 JobSent
        "keeper_New demo_opts" "event_error []"]
    by (simp add: demo_def_def int64_range_def)
qed

section \<open>HTTP\<close>

lemma stat_fields_ok:
  "length stat_fields = length (stat_values z)" "list_all (\<lambda>f. utf8_valid (fst f)) stat_fields"
  by (simp_all add: stat_fields_def stat_values_def ascii_valid)

lemma marshal_depth: "json_depth (JObj (marshal_fields fs vs)) \<le> 2"
proof -
  have "list_all (\<lambda>(k, j). json_depth j \<le> 1) (marshal_fields fs vs)"
    by (induction fs vs rule: marshal_fields.induct) auto
  then have "Max (insert 0 ((\<lambda>(k, j). json_depth j) ` set (marshal_fields fs vs))) \<le> 1" by (auto simp: list_all_iff)
  then show ?thesis unfolding json_depth.simps set_map by linarith
qed

lemma stats_json_ok:
  assumes "\<forall>z\<in>set zs. list_all goval_ok (stat_values z)"
  shows "json_ok (stats_json zs)" and "json_depth (stats_json zs) \<le> maxNestingDepth"
proof -
  show "json_ok (stats_json zs)"
    using assms marshal_fields_ok(1) [OF stat_fields_ok] by (auto simp: stats_json_def list_all_iff simp del: json_ok.simps(4))
  have "Max (insert 0 (json_depth ` set (map (\<lambda>z. JObj (marshal_fields stat_fields (stat_values z))) zs))) \<le> 2"
    using marshal_depth by (auto simp del: json_depth.simps)
  then show "json_depth (stats_json zs) \<le> maxNestingDepth"
    unfolding maxNestingDepth_def stats_json_def json_depth.simps set_map by linarith
qed

text \<open>
  C39: The HTTP routes. \<open>/healthz\<close> answers 200 exactly when the keeper is ready and 503 otherwise; the body of \<open>/sets\<close> is a JSON
  text that a reader takes for the list of the statistics of the sets, one object per set; \<open>/sets/{name}\<close> answers 404 exactly
  when a ready keeper has no set of that name, and its body decodes to the frame that \<open>Snapshot\<close> gives.
  The names in the statistics and the strings of the frame are valid UTF-8 and the numbers fit 64 bits.
\<close>

theorem http_answers:
  assumes "\<forall>z\<in>set (keeper_Stats so k). list_all goval_ok (stat_values z)"
    and "keeper_Snapshot st name order now at k r = (k', r', f)" and "message_ok (MFrame f)"
  shows "rs_Status (snd (http_Handler st so order now at Healthz (k, r))) = (if k_ready k then 200 else 503)
    \<and> parse_json (string_of_bytes (rs_Body (snd (http_Handler st so order now at Sets (k, r))))) = Some (stats_json (keeper_Stats so k))
    \<and> (rs_Status (snd (http_Handler st so order now at (SetByName name) (k, r))) = 404 \<longleftrightarrow> k_ready k \<and> name |\<notin>| fmdom (k_sets k))
    \<and> Unmarshal frame_fields (rs_Body (snd (http_Handler st so order now at (SetByName name) (k, r))))
        (map goval_zero (frame_values zero_frame)) = (frame_values f, True)"
proof (intro conjI)
  show "rs_Status (snd (http_Handler st so order now at Healthz (k, r))) = (if k_ready k then 200 else 503)"
    by (simp add: http_Handler_def)
  show "parse_json (string_of_bytes (rs_Body (snd (http_Handler st so order now at Sets (k, r))))) = Some (stats_json (keeper_Stats so k))"
    using parse_print_json_line [OF stats_json_ok [OF assms(1)]] by (simp add: http_Handler_def encode_line_def)
  have ops: "OpNotReady \<noteq> OpUnknownSet" "OpStoreUnavailable \<noteq> OpUnknownSet" "OpSnapshot \<noteq> OpUnknownSet"
    by (simp_all add: OpNotReady_def OpUnknownSet_def OpStoreUnavailable_def OpSnapshot_def)
  have "f_Op f = OpUnknownSet \<longleftrightarrow> k_ready k \<and> name |\<notin>| fmdom (k_sets k)"
    using assms(2) ops
    by (auto simp: keeper_Snapshot_def holder_Snapshot_def snap_error_def snap_frame_def zero_frame_def Let_def fmlookup_dom_iff
        split: if_splits option.splits prod.splits)
  then show "rs_Status (snd (http_Handler st so order now at (SetByName name) (k, r))) = 404 \<longleftrightarrow> k_ready k \<and> name |\<notin>| fmdom (k_sets k)"
    using assms(2) by (simp add: http_Handler_def)
  have "parse_json (print_json (JObj (marshal_fields frame_fields (frame_values f))) @ [CHR 0x0A])
    = Some (JObj (marshal_fields frame_fields (frame_values f)))"
    using message_fields_ok [of "MFrame f"] assms(3) by (intro parse_print_json_line marshal_fields_ok) simp_all
  then show "Unmarshal frame_fields (rs_Body (snd (http_Handler st so order now at (SetByName name) (k, r))))
      (map goval_zero (frame_values zero_frame)) = (frame_values f, True)"
    using unmarshal_marshal [of frame_fields "frame_values f" "[]" "[]"] message_fields_ok [of "MFrame f"] assms(2,3)
    by (simp add: http_Handler_def encode_line_def Unmarshal_def frame_values_def)
qed

theorem http_answers_witness:
  "rs_Status (snd (http_Handler demo_store [] [] 0 0 Healthz (keeper_New demo_opts, []))) = 503
   \<and> parse_json (string_of_bytes (rs_Body (snd (http_Handler demo_store [] [] 0 0 Sets (keeper_New demo_opts, []))))) = Some (JArr [])"
proof -
  have "keeper_Snapshot demo_store ''blocked'' [] 0 0 (keeper_New demo_opts) [] = (keeper_New demo_opts, [], snap_error ''blocked'' OpNotReady)"
    by (simp add: keeper_Snapshot_def keeper_New_def)
  moreover have "message_ok (MFrame (snap_error ''blocked'' OpNotReady))"
    by (simp add: snap_error_def zero_frame_def frame_values_def goval_ok_def V3_def int64_range_def OpNotReady_def ascii_valid)
  ultimately show ?thesis
    using http_answers [of "[]" "keeper_New demo_opts" demo_store "''blocked''" "[]" 0 0 "[]"]
    by (simp add: keeper_Stats_def stats_json_def keeper_New_def)
qed

end
