(* ===== verification/MapOps.thy ===== *)
theory MapOps
  imports MountProps
begin

text \<open>
  The map of sets under concurrent requests: every \<open>Define\<close> and \<open>Reload\<close> that the bus serves is a goroutine of its own
  (\<open>src/internal/bus/bus.go\<close>, \<open>src/internal/keeper/keeper.go\<close>), and they meet at the lock of the map, at the store and at the
  holders they stop. Here each goroutine is a thread whose steps are the sections under the lock, the calls of the store,
  \<open>close(h.stop)\<close>, \<open>h.done.Wait()\<close> and the start of the new holder's goroutines, interleaved in every way. Of a holder only
  its definition and epoch matter, which never change; what the holders do to the store meanwhile is left open. A panic of
  one thread ends the process in the code; here the other threads may still move, so the runs of the code are among these.
\<close>

section \<open>Threads\<close>

type_synonym hid = nat

record cell =
  ce_Def :: set_def
  ce_Epoch :: u64

text \<open>
  What a request still has to do: the calls of \<open>mount\<close> and \<open>drop\<close>, the sets that \<open>Reload\<close> did not see, and the epoch that
  \<open>Define\<close> reads at the end.
\<close>

datatype task = DoMount set_def bool | DoDrop string | DoGone "string list" | DoEpoch string

text \<open>
  Where a thread stands. \<open>Stopping n hs\<close> has the holders to shut down, each with the name whose state is dropped then, if
  any; \<open>n\<close> is the holder that \<open>mount\<close> starts afterwards.
\<close>

datatype pc =
    Idle
  | Loading set_def bool
  | Resetting set_def sset bool
  | Installing set_def sset
  | Stopping "hid option" "(hid \<times> string option) list"
  | Waiting "hid option" hid "string option" "(hid \<times> string option) list"
  | Dropping "hid option" string "(hid \<times> string option) list"
  | Panicked

record thread =
  th_pc :: pc
  th_todo :: "task list"

record 'r conc =
  g_sets :: "(string, hid) fmap"
  g_heap :: "cell list"
  g_closed :: "hid list"
  g_started :: "hid list"
  g_running :: "hid set"
  g_store :: 'r
  g_threads :: "thread list"

definition conc_init :: "'r \<Rightarrow> 'r conc" where
  "conc_init r = \<lparr>g_sets = fmempty, g_heap = [], g_closed = [], g_started = [], g_running = {}, g_store = r, g_threads = []\<rparr>"

definition to_thread :: "nat \<Rightarrow> pc \<Rightarrow> task list \<Rightarrow> 'r conc \<Rightarrow> 'r conc" where
  "to_thread i p ts g = g\<lparr>g_threads := (g_threads g)[i := \<lparr>th_pc = p, th_todo = ts\<rparr>]\<rparr>"

definition at_thread :: "'r conc \<Rightarrow> nat \<Rightarrow> pc \<Rightarrow> task list \<Rightarrow> bool" where
  "at_thread g i p ts \<longleftrightarrow> i < length (g_threads g) \<and> g_threads g ! i = \<lparr>th_pc = p, th_todo = ts\<rparr>"

text \<open>The requests: \<open>Define\<close> by what the definitions store answers, \<open>Reload\<close> and \<open>Start\<close> by the definitions they load.\<close>

definition define_tasks :: "set_def option \<Rightarrow> string \<Rightarrow> task list" where
  "define_tasks found name =
     (case found of
        None \<Rightarrow> [DoDrop name]
      | Some d \<Rightarrow> if \<not> d_Active d then [DoDrop name] else [DoMount d True, DoEpoch name])"

definition reload_tasks :: "set_def list \<Rightarrow> task list" where
  "reload_tasks ds = map (\<lambda>d. DoMount d False) ds @ [DoGone (map d_Name ds)]"

definition start_tasks :: "set_def list \<Rightarrow> task list" where
  "start_tasks ds = map (\<lambda>d. DoMount d False) ds"

section \<open>Sections under the lock\<close>

definition def_at :: "'r conc \<Rightarrow> hid \<Rightarrow> set_def" where
  "def_at g h = ce_Def (g_heap g ! h)"

definition mounted_at :: "'r conc \<Rightarrow> set_def \<Rightarrow> bool" where
  "mounted_at g d = (case fmlookup (g_sets g) (d_Name d) of None \<Rightarrow> False | Some h \<Rightarrow> def_at g h = d)"

definition renamed_at :: "'r conc \<Rightarrow> set_def \<Rightarrow> string list \<Rightarrow> string list" where
  "renamed_at g d order =
     filter (\<lambda>n. n \<noteq> d_Name d \<and> (case fmlookup (g_sets g) n of None \<Rightarrow> False | Some h \<Rightarrow> d_ID (def_at g h) = d_ID d)) order"

text \<open>The holders that \<open>mount\<close> shuts down: the old one of the name, then those with the identifier under another name.\<close>

definition replaced :: "'r conc \<Rightarrow> set_def \<Rightarrow> string list \<Rightarrow> (hid \<times> string option) list" where
  "replaced g d renamed =
     (case fmlookup (g_sets g) (d_Name d) of None \<Rightarrow> [] | Some h \<Rightarrow> [(h, None)])
     @ map (\<lambda>n. let h = the (fmlookup (g_sets g) n) in (h, Some (d_Name (def_at g h)))) renamed"

definition install :: "set_def \<Rightarrow> sset \<Rightarrow> string list \<Rightarrow> 'r conc \<Rightarrow> 'r conc" where
  "install d s renamed g =
     g\<lparr>g_sets := fold fmdrop renamed (fmupd (d_Name d) (length (g_heap g)) (g_sets g)),
       g_heap := g_heap g @ [\<lparr>ce_Def = d, ce_Epoch = s_epoch s\<rparr>]\<rparr>"

section \<open>Steps\<close>

inductive conc_step :: "'r store \<Rightarrow> 'r conc \<Rightarrow> 'r conc \<Rightarrow> bool" for st where
  Define:
    "conc_step st g (g\<lparr>g_threads := g_threads g @ [\<lparr>th_pc = Idle, th_todo = define_tasks found name\<rparr>]\<rparr>)"
| Reload:
    "conc_step st g (g\<lparr>g_threads := g_threads g @ [\<lparr>th_pc = Idle, th_todo = reload_tasks ds\<rparr>]\<rparr>)"
| Start:
    "conc_step st g (g\<lparr>g_threads := g_threads g @ [\<lparr>th_pc = Idle, th_todo = start_tasks ds\<rparr>]\<rparr>)"
| MountSkip:
    "at_thread g i Idle (DoMount d fresh # ts) \<Longrightarrow> \<not> fresh \<Longrightarrow> mounted_at g d \<Longrightarrow> conc_step st g (to_thread i Idle ts g)"
| MountBegin:
    "at_thread g i Idle (DoMount d fresh # ts) \<Longrightarrow> fresh \<or> \<not> mounted_at g d \<Longrightarrow>
     conc_step st g (to_thread i (Loading d fresh) ts g)"
| Load:
    "at_thread g i (Loading d fresh) ts \<Longrightarrow> st_Load st (d_Name d) (g_store g) = Some out \<Longrightarrow>
     mount_set d fresh out w w' = (s, keep) \<Longrightarrow> conc_step st g (to_thread i (Resetting d s keep) ts g)"
| LoadFails:
    "at_thread g i (Loading d fresh) ts \<Longrightarrow> st_Load st (d_Name d) (g_store g) = None \<Longrightarrow> conc_step st g (to_thread i Idle [] g)"
| Reset:
    "at_thread g i (Resetting d s keep) ts \<Longrightarrow> st_Reset st (d_Name d) (meta_of d s) keep (g_store g) = (r, True) \<Longrightarrow>
     conc_step st g (to_thread i (Installing d s) ts (g\<lparr>g_store := r\<rparr>))"
| ResetFails:
    "at_thread g i (Resetting d s keep) ts \<Longrightarrow> st_Reset st (d_Name d) (meta_of d s) keep (g_store g) = (r, False) \<Longrightarrow>
     conc_step st g (to_thread i Idle [] (g\<lparr>g_store := r\<rparr>))"
| Install:
    "at_thread g i (Installing d s) ts \<Longrightarrow> distinct order \<Longrightarrow> set order = fset (fmdom (g_sets g)) \<Longrightarrow>
     conc_step st g (to_thread i (Stopping (Some (length (g_heap g))) (replaced g d (renamed_at g d order))) ts
       (install d s (renamed_at g d order) g))"
| Close:
    "at_thread g i (Stopping n ((h, dr) # hs)) ts \<Longrightarrow>
     conc_step st g (to_thread i (Waiting n h dr hs) ts (g\<lparr>g_closed := g_closed g @ [h]\<rparr>))"
| Wait:
    "at_thread g i (Waiting n h dr hs) ts \<Longrightarrow> h \<notin> g_running g \<Longrightarrow>
     conc_step st g (to_thread i (case dr of None \<Rightarrow> Stopping n hs | Some name \<Rightarrow> Dropping n name hs) ts g)"
| DropState:
    "at_thread g i (Dropping n name hs) ts \<Longrightarrow>
     conc_step st g (to_thread i (Stopping n hs) ts (g\<lparr>g_store := fst (st_Drop st name (g_store g))\<rparr>))"
| Go:
    "at_thread g i (Stopping (Some n) []) ts \<Longrightarrow>
     conc_step st g (to_thread i Idle ts (g\<lparr>g_started := g_started g @ [n], g_running := insert n (g_running g)\<rparr>))"
| DropEnd:
    "at_thread g i (Stopping None []) ts \<Longrightarrow> conc_step st g (to_thread i Idle ts g)"
| DropNone:
    "at_thread g i Idle (DoDrop name # ts) \<Longrightarrow> fmlookup (g_sets g) name = None \<Longrightarrow> conc_step st g (to_thread i Idle ts g)"
| DropTake:
    "at_thread g i Idle (DoDrop name # ts) \<Longrightarrow> fmlookup (g_sets g) name = Some h \<Longrightarrow>
     conc_step st g (to_thread i (Stopping None [(h, Some name)]) ts (g\<lparr>g_sets := fmdrop name (g_sets g)\<rparr>))"
| Gone:
    "at_thread g i Idle (DoGone seen # ts) \<Longrightarrow> distinct order \<Longrightarrow> set order = fset (fmdom (g_sets g)) \<Longrightarrow>
     conc_step st g (to_thread i Idle (map DoDrop (filter (\<lambda>n. n \<notin> set seen) order) @ ts) g)"
| Epoch:
    "at_thread g i Idle (DoEpoch name # ts) \<Longrightarrow> fmlookup (g_sets g) name = Some h \<Longrightarrow> conc_step st g (to_thread i Idle ts g)"
| EpochPanics:
    "at_thread g i Idle (DoEpoch name # ts) \<Longrightarrow> fmlookup (g_sets g) name = None \<Longrightarrow> conc_step st g (to_thread i Panicked [] g)"
| Return:
    "h \<in> g_running g \<Longrightarrow> h \<in> set (g_closed g) \<Longrightarrow> conc_step st g (g\<lparr>g_running := g_running g - {h}\<rparr>)"
| Work:
    "conc_step st g (g\<lparr>g_store := r\<rparr>)"

abbreviation conc_reach :: "'r store \<Rightarrow> 'r conc \<Rightarrow> 'r conc \<Rightarrow> bool" where
  "conc_reach st \<equiv> (conc_step st)\<^sup>*\<^sup>*"

section \<open>Who has which holder\<close>

text \<open>
  Every holder made so far is in the map, or on the list of exactly one thread that is about to close it, or closed; and
  it was started, or exactly one thread is about to start it.
\<close>

fun pc_pending :: "pc \<Rightarrow> hid list" where
  "pc_pending (Stopping n hs) = map fst hs"
| "pc_pending (Waiting n h dr hs) = map fst hs"
| "pc_pending (Dropping n name hs) = map fst hs"
| "pc_pending _ = []"

fun pc_new :: "pc \<Rightarrow> hid list" where
  "pc_new (Stopping (Some n) hs) = [n]"
| "pc_new (Waiting (Some n) h dr hs) = [n]"
| "pc_new (Dropping (Some n) name hs) = [n]"
| "pc_new _ = []"

definition of_threads :: "(pc \<Rightarrow> hid list) \<Rightarrow> 'r conc \<Rightarrow> hid multiset" where
  "of_threads f g = sum_list (map (\<lambda>t. mset (f (th_pc t))) (g_threads g))"

definition mapped :: "(string, hid) fmap \<Rightarrow> hid multiset" where
  "mapped m = image_mset (\<lambda>n. the (fmlookup m n)) (mset_set (fset (fmdom m)))"

definition map_ok :: "'r conc \<Rightarrow> bool" where
  "map_ok g \<longleftrightarrow>
     (\<forall>n h. fmlookup (g_sets g) n = Some h \<longrightarrow> h < length (g_heap g) \<and> d_Name (def_at g h) = n)
     \<and> (\<forall>n h n' h'. fmlookup (g_sets g) n = Some h \<longrightarrow> fmlookup (g_sets g) n' = Some h'
          \<longrightarrow> d_ID (def_at g h) = d_ID (def_at g h') \<longrightarrow> n = n')"

definition conc_inv :: "'r conc \<Rightarrow> bool" where
  "conc_inv g \<longleftrightarrow>
     mset (g_closed g) + of_threads pc_pending g + mapped (g_sets g) = mset_set {..<length (g_heap g)}
     \<and> mset (g_started g) + of_threads pc_new g = mset_set {..<length (g_heap g)}
     \<and> map_ok g
     \<and> (\<forall>h\<in>set (g_started g). h \<notin> set (g_closed g) \<longrightarrow> h \<in> g_running g)"

lemma sum_list_update_add:
  fixes f :: "'a \<Rightarrow> 'b::comm_monoid_add"
  shows "i < length xs \<Longrightarrow> sum_list (map f (xs[i := x])) + f (xs ! i) = sum_list (map f xs) + f x"
  by (induction xs arbitrary: i) (auto simp: ac_simps split: nat.splits)

lemma of_threads_to:
  assumes "at_thread g i p ts" and "g_threads g' = g_threads g"
  shows "of_threads f (to_thread i p' ts' g') + mset (f p) = of_threads f g + mset (f p')"
  using assms sum_list_update_add [of i "g_threads g" "\<lambda>t. mset (f (th_pc t))" "\<lparr>th_pc = p', th_todo = ts'\<rparr>"]
  by (simp add: at_thread_def of_threads_def to_thread_def)

lemma of_threads_spawn: "of_threads f (g\<lparr>g_threads := g_threads g @ [\<lparr>th_pc = p, th_todo = ts\<rparr>]\<rparr>) = of_threads f g + mset (f p)"
  by (simp add: of_threads_def)

lemma to_thread_fields [simp]:
  "g_sets (to_thread i p ts g) = g_sets g" "g_heap (to_thread i p ts g) = g_heap g" "g_closed (to_thread i p ts g) = g_closed g"
  "g_started (to_thread i p ts g) = g_started g" "g_running (to_thread i p ts g) = g_running g" "g_store (to_thread i p ts g) = g_store g"
  "def_at (to_thread i p ts g) = def_at g"
  by (simp_all add: to_thread_def def_at_def fun_eq_iff)

lemma map_ok_to_thread [simp]: "map_ok (to_thread i p ts g) = map_ok g"
  by (simp add: map_ok_def)

lemma mapped_drop:
  assumes "fmlookup m n = Some h"
  shows "mapped (fmdrop n m) + {#h#} = mapped m"
proof -
  have "n |\<in>| fmdom m" using assms by (rule fmdomI)
  then have "mset_set (fset (fmdom m)) = add_mset n (mset_set (fset (fmdom m) - {n}))"
    by (intro mset_set.remove) simp_all
  moreover have "image_mset (\<lambda>x. the (fmlookup (fmdrop n m) x)) (mset_set (fset (fmdom m) - {n}))
    = image_mset (\<lambda>x. the (fmlookup m x)) (mset_set (fset (fmdom m) - {n}))"
    by (rule image_mset_cong) simp
  ultimately show ?thesis using assms by (simp add: mapped_def)
qed

lemma mapped_upd_new:
  assumes "fmlookup m n = None"
  shows "mapped (fmupd n h m) = mapped m + {#h#}"
proof -
  have "n |\<notin>| fmdom m" using assms by (simp add: fmdom_notI)
  then have "image_mset (\<lambda>x. the (fmlookup (fmupd n h m) x)) (mset_set (fset (fmdom m)))
    = image_mset (\<lambda>x. the (fmlookup m x)) (mset_set (fset (fmdom m)))"
    by (intro image_mset_cong) auto
  then show ?thesis using \<open>n |\<notin>| fmdom m\<close> by (simp add: mapped_def)
qed

lemma mapped_upd: "mapped (fmupd n h m) + mset (case fmlookup m n of None \<Rightarrow> [] | Some o' \<Rightarrow> [o']) = mapped m + {#h#}"
proof (cases "fmlookup m n")
  case (Some h')
  have "fmupd n h m = fmupd n h (fmdrop n m)" by (rule fmap_ext) simp
  then show ?thesis using Some mapped_drop [OF Some] mapped_upd_new [of "fmdrop n m" n h] by simp
qed (simp add: mapped_upd_new)

lemma mapped_drop_all:
  "distinct ns \<Longrightarrow> \<forall>n\<in>set ns. n |\<in>| fmdom m \<Longrightarrow> mapped (fold fmdrop ns m) + mset (map (\<lambda>n. the (fmlookup m n)) ns) = mapped m"
proof (induction ns arbitrary: m)
  case (Cons n ns)
  then obtain h where h: "fmlookup m n = Some h" by fastforce
  have same: "map (\<lambda>k. the (fmlookup (fmdrop n m) k)) ns = map (\<lambda>k. the (fmlookup m k)) ns" using Cons.prems by auto
  have "distinct ns" "\<forall>k\<in>set ns. k |\<in>| fmdom (fmdrop n m)" using Cons.prems by auto
  note Cons.IH [OF this, unfolded same]
  then show ?case using h by (simp flip: mapped_drop [OF h])
qed simp

lemma add_swap: "a + r = b \<Longrightarrow> b + x = c \<Longrightarrow> a + (x + r) = (c :: 'a multiset)"
  by (auto simp: ac_simps)

lemma add_move:
  assumes "m' + r = m + (x :: 'a multiset)"
  shows "a + (b + r) + m' = a + b + m + x"
proof -
  have "a + (b + r) + m' = a + b + (m' + r)" by (simp add: ac_simps)
  then show ?thesis unfolding assms by (simp add: ac_simps)
qed

lemma replaced_handed_over:
  assumes "distinct order" and "set order = fset (fmdom (g_sets g))"
  shows "mapped (g_sets (install d s (renamed_at g d order) g)) + mset (map fst (replaced g d (renamed_at g d order)))
    = mapped (g_sets g) + {#length (g_heap g)#}"
proof -
  let ?ren = "renamed_at g d order" and ?m = "fmupd (d_Name d) (length (g_heap g)) (g_sets g)"
  have r: "distinct ?ren" "\<forall>n\<in>set ?ren. n |\<in>| fmdom ?m" "\<forall>n\<in>set ?ren. n \<noteq> d_Name d"
    using assms by (auto simp: renamed_at_def)
  have same: "map (\<lambda>n. the (fmlookup ?m n)) ?ren = map (\<lambda>n. the (fmlookup (g_sets g) n)) ?ren" using r by auto
  have "mapped (fold fmdrop ?ren ?m) + mset (map (\<lambda>n. the (fmlookup (g_sets g) n)) ?ren) = mapped ?m"
    using mapped_drop_all [OF r(1,2), unfolded same] .
  moreover have "mapped ?m + mset (case fmlookup (g_sets g) (d_Name d) of None \<Rightarrow> [] | Some o' \<Rightarrow> [o']) = mapped (g_sets g) + {#length (g_heap g)#}"
    by (rule mapped_upd)
  moreover have "map fst (replaced g d ?ren) = (case fmlookup (g_sets g) (d_Name d) of None \<Rightarrow> [] | Some o' \<Rightarrow> [o'])
    @ map (\<lambda>n. the (fmlookup (g_sets g) n)) ?ren"
    by (simp add: replaced_def Let_def comp_def split: option.splits)
  ultimately show ?thesis by (simp add: install_def add_swap)
qed

lemma install_fields [simp]:
  "g_closed (install d s ren g) = g_closed g" "g_started (install d s ren g) = g_started g"
  "g_running (install d s ren g) = g_running g" "g_threads (install d s ren g) = g_threads g"
  "g_heap (install d s ren g) = g_heap g @ [\<lparr>ce_Def = d, ce_Epoch = s_epoch s\<rparr>]"
  by (simp_all add: install_def)

lemma install_lookup:
  "fmlookup (g_sets (install d s ren g)) n =
     (if n \<in> set ren then None else if n = d_Name d then Some (length (g_heap g)) else fmlookup (g_sets g) n)"
  by (simp add: install_def fold_fmdrop_lookup)

lemma install_map_ok:
  assumes ok: "map_ok g" and order: "set order = fset (fmdom (g_sets g))"
  shows "map_ok (install d s (renamed_at g d order) g)"
proof -
  let ?g = "install d s (renamed_at g d order) g"
  have new: "def_at ?g (length (g_heap g)) = d" by (simp add: def_at_def)
  have old: "def_at ?g h = def_at g h" if "h < length (g_heap g)" for h using that by (simp add: def_at_def nth_append)
  have L: "n = d_Name d \<and> h = length (g_heap g)
    \<or> n \<noteq> d_Name d \<and> fmlookup (g_sets g) n = Some h \<and> h < length (g_heap g) \<and> d_Name (def_at g h) = n \<and> d_ID (def_at g h) \<noteq> d_ID d"
    if "fmlookup (g_sets ?g) n = Some h" for n h
    using that ok order by (auto simp: install_lookup renamed_at_def map_ok_def fmdomI split: if_splits)
  show ?thesis
    unfolding map_ok_def
  proof (intro conjI allI impI)
    fix n h assume "fmlookup (g_sets ?g) n = Some h"
    from L [OF this] show "h < length (g_heap ?g)" "d_Name (def_at ?g h) = n" by (auto simp: new old)
  next
    fix n h n' h'
    assume a: "fmlookup (g_sets ?g) n = Some h" "fmlookup (g_sets ?g) n' = Some h'" and ids: "d_ID (def_at ?g h) = d_ID (def_at ?g h')"
    show "n = n'"
    proof (cases "n = d_Name d \<or> n' = d_Name d")
      case True
      then show ?thesis using L [OF a(1)] L [OF a(2)] ids by (auto simp: new old)
    next
      case False
      then have "fmlookup (g_sets g) n = Some h" "fmlookup (g_sets g) n' = Some h'" "d_ID (def_at g h) = d_ID (def_at g h')"
        using L [OF a(1)] L [OF a(2)] ids by (simp_all add: old)
      then show ?thesis using ok unfolding map_ok_def by blast
    qed
  qed
qed

text \<open>The state with other threads, or with a thread elsewhere, and the same holders in the same hands.\<close>

lemma conc_inv_move:
  assumes inv: "conc_inv g" and at: "at_thread g i p ts" and "pc_pending p' = pc_pending p" and "pc_new p' = pc_new p"
  shows "conc_inv (to_thread i p' ts' (g\<lparr>g_store := r\<rparr>))"
proof -
  let ?g = "to_thread i p' ts' (g\<lparr>g_store := r\<rparr>)"
  have "of_threads pc_pending ?g = of_threads pc_pending g" "of_threads pc_new ?g = of_threads pc_new g"
    using of_threads_to [OF at, of "g\<lparr>g_store := r\<rparr>"] assms(3,4) by (metis add_right_cancel select_convs(7) surjective update_convs(6))+
  then show ?thesis using inv by (simp add: conc_inv_def map_ok_def def_at_def)
qed

lemma conc_inv_spawn:
  assumes "conc_inv g"
  shows "conc_inv (g\<lparr>g_threads := g_threads g @ [\<lparr>th_pc = Idle, th_todo = ts\<rparr>]\<rparr>)"
  using assms by (simp add: conc_inv_def map_ok_def def_at_def of_threads_spawn)

lemma mset_set_Suc: "mset_set {..<Suc n} = mset_set {..<n} + {#n#}"
  by (simp add: lessThan_Suc)

lemma conc_inv_install:
  assumes inv: "conc_inv g" and at: "at_thread g i (Installing d s) ts"
    and order: "distinct order" "set order = fset (fmdom (g_sets g))"
  shows "conc_inv (to_thread i (Stopping (Some (length (g_heap g))) (replaced g d (renamed_at g d order))) ts
    (install d s (renamed_at g d order) g))"
proof -
  let ?p = "Stopping (Some (length (g_heap g))) (replaced g d (renamed_at g d order))"
  let ?g = "install d s (renamed_at g d order) g"
  have "of_threads pc_pending (to_thread i ?p ts ?g) = of_threads pc_pending g + mset (map fst (replaced g d (renamed_at g d order)))"
    "of_threads pc_new (to_thread i ?p ts ?g) = of_threads pc_new g + {#length (g_heap g)#}"
    using of_threads_to [OF at, of ?g pc_pending ?p ts] of_threads_to [OF at, of ?g pc_new ?p ts] by simp_all
  moreover have "mset (g_closed g) + (of_threads pc_pending g + mset (map fst (replaced g d (renamed_at g d order)))) + mapped (g_sets ?g)
    = mset_set {..<length (g_heap g)} + {#length (g_heap g)#}"
    unfolding add_move [OF replaced_handed_over [OF order]] using inv by (simp add: conc_inv_def)
  moreover have "map_ok (to_thread i ?p ts ?g)"
    using install_map_ok [OF _ order(2), of d s] inv by (simp add: conc_inv_def)
  ultimately show ?thesis
    using inv by (simp add: conc_inv_def mset_set_Suc)
qed

lemma conc_inv_close:
  assumes inv: "conc_inv g" and at: "at_thread g i (Stopping n ((h, dr) # hs)) ts"
  shows "conc_inv (to_thread i (Waiting n h dr hs) ts (g\<lparr>g_closed := g_closed g @ [h]\<rparr>))"
proof -
  let ?g = "g\<lparr>g_closed := g_closed g @ [h]\<rparr>" and ?p = "Waiting n h dr hs"
  have "of_threads pc_pending g = of_threads pc_pending (to_thread i ?p ts ?g) + {#h#}"
    "of_threads pc_new (to_thread i ?p ts ?g) = of_threads pc_new g"
    using of_threads_to [OF at, of ?g pc_pending ?p ts] of_threads_to [OF at, of ?g pc_new ?p ts]
    by (cases n; simp)+
  then show ?thesis using inv by (auto simp: conc_inv_def map_ok_def def_at_def)
qed

lemma conc_inv_go:
  assumes inv: "conc_inv g" and at: "at_thread g i (Stopping (Some n) []) ts"
  shows "conc_inv (to_thread i Idle ts (g\<lparr>g_started := g_started g @ [n], g_running := insert n (g_running g)\<rparr>))"
proof -
  let ?g = "g\<lparr>g_started := g_started g @ [n], g_running := insert n (g_running g)\<rparr>"
  have "of_threads pc_pending (to_thread i Idle ts ?g) = of_threads pc_pending g"
    "of_threads pc_new g = of_threads pc_new (to_thread i Idle ts ?g) + {#n#}"
    using of_threads_to [OF at, of ?g pc_pending Idle ts] of_threads_to [OF at, of ?g pc_new Idle ts] by simp_all
  then show ?thesis using inv by (auto simp: conc_inv_def map_ok_def def_at_def)
qed

lemma conc_inv_take:
  assumes inv: "conc_inv g" and at: "at_thread g i Idle (DoDrop name # ts)" and h: "fmlookup (g_sets g) name = Some h"
  shows "conc_inv (to_thread i (Stopping None [(h, Some name)]) ts (g\<lparr>g_sets := fmdrop name (g_sets g)\<rparr>))"
proof -
  let ?g = "g\<lparr>g_sets := fmdrop name (g_sets g)\<rparr>" and ?p = "Stopping None [(h, Some name)]"
  have "of_threads pc_pending (to_thread i ?p ts ?g) = of_threads pc_pending g + {#h#}"
    "of_threads pc_new (to_thread i ?p ts ?g) = of_threads pc_new g"
    using of_threads_to [OF at, of ?g pc_pending ?p ts] of_threads_to [OF at, of ?g pc_new ?p ts] by simp_all
  moreover have "map_ok (to_thread i ?p ts ?g)" using inv by (simp add: conc_inv_def map_ok_def def_at_def)
  moreover note mapped_drop [OF h, symmetric]
  ultimately show ?thesis using inv by (simp add: conc_inv_def)
qed

lemma conc_inv_step:
  assumes inv: "conc_inv g" and step: "conc_step st g g'"
  shows "conc_inv g'"
  using step
proof cases
  case (Install i d s ts order)
  then show ?thesis using conc_inv_install [OF inv] by simp
next
  case (Close i n h dr hs ts)
  then show ?thesis using conc_inv_close [OF inv] by simp
next
  case (Go i n ts)
  then show ?thesis using conc_inv_go [OF inv] by simp
next
  case (DropTake i name ts h)
  then show ?thesis using conc_inv_take [OF inv] by simp
next
  case (Wait i n h dr hs ts)
  then show ?thesis using conc_inv_move [OF inv Wait(2), where r = "g_store g"] by (cases n; cases dr) simp_all
next
  case (DropState i n name hs ts)
  then show ?thesis using conc_inv_move [OF inv DropState(2)] by (cases n) simp_all
next
  case (Return h)
  then show ?thesis using inv by (auto simp: conc_inv_def map_ok_def def_at_def of_threads_def)
next
  case (Work r)
  then show ?thesis using inv by (auto simp: conc_inv_def map_ok_def def_at_def of_threads_def)
qed (use conc_inv_spawn [OF inv] conc_inv_move [OF inv, where r = "g_store g"] conc_inv_move [OF inv] in \<open>simp_all\<close>)

interpretation conc: step_invariant "conc_step st" conc_inv for st
  by unfold_locales (rule conc_inv_step)

lemma conc_inv_init: "conc_inv (conc_init r)"
  by (simp add: conc_inv_def conc_init_def map_ok_def of_threads_def mapped_def)

section \<open>Every request can end\<close>

definition same_others :: "nat \<Rightarrow> 'r conc \<Rightarrow> 'r conc \<Rightarrow> bool" where
  "same_others i g g' \<longleftrightarrow>
     length (g_threads g') = length (g_threads g) \<and> (\<forall>j<length (g_threads g). j \<noteq> i \<longrightarrow> g_threads g' ! j = g_threads g ! j)"

lemma same_others_refl [simp]: "same_others i g g"
  by (simp add: same_others_def)

lemma same_others_trans: "same_others i g g' \<Longrightarrow> same_others i g' g'' \<Longrightarrow> same_others i g g''"
  by (simp add: same_others_def)

lemma at_to_thread:
  assumes "at_thread g i p ts" and "g_threads g' = g_threads g"
  shows "at_thread (to_thread i p' ts' g') i p' ts'" and "same_others i g (to_thread i p' ts' g')"
  using assms by (simp_all add: at_thread_def to_thread_def same_others_def)

text \<open>Thread \<open>i\<close> can come from one place to another while the other threads stand still.\<close>

definition can_move :: "'r store \<Rightarrow> nat \<Rightarrow> 'r conc \<Rightarrow> pc \<Rightarrow> task list \<Rightarrow> bool" where
  "can_move st i g p ts \<longleftrightarrow> (\<exists>g'. conc_reach st g g' \<and> at_thread g' i p ts \<and> same_others i g g')"

lemma can_moveI:
  assumes "conc_step st g (to_thread i p' ts' g')" and "at_thread g i p ts" and "g_threads g' = g_threads g"
    and "can_move st i (to_thread i p' ts' g') q us"
  shows "can_move st i g q us"
proof -
  obtain g'' where "conc_reach st (to_thread i p' ts' g') g''" "at_thread g'' i q us" "same_others i (to_thread i p' ts' g') g''"
    using assms(4) by (auto simp: can_move_def)
  then show ?thesis
    unfolding can_move_def
    using converse_rtranclp_into_rtranclp [of "conc_step st", OF assms(1)] same_others_trans [OF at_to_thread(2) [OF assms(2,3)]] by blast
qed

lemma can_move_refl: "at_thread g i p ts \<Longrightarrow> can_move st i g p ts"
  unfolding can_move_def by (intro exI [of _ g]) simp

lemma can_move_step:
  assumes "conc_step st g (to_thread i p' ts' g')" and "at_thread g i p ts" and "g_threads g' = g_threads g"
  shows "can_move st i g p' ts'"
  by (rule can_moveI [OF assms can_move_refl [OF at_to_thread(1) [OF assms(2,3)]]])

lemma dropping_then:
  assumes d: "at_thread g i (Dropping n name hs) ts"
    and rest: "\<And>g'. at_thread g' i (Stopping n hs) ts \<Longrightarrow> can_move st i g' Idle ts"
  shows "can_move st i g Idle ts"
proof -
  have "can_move st i (to_thread i (Stopping n hs) ts (g\<lparr>g_store := fst (st_Drop st name (g_store g))\<rparr>)) Idle ts"
    by (rule rest [OF at_to_thread(1) [OF d]]) simp
  then show ?thesis using can_moveI [OF DropState [OF d] d] by simp
qed

lemma waiting_then:
  assumes w: "at_thread g i (Waiting n h dr hs) ts" and closed: "h \<in> set (g_closed g)"
    and rest: "\<And>g'. at_thread g' i (Stopping n hs) ts \<Longrightarrow> can_move st i g' Idle ts"
  shows "can_move st i g Idle ts"
proof -
  let ?r = "g\<lparr>g_running := g_running g - {h}\<rparr>"
  have r: "conc_reach st g ?r"
  proof (cases "h \<in> g_running g")
    case True
    then show ?thesis using closed by (intro r_into_rtranclp Return)
  qed simp
  have rt: "at_thread ?r i (Waiting n h dr hs) ts" using w by (simp add: at_thread_def)
  have step: "conc_step st ?r (to_thread i (case dr of None \<Rightarrow> Stopping n hs | Some name \<Rightarrow> Dropping n name hs) ts ?r)"
    by (rule Wait [OF rt]) simp
  have "can_move st i ?r Idle ts"
    using can_moveI [OF step rt refl] rest [OF at_to_thread(1) [OF rt refl]] dropping_then [OF at_to_thread(1) [OF rt refl] rest]
    by (cases dr) auto
  then obtain g' where "conc_reach st ?r g'" "at_thread g' i Idle ts" "same_others i ?r g'" by (auto simp: can_move_def)
  with r show ?thesis unfolding can_move_def by (intro exI [of _ g']) (auto simp: same_others_def)
qed

lemma stopping_ends: "at_thread g i (Stopping n hs) ts \<Longrightarrow> can_move st i g Idle ts"
proof (induction hs arbitrary: g)
  case Nil
  then show ?case using can_move_step [OF DropEnd Nil] can_move_step [OF Go Nil] by (cases n) simp_all
next
  case (Cons x hs)
  obtain h dr where x: "x = (h, dr)" by (cases x)
  have at: "at_thread g i (Stopping n ((h, dr) # hs)) ts" using Cons.prems x by simp
  have "can_move st i (to_thread i (Waiting n h dr hs) ts (g\<lparr>g_closed := g_closed g @ [h]\<rparr>)) Idle ts"
    by (rule waiting_then [OF at_to_thread(1) [OF at] _ Cons.IH]) simp_all
  then show ?case by (intro can_moveI [OF Close [OF at] at]) simp_all
qed

text \<open>A call of \<open>mount\<close> ends from wherever it is, after an error with nothing left to do.\<close>

lemma installing_ends:
  assumes n: "at_thread g i (Installing d s) ts"
  shows "can_move st i g Idle ts"
proof -
  obtain order where o: "set order = fset (fmdom (g_sets g))" "distinct order"
    using finite_distinct_list [of "fset (fmdom (g_sets g))"] by auto
  let ?s = "to_thread i (Stopping (Some (length (g_heap g))) (replaced g d (renamed_at g d order))) ts
    (install d s (renamed_at g d order) g)"
  have "can_move st i ?s Idle ts" by (rule stopping_ends [OF at_to_thread(1) [OF n]]) simp
  then show ?thesis using can_moveI [OF Install [OF n o(2,1)] n] by simp
qed

lemma resetting_ends:
  assumes r: "at_thread g i (Resetting d s keep) ts"
  shows "can_move st i g Idle ts \<or> can_move st i g Idle []"
proof -
  obtain r' ok where reset: "st_Reset st (d_Name d) (meta_of d s) keep (g_store g) = (r', ok)" by fastforce
  show ?thesis
  proof (cases ok)
    case True
    have step: "conc_step st g (to_thread i (Installing d s) ts (g\<lparr>g_store := r'\<rparr>))"
      by (rule Reset [OF r]) (use reset True in simp)
    have "can_move st i (to_thread i (Installing d s) ts (g\<lparr>g_store := r'\<rparr>)) Idle ts"
      by (rule installing_ends [OF at_to_thread(1) [OF r]]) simp
    then show ?thesis using can_moveI [OF step r] by simp
  next
    case False
    have step: "conc_step st g (to_thread i Idle [] (g\<lparr>g_store := r'\<rparr>))"
      by (rule ResetFails [OF r]) (use reset False in simp)
    then show ?thesis using can_move_step [OF step r] by simp
  qed
qed

lemma loading_ends:
  assumes l: "at_thread g i (Loading d fresh) ts"
  shows "can_move st i g Idle ts \<or> can_move st i g Idle []"
proof (cases "st_Load st (d_Name d) (g_store g)")
  case None
  then show ?thesis using can_move_step [OF LoadFails [OF l] l refl] by blast
next
  case (Some out)
  obtain s keep where s: "mount_set d fresh out undefined undefined = (s, keep)" by fastforce
  show ?thesis
    using resetting_ends [OF at_to_thread(1) [OF l refl], of st d s keep] can_moveI [OF Load [OF l Some s] l refl] by blast
qed

lemma mount_ends:
  assumes at: "at_thread g i Idle (DoMount d fresh # ts)"
  shows "can_move st i g Idle ts \<or> can_move st i g Idle []"
proof (cases "\<not> fresh \<and> mounted_at g d")
  case True
  then show ?thesis using can_move_step [OF MountSkip [OF at] at refl] by simp
next
  case False
  then show ?thesis
    using loading_ends [OF at_to_thread(1) [OF at refl], of st d fresh] can_moveI [OF MountBegin [OF at] at refl] by blast
qed

lemma drop_ends:
  assumes at: "at_thread g i Idle (DoDrop name # ts)"
  shows "can_move st i g Idle ts"
proof (cases "fmlookup (g_sets g) name")
  case None
  then show ?thesis using can_move_step [OF DropNone [OF at] at refl] by simp
next
  case (Some h)
  let ?s = "to_thread i (Stopping None [(h, Some name)]) ts (g\<lparr>g_sets := fmdrop name (g_sets g)\<rparr>)"
  have "can_move st i ?s Idle ts" by (rule stopping_ends [OF at_to_thread(1) [OF at]]) simp
  then show ?thesis using can_moveI [OF DropTake [OF at Some] at] by simp
qed

lemma can_move_trans:
  assumes "can_move st i g p ts" and "\<And>g'. at_thread g' i p ts \<Longrightarrow> can_move st i g' q us"
  shows "can_move st i g q us"
proof -
  obtain g' where g': "conc_reach st g g'" "at_thread g' i p ts" "same_others i g g'" using assms(1) by (auto simp: can_move_def)
  from assms(2) [OF g'(2)] obtain g'' where "conc_reach st g' g''" "at_thread g'' i q us" "same_others i g' g''"
    by (auto simp: can_move_def)
  with g' show ?thesis unfolding can_move_def by (meson rtranclp_trans same_others_trans)
qed

fun is_gone :: "task \<Rightarrow> bool" where "is_gone (DoGone _) = True" | "is_gone _ = False"

lemma tasks_end: "at_thread g i Idle ts \<Longrightarrow> can_move st i g Idle [] \<or> can_move st i g Panicked []"
proof (induction ts arbitrary: g rule: wf_induct_rule [OF wf_measures [of "[\<lambda>ts. length (filter is_gone ts), length]"]])
  case (1 ts)
  show ?case
  proof (cases ts)
    case Nil
    then show ?thesis using 1(2) by (simp add: can_move_refl)
  next
    case (Cons x us)
    have at: "at_thread g i Idle (x # us)" using 1(2) Cons by simp
    have rest: "can_move st i g' Idle [] \<or> can_move st i g' Panicked []" if "at_thread g' i Idle us" for g'
      using 1(1) [OF _ that] Cons by simp
    have then_rest: "can_move st i g Idle [] \<or> can_move st i g Panicked []" if "can_move st i g Idle us"
    proof -
      obtain g' where g': "conc_reach st g g'" "at_thread g' i Idle us" "same_others i g g'" using \<open>can_move st i g Idle us\<close> by (auto simp: can_move_def)
      from rest [OF g'(2)] show ?thesis
        unfolding can_move_def using g' by (meson rtranclp_trans same_others_trans)
    qed
    show ?thesis
    proof (cases x)
      case (DoMount d fresh)
      then show ?thesis using mount_ends [of g i d fresh us st] at then_rest by auto
    next
      case (DoDrop name)
      then show ?thesis using drop_ends at then_rest by blast
    next
      case (DoEpoch name)
      then show ?thesis
        using can_move_step [OF Epoch _ refl, of g i name us] can_move_step [OF EpochPanics _ refl, of g i name us] at then_rest
        by (cases "fmlookup (g_sets g) name") auto
    next
      case (DoGone seen)
      obtain order where o: "set order = fset (fmdom (g_sets g))" "distinct order"
        using finite_distinct_list [of "fset (fmdom (g_sets g))"] by auto
      let ?ts = "map DoDrop (filter (\<lambda>n. n \<notin> set seen) order) @ us"
      have at': "at_thread g i Idle (DoGone seen # us)" using at DoGone by simp
      have none: "filter is_gone (map DoDrop xs) = []" for xs by (induction xs) simp_all
      have "can_move st i (to_thread i Idle ?ts g) Idle [] \<or> can_move st i (to_thread i Idle ?ts g) Panicked []"
        by (rule 1(1) [OF _ at_to_thread(1) [OF at' refl]]) (simp add: Cons DoGone none)
      then show ?thesis using can_moveI [OF Gone [OF at' o(2,1)] at' refl] by blast
    qed
  qed
qed

text \<open>A thread that is done: its request has ended, or it met the nil holder.\<close>

definition thread_done :: "thread \<Rightarrow> bool" where
  "thread_done t \<longleftrightarrow> th_pc t = Panicked \<or> th_pc t = Idle \<and> th_todo t = []"

text \<open>Who waits for a holder has closed its channel.\<close>

definition wait_inv :: "'r conc \<Rightarrow> bool" where
  "wait_inv g \<longleftrightarrow> (\<forall>t\<in>set (g_threads g). \<forall>n h dr hs. th_pc t = Waiting n h dr hs \<longrightarrow> h \<in> set (g_closed g))"

lemma wait_inv_to:
  assumes "wait_inv g" and "g_threads g' = g_threads g" and "set (g_closed g) \<subseteq> set (g_closed g')"
    and "\<And>n h dr hs. p = Waiting n h dr hs \<Longrightarrow> h \<in> set (g_closed g')"
  shows "wait_inv (to_thread i p ts g')"
  unfolding wait_inv_def
proof (intro ballI allI impI)
  fix t n h dr hs assume t: "t \<in> set (g_threads (to_thread i p ts g'))" "th_pc t = Waiting n h dr hs"
  then have "t = \<lparr>th_pc = p, th_todo = ts\<rparr> \<or> t \<in> set (g_threads g)"
    using set_update_subset_insert [of "g_threads g" i] assms(2) by (fastforce simp: to_thread_def)
  then show "h \<in> set (g_closed (to_thread i p ts g'))" using t(2) assms(1,3,4) by (auto simp: wait_inv_def)
qed

lemma wait_inv_step:
  assumes inv: "wait_inv g" and "conc_step st g g'"
  shows "wait_inv g'"
  using assms(2)
proof cases
  case (Define found name)
  then show ?thesis using inv by (auto simp: wait_inv_def)
next
  case (Reload ds)
  then show ?thesis using inv by (auto simp: wait_inv_def)
next
  case (Start ds)
  then show ?thesis using inv by (auto simp: wait_inv_def)
next
  case (Return h)
  then show ?thesis using inv by (auto simp: wait_inv_def)
next
  case (Work r)
  then show ?thesis using inv by (auto simp: wait_inv_def)
qed (auto intro!: wait_inv_to [OF inv] split: option.splits)

interpretation waits: step_invariant "conc_step st" wait_inv for st
  by unfold_locales (rule wait_inv_step)

lemma thread_ends:
  assumes inv: "wait_inv g" and i: "i < length (g_threads g)"
  shows "\<exists>g'. conc_reach st g g' \<and> thread_done (g_threads g' ! i) \<and> same_others i g g'"
proof -
  obtain p ts where at: "at_thread g i p ts" using i by (metis at_thread_def thread.cases)
  have end_tasks: "can_move st i g Idle [] \<or> can_move st i g Panicked []" if m: "can_move st i g Idle us" for us
  proof -
    obtain g' where g': "conc_reach st g g'" "at_thread g' i Idle us" "same_others i g g'" using m by (auto simp: can_move_def)
    from tasks_end [OF g'(2), of st] show ?thesis
      unfolding can_move_def using g' by (meson rtranclp_trans same_others_trans)
  qed
  have "can_move st i g Idle [] \<or> (\<exists>us. can_move st i g Panicked us)"
  proof (cases p)
    case Idle
    then show ?thesis using tasks_end at by blast
  next
    case (Loading d fresh)
    then show ?thesis using loading_ends at end_tasks by blast
  next
    case (Resetting d s keep)
    then show ?thesis using resetting_ends at end_tasks by blast
  next
    case (Installing d s)
    then show ?thesis using installing_ends at end_tasks by blast
  next
    case (Stopping n hs)
    then show ?thesis using stopping_ends at end_tasks by blast
  next
    case (Waiting n h dr hs)
    then have "h \<in> set (g_closed g)" using inv at unfolding wait_inv_def at_thread_def by (metis nth_mem thread.select_convs(1))
    then have "can_move st i g Idle ts"
      by (intro waiting_then [of g i n h dr hs ts st]) (use at Waiting stopping_ends in auto)
    then show ?thesis using end_tasks by blast
  next
    case (Dropping n name hs)
    then have "can_move st i g Idle ts"
      by (intro dropping_then [of g i n name hs ts st]) (use at stopping_ends in auto)
    then show ?thesis using end_tasks by blast
  next
    case Panicked
    then show ?thesis using at can_move_refl by blast
  qed
  then show ?thesis by (auto simp: can_move_def at_thread_def thread_done_def)
qed

lemma all_threads_end:
  assumes "wait_inv g" and "k \<le> length (g_threads g)"
  shows "\<exists>g'. conc_reach st g g' \<and> length (g_threads g') = length (g_threads g) \<and> (\<forall>i<k. thread_done (g_threads g' ! i))"
  using assms(2)
proof (induction k)
  case (Suc k)
  then obtain g1 where g1: "conc_reach st g g1" "length (g_threads g1) = length (g_threads g)" "\<forall>i<k. thread_done (g_threads g1 ! i)"
    by auto
  have "wait_inv g1" using waits.reach_keeps [OF g1(1) assms(1)] .
  then obtain g2 where "conc_reach st g1 g2" "thread_done (g_threads g2 ! k)" "same_others k g1 g2"
    using thread_ends [of g1 k st] Suc.prems g1(2) by auto
  with g1 Suc.prems show ?case by (intro exI [of _ g2]) (auto simp: same_others_def less_Suc_eq)
qed auto

section \<open>Properties\<close>

lemma distinct_part:
  assumes "mset xs + m = mset_set A"
  shows "distinct xs" and "x \<in> set xs \<Longrightarrow> x \<notin># m"
proof -
  have one: "count (mset xs) x + count m x \<le> 1" for x
    using arg_cong [OF assms, of "\<lambda>m. count m x"] by (simp add: count_mset_set')
  have in_xs: "0 < count (mset xs) x" if "x \<in> set xs" for x using that by (simp only: count_greater_zero_iff set_mset_mset)
  show "distinct xs"
    unfolding distinct_count_atmost_1
  proof
    fix a
    show "count (mset xs) a = (if a \<in> set xs then 1 else 0)"
    proof (cases "a \<in> set xs")
      case True
      have "count (mset xs) a = 1" using one [of a] in_xs [OF True] by linarith
      then show ?thesis using True by simp
    qed (simp add: count_mset_0_iff)
  qed
  show "x \<notin># m" if "x \<in> set xs"
  proof -
    have "count m x = 0" using one [of x] in_xs [OF that] by linarith
    then show ?thesis by (simp add: not_in_iff)
  qed
qed

lemma mapped_member: "h \<in># mapped m \<longleftrightarrow> (\<exists>n. fmlookup m n = Some h)"
proof -
  have s: "set_mset (mapped m) = (\<lambda>n. the (fmlookup m n)) ` fset (fmdom m)" by (simp add: mapped_def)
  have "h \<in> (\<lambda>n. the (fmlookup m n)) ` fset (fmdom m)" if "fmlookup m n = Some h" for n
    by (rule image_eqI [of _ _ n]) (use that in \<open>simp_all add: fmdomI\<close>)
  moreover have "\<exists>n. fmlookup m n = Some h" if "h \<in> (\<lambda>n. the (fmlookup m n)) ` fset (fmdom m)"
    using that by (auto simp: fmlookup_dom_iff)
  ultimately show ?thesis unfolding s by blast
qed

text \<open>No thread is in the middle of a call of \<open>mount\<close> or \<open>drop\<close>.\<close>

definition quiet :: "'r conc \<Rightarrow> bool" where
  "quiet g \<longleftrightarrow> (\<forall>t\<in>set (g_threads g). th_pc t = Idle \<or> th_pc t = Panicked)"

lemma quiet_threads:
  assumes "quiet g"
  shows "of_threads pc_pending g = {#}" and "of_threads pc_new g = {#}"
proof -
  have none: "sum_list (map (\<lambda>t. mset (f (th_pc t))) ts) = {#}"
    if "\<forall>t\<in>set ts. th_pc t = Idle \<or> th_pc t = Panicked" "f Idle = []" "f Panicked = []" for f :: "pc \<Rightarrow> hid list" and ts
    using that by (induction ts) auto
  show "of_threads pc_pending g = {#}" "of_threads pc_new g = {#}"
    unfolding of_threads_def by (rule none; use assms in \<open>simp add: quiet_def\<close>)+
qed

lemma conc_reach_inv: "conc_reach st (conc_init r) g \<Longrightarrow> conc_inv g"
  by (rule conc.reach_keeps [OF _ conc_inv_init])

end
