(* ===== verification/MapRaces.thy ===== *)
theory MapRaces
  imports MapOps PipelineProps
begin

text \<open>
  What concurrent requests keep and what they can break: no stop channel is closed twice, a quiet keeper runs exactly its
  sets, requests can always end; and runs in which a request meets another one halfway.
\<close>

section \<open>Runs\<close>

text \<open>With the store of the examples a fresh mount comes to the lock of the map without a change but of its own place.\<close>

lemma to_thread_twice [simp]: "to_thread i p ts (to_thread i q us g) = to_thread i p ts g"
  by (simp add: to_thread_def)

lemma to_thread_comm: "i \<noteq> j \<Longrightarrow> to_thread i p ts (to_thread j q us g) = to_thread j q us (to_thread i p ts g)"
  by (simp add: to_thread_def list_update_swap)

lemma demo_mount:
  assumes at: "at_thread g i Idle (DoMount d True # ts)"
  shows "\<exists>s. conc_reach demo_store g (to_thread i (Installing d s) ts g)"
proof -
  obtain s keep where s: "mount_set d True (None, [], False) undefined undefined = (s, keep)" by fastforce
  have l: "conc_step demo_store g (to_thread i (Loading d True) ts g)" by (rule MountBegin [OF at]) simp
  have la: "at_thread (to_thread i (Loading d True) ts g) i (Loading d True) ts" by (rule at_to_thread(1) [OF at refl])
  have r: "conc_step demo_store (to_thread i (Loading d True) ts g) (to_thread i (Resetting d s keep) ts g)"
    using Load [OF la _ s] by (simp add: demo_store_def)
  have ra: "at_thread (to_thread i (Resetting d s keep) ts g) i (Resetting d s keep) ts" by (rule at_to_thread(1) [OF at refl])
  have n: "conc_step demo_store (to_thread i (Resetting d s keep) ts g) (to_thread i (Installing d s) ts g)"
    using Reset [OF ra, of demo_store "g_store g"] by (simp add: demo_store_def to_thread_def)
  show ?thesis using l r n by (meson converse_rtranclp_into_rtranclp r_into_rtranclp)
qed

abbreviation thread_at :: "pc \<Rightarrow> task list \<Rightarrow> thread" where
  "thread_at p ts \<equiv> \<lparr>th_pc = p, th_todo = ts\<rparr>"

definition demo_conc ::
  "(string, hid) fmap \<Rightarrow> cell list \<Rightarrow> hid list \<Rightarrow> hid list \<Rightarrow> hid set \<Rightarrow> thread list \<Rightarrow> u64 list conc" where
  "demo_conc sets heap closed started running ts =
     \<lparr>g_sets = sets, g_heap = heap, g_closed = closed, g_started = started, g_running = running, g_store = [], g_threads = ts\<rparr>"

lemmas demo_conc_defs = demo_conc_def at_thread_def to_thread_def install_def replaced_def renamed_at_def def_at_def

abbreviation demo_D :: set_def where "demo_D \<equiv> demo_def TypeString 2"

abbreviation demo_cell :: "sset \<Rightarrow> cell" where "demo_cell s \<equiv> \<lparr>ce_Def = demo_D, ce_Epoch = s_epoch s\<rparr>"

lemma demo_names [simp]: "d_Name demo_D = ''blocked''" "d_Active demo_D" "d_ID demo_D = ''7''"
  by (simp_all add: demo_def_def)

text \<open>The set is defined: the first holder is in the map, and its goroutines are not started yet.\<close>

lemma demo_installed:
  assumes "ts ! i = thread_at Idle (DoMount demo_D True # us)" and "i < length ts"
  shows "\<exists>s. conc_reach demo_store (demo_conc fmempty [] [] [] {} ts)
    (demo_conc (fmupd ''blocked'' 0 fmempty) [demo_cell s] [] [] {} (ts[i := thread_at (Stopping (Some 0) []) us]))"
proof -
  let ?g = "demo_conc fmempty [] [] [] {} ts"
  have "at_thread ?g i Idle (DoMount demo_D True # us)" using assms by (simp add: demo_conc_def at_thread_def)
  from demo_mount [OF this] obtain s where s: "conc_reach demo_store ?g (to_thread i (Installing demo_D s) us ?g)" by blast
  have "at_thread (to_thread i (Installing demo_D s) us ?g) i (Installing demo_D s) us"
    using assms by (simp add: demo_conc_def at_thread_def to_thread_def)
  from Install [OF this, of "[]" demo_store]
  have "conc_step demo_store (to_thread i (Installing demo_D s) us ?g)
    (demo_conc (fmupd ''blocked'' 0 fmempty) [demo_cell s] [] [] {} (ts[i := thread_at (Stopping (Some 0) []) us]))"
    by (simp add: demo_conc_defs)
  with s show ?thesis by (meson rtranclp.rtrancl_into_rtrancl)
qed

lemma demo_go:
  assumes "ts ! i = thread_at (Stopping (Some n) []) us" and "i < length ts"
  shows "conc_step demo_store (demo_conc m hp c st rn ts) (demo_conc m hp c (st @ [n]) (insert n rn) (ts[i := thread_at Idle us]))"
  using Go [of "demo_conc m hp c st rn ts" i n us demo_store] assms by (simp add: demo_conc_defs)

lemma demo_define: "define_tasks (Some demo_D) name = [DoMount demo_D True, DoEpoch name]" "define_tasks None name = [DoDrop name]"
  by (simp_all add: define_tasks_def)

lemma demo_spawn:
  "conc_step demo_store (demo_conc m hp c st rn ts) (demo_conc m hp c st rn (ts @ [thread_at Idle (define_tasks found name)]))"
  using Define [of demo_store "demo_conc m hp c st rn ts" found name] by (simp add: demo_conc_def)

lemma demo_two:
  "conc_reach demo_store (conc_init []) (demo_conc fmempty [] [] [] {}
     [thread_at Idle (define_tasks f n), thread_at Idle (define_tasks f' n')])"
proof -
  have "conc_init [] = demo_conc fmempty [] [] [] {} []" by (simp add: conc_init_def demo_conc_def)
  then show ?thesis
    using demo_spawn [of fmempty "[]" "[]" "[]" "{}" "[]" f n]
      demo_spawn [of fmempty "[]" "[]" "[]" "{}" "[thread_at Idle (define_tasks f n)]" f' n']
    by (simp add: converse_rtranclp_into_rtranclp)
qed

text \<open>
  Two requests define the same set. The second finds the first holder in the map before its goroutines were started, closes
  its channel, has nothing to wait for and starts its own; then the first request starts the goroutines of its holder.
\<close>

lemma demo_late:
  "\<exists>s s'. conc_reach demo_store (conc_init []) (demo_conc (fmupd ''blocked'' 1 (fmupd ''blocked'' 0 fmempty)) [demo_cell s, demo_cell s']
     [0] [1, 0] {0, 1} [thread_at Idle [DoEpoch ''blocked''], thread_at Idle [DoEpoch ''blocked'']])"
proof -
  let ?t = "define_tasks (Some demo_D) ''blocked''" and ?e = "[DoEpoch ''blocked'']"
  let ?m = "fmupd ''blocked'' 0 fmempty" and ?m' = "fmupd ''blocked'' 1 (fmupd ''blocked'' 0 fmempty)"
  let ?F = "thread_at (Stopping (Some 0) []) ?e"
  obtain s where s: "conc_reach demo_store (demo_conc fmempty [] [] [] {} [thread_at Idle ?t, thread_at Idle ?t])
    (demo_conc ?m [demo_cell s] [] [] {} [?F, thread_at Idle ?t])"
    using demo_installed [of "[thread_at Idle ?t, thread_at Idle ?t]" 0 ?e] by (auto simp: demo_define)
  let ?g = "demo_conc ?m [demo_cell s] [] [] {} [?F, thread_at Idle ?t]"
  obtain s' where s': "conc_reach demo_store ?g (to_thread 1 (Installing demo_D s') ?e ?g)"
    using demo_mount [of ?g 1 demo_D ?e] by (auto simp: demo_conc_def at_thread_def demo_define)
  let ?C = "\<lambda>c st rn p. demo_conc ?m' [demo_cell s, demo_cell s'] c st rn [?F, thread_at p ?e]"
  have install: "conc_step demo_store (to_thread 1 (Installing demo_D s') ?e ?g) (?C [] [] {} (Stopping (Some 1) [(0, None)]))"
    using Install [of "to_thread 1 (Installing demo_D s') ?e ?g" 1 demo_D s' ?e "[''blocked'']" demo_store]
    by (simp add: demo_conc_defs)
  have close: "conc_step demo_store (?C [] [] {} (Stopping (Some 1) [(0, None)])) (?C [0] [] {} (Waiting (Some 1) 0 None []))"
    using Close [of "?C [] [] {} (Stopping (Some 1) [(0, None)])" 1 "Some 1" 0 None "[]" ?e demo_store] by (simp add: demo_conc_defs)
  have wait: "conc_step demo_store (?C [0] [] {} (Waiting (Some 1) 0 None [])) (?C [0] [] {} (Stopping (Some 1) []))"
    using Wait [of "?C [0] [] {} (Waiting (Some 1) 0 None [])" 1 "Some 1" 0 None "[]" ?e demo_store] by (simp add: demo_conc_defs)
  have go: "conc_step demo_store (?C [0] [] {} (Stopping (Some 1) [])) (?C [0] [1] {1} Idle)"
    using demo_go [of "[?F, thread_at (Stopping (Some 1) []) ?e]" 1 1 ?e ?m' "[demo_cell s, demo_cell s']" "[0]" "[]" "{}"] by simp
  have late: "conc_step demo_store (?C [0] [1] {1} Idle)
    (demo_conc ?m' [demo_cell s, demo_cell s'] [0] [1, 0] {0, 1} [thread_at Idle ?e, thread_at Idle ?e])"
    using demo_go [of "[?F, thread_at Idle ?e]" 0 0 ?e ?m' "[demo_cell s, demo_cell s']" "[0]" "[1]" "{1}"] by simp
  have "conc_reach demo_store (conc_init []) (?C [] [] {} (Stopping (Some 1) [(0, None)]))"
    using demo_two [of "Some demo_D" "''blocked''" "Some demo_D" "''blocked''"] s s' install
    by (meson rtranclp.rtrancl_into_rtrancl rtranclp_trans)
  then show ?thesis using close wait go late by (meson rtranclp.rtrancl_into_rtrancl)
qed

section \<open>Properties\<close>

text \<open>
  C21: No stop channel is closed twice. However the requests interleave, the \<open>stop\<close> channel of a holder is closed at most
  once, so \<open>close\<close> never panics, and its goroutines are started at most once; a holder in the map is not closed.
\<close>

theorem stop_closed_once:
  assumes "conc_reach st (conc_init r) g"
  shows "distinct (g_closed g) \<and> distinct (g_started g)
    \<and> (\<forall>n h. fmlookup (g_sets g) n = Some h \<longrightarrow> h \<notin> set (g_closed g))"
proof -
  have inv: "conc_inv g" by (rule conc_reach_inv [OF assms])
  then have c: "mset (g_closed g) + (of_threads pc_pending g + mapped (g_sets g)) = mset_set {..<length (g_heap g)}"
    by (simp add: conc_inv_def add.assoc)
  have "distinct (g_started g)" using inv distinct_part(1) unfolding conc_inv_def by blast
  moreover have "h \<notin> set (g_closed g)" if "fmlookup (g_sets g) n = Some h" for n h
    using distinct_part(2) [OF c] mapped_member [of h "g_sets g"] that by auto
  ultimately show ?thesis using distinct_part(1) [OF c] by blast
qed

theorem stop_closed_once_witness:
  "\<exists>g. conc_reach demo_store (conc_init []) g \<and> g_closed g = [0] \<and> distinct (g_closed g) \<and> distinct (g_started g)"
proof -
  obtain s s' where "conc_reach demo_store (conc_init []) (demo_conc (fmupd ''blocked'' 1 (fmupd ''blocked'' 0 fmempty)) [demo_cell s, demo_cell s']
     [0] [1, 0] {0, 1} [thread_at Idle [DoEpoch ''blocked''], thread_at Idle [DoEpoch ''blocked'']])" (is "conc_reach _ _ ?g")
    using demo_late by blast
  with stop_closed_once [OF this] show ?thesis by (intro exI [of _ ?g]) (simp add: demo_conc_def)
qed

text \<open>
  C22: A quiet keeper runs exactly its sets. When no request is in the middle of a call, every holder ever made is in the map
  and its goroutines run, or it is out of the map and was told to stop: none is lost and none runs on unasked. In every state
  a holder is under the name of its definition and no identifier is under two names.
\<close>

theorem quiet_keeper_runs_its_sets:
  assumes "conc_reach st (conc_init r) g"
  shows "map_ok g \<and> (quiet g \<longrightarrow> (\<forall>h<length (g_heap g).
      if \<exists>n. fmlookup (g_sets g) n = Some h then h \<in> g_running g \<and> h \<notin> set (g_closed g) else h \<in> set (g_closed g)))"
proof (intro conjI impI allI)
  have inv: "conc_inv g" by (rule conc_reach_inv [OF assms])
  then show "map_ok g" by (simp add: conc_inv_def)
  fix h assume q: "quiet g" and h: "h < length (g_heap g)"
  have c: "mset (g_closed g) + mapped (g_sets g) = mset_set {..<length (g_heap g)}"
    and s: "mset (g_started g) = mset_set {..<length (g_heap g)}"
    using inv quiet_threads [OF q] by (simp_all add: conc_inv_def)
  have m: "h \<in> set (g_closed g) \<or> h \<in># mapped (g_sets g)" and "h \<in> set (g_started g)"
    using arg_cong [OF c, of set_mset] arg_cong [OF s, of set_mset] h by auto
  then have r: "h \<notin> set (g_closed g) \<Longrightarrow> h \<in> g_running g" using inv by (simp add: conc_inv_def)
  show "if \<exists>n. fmlookup (g_sets g) n = Some h then h \<in> g_running g \<and> h \<notin> set (g_closed g) else h \<in> set (g_closed g)"
    using m r distinct_part(2) [OF c, of h] by (auto simp: mapped_member)
qed

theorem quiet_keeper_runs_its_sets_witness:
  "\<exists>g. conc_reach demo_store (conc_init []) g \<and> length (g_heap g) = 2 \<and> 0 \<in> set (g_closed g) \<and> 1 \<in> g_running g"
proof -
  obtain s s' where "conc_reach demo_store (conc_init []) (demo_conc (fmupd ''blocked'' 1 (fmupd ''blocked'' 0 fmempty)) [demo_cell s, demo_cell s']
     [0] [1, 0] {0, 1} [thread_at Idle [DoEpoch ''blocked''], thread_at Idle [DoEpoch ''blocked'']])" (is "conc_reach _ _ ?g")
    using demo_late by blast
  then have r: "conc_reach demo_store (conc_init []) ?g" .
  have g: "quiet ?g" "\<exists>n. fmlookup (g_sets ?g) n = Some 1" "\<not> (\<exists>n. fmlookup (g_sets ?g) n = Some 0)" "length (g_heap ?g) = 2"
    by (auto simp: quiet_def demo_conc_def)
  note all = mp [OF conjunct2 [OF quiet_keeper_runs_its_sets [OF r]] g(1), THEN spec, THEN mp]
  have l: "0 < length (g_heap ?g)" "1 < length (g_heap ?g)" by (simp_all add: demo_conc_def)
  have "0 \<in> set (g_closed ?g)" using all [OF l(1)] unfolding if_not_P [OF g(3)] .
  moreover have "1 \<in> g_running ?g" using all [OF l(2)] unfolding if_P [OF g(2)] by blast
  ultimately show ?thesis using r g(4) by (intro exI [of _ ?g]) simp
qed

text \<open>
  C23: Requests end. From every state that concurrent requests can reach, whatever the store answers, there is a way for all
  requests to come to their end without a new one, where a request has returned or has met the nil holder of \<open>Define\<close>
  (\<open>thread_done\<close>); none is left waiting for a holder, and the state they leave is quiet.
\<close>

theorem requests_can_end:
  assumes "conc_reach st (conc_init r) g"
  shows "\<exists>g'. conc_reach st g g' \<and> length (g_threads g') = length (g_threads g)
    \<and> (\<forall>t\<in>set (g_threads g'). thread_done t) \<and> quiet g'"
proof -
  have "wait_inv (conc_init r)" by (simp add: wait_inv_def conc_init_def)
  then have "wait_inv g" by (rule waits.reach_keeps [OF assms])
  then obtain g' where g': "conc_reach st g g'" "length (g_threads g') = length (g_threads g)"
    "\<forall>i<length (g_threads g). thread_done (g_threads g' ! i)"
    using all_threads_end [of g "length (g_threads g)" st] by auto
  then have "\<forall>t\<in>set (g_threads g'). thread_done t" by (auto simp: in_set_conv_nth)
  then show ?thesis using g' by (auto simp: thread_done_def quiet_def)
qed

theorem requests_can_end_witness:
  "\<exists>g g'. conc_reach demo_store (conc_init []) g \<and> length (g_threads g) = 2 \<and> conc_reach demo_store g g'
     \<and> (\<forall>t\<in>set (g_threads g'). thread_done t)"
proof -
  have r: "conc_reach demo_store (conc_init []) (demo_conc fmempty [] [] [] {}
     [thread_at Idle (define_tasks (Some demo_D) ''blocked''), thread_at Idle (define_tasks None ''blocked'')])" (is "conc_reach _ _ ?g")
    by (rule demo_two)
  from requests_can_end [OF r] obtain g' where "conc_reach demo_store ?g g'" "\<forall>t\<in>set (g_threads g'). thread_done t" by blast
  with r show ?thesis by (intro exI [of _ ?g] exI [of _ g']) (simp add: demo_conc_def)
qed

section \<open>Races\<close>

text \<open>
  \<open>Define\<close> reads the epoch of the holder it finds under the name after \<open>mount\<close> has returned; a second request that drops the
  set in between leaves none, and the nil pointer ends the process.
\<close>

theorem Define_can_panic:
  "\<exists>g. conc_reach demo_store (conc_init []) g \<and> th_pc (g_threads g ! 0) = Panicked"
proof -
  let ?T = "[thread_at Idle (define_tasks (Some demo_D) ''blocked''), thread_at Idle (define_tasks None ''blocked'')]"
  let ?m = "fmupd ''blocked'' 0 fmempty" and ?e = "[DoEpoch ''blocked'']" and ?d = "[DoDrop ''blocked'']"
  obtain s where s: "conc_reach demo_store (demo_conc fmempty [] [] [] {} ?T)
    (demo_conc ?m [demo_cell s] [] [] {} [thread_at (Stopping (Some 0) []) ?e, thread_at Idle ?d])"
    using demo_installed [of ?T 0 ?e] by (auto simp: demo_define)
  have go: "conc_step demo_store (demo_conc ?m [demo_cell s] [] [] {} [thread_at (Stopping (Some 0) []) ?e, thread_at Idle ?d])
    (demo_conc ?m [demo_cell s] [] [0] {0} [thread_at Idle ?e, thread_at Idle ?d])"
    using demo_go [of "[thread_at (Stopping (Some 0) []) ?e, thread_at Idle ?d]" 0 0 ?e ?m "[demo_cell s]" "[]" "[]" "{}"] by simp
  have take: "conc_step demo_store (demo_conc ?m [demo_cell s] [] [0] {0} [thread_at Idle ?e, thread_at Idle ?d])
    (demo_conc (fmdrop ''blocked'' ?m) [demo_cell s] [] [0] {0} [thread_at Idle ?e, thread_at (Stopping None [(0, Some ''blocked'')]) []])"
    using DropTake [of "demo_conc ?m [demo_cell s] [] [0] {0} [thread_at Idle ?e, thread_at Idle ?d]" 1 "''blocked''" "[]" 0 demo_store]
    by (simp add: demo_conc_defs)
  have panic: "conc_step demo_store
    (demo_conc (fmdrop ''blocked'' ?m) [demo_cell s] [] [0] {0} [thread_at Idle ?e, thread_at (Stopping None [(0, Some ''blocked'')]) []])
    (demo_conc (fmdrop ''blocked'' ?m) [demo_cell s] [] [0] {0} [thread_at Panicked [], thread_at (Stopping None [(0, Some ''blocked'')]) []])"
    using EpochPanics [of "demo_conc (fmdrop ''blocked'' ?m) [demo_cell s] [] [0] {0} [thread_at Idle ?e,
      thread_at (Stopping None [(0, Some ''blocked'')]) []]" 0 "''blocked''" "[]" demo_store]
    by (simp add: demo_conc_defs)
  have "conc_reach demo_store (conc_init [])
    (demo_conc (fmdrop ''blocked'' ?m) [demo_cell s] [] [0] {0} [thread_at Panicked [], thread_at (Stopping None [(0, Some ''blocked'')]) []])"
    using demo_two [of "Some demo_D" "''blocked''" None "''blocked''"] s go take panic
    by (meson rtranclp.rtrancl_into_rtrancl rtranclp_trans)
  then show ?thesis by (intro exI conjI) (assumption, simp add: demo_conc_def)
qed

text \<open>
  A holder can be started after it was told to stop and after its successor was started: then the goroutines of both run for
  the same set, until those of the first meet the closed channel.
\<close>

theorem replaced_holder_can_start:
  "\<exists>g. conc_reach demo_store (conc_init []) g \<and> {0, 1} \<subseteq> g_running g \<and> 0 \<in> set (g_closed g)
     \<and> fmlookup (g_sets g) ''blocked'' = Some 1 \<and> def_at g 0 = def_at g 1"
proof -
  obtain s s' where "conc_reach demo_store (conc_init []) (demo_conc (fmupd ''blocked'' 1 (fmupd ''blocked'' 0 fmempty)) [demo_cell s, demo_cell s']
     [0] [1, 0] {0, 1} [thread_at Idle [DoEpoch ''blocked''], thread_at Idle [DoEpoch ''blocked'']])" (is "conc_reach _ _ ?g")
    using demo_late by blast
  then show ?thesis by (intro exI [of _ ?g]) (simp add: demo_conc_def def_at_def)
qed

text \<open>
  \<open>Reload\<close> drops what it did not see when it loaded the definitions: a set that was added and defined since then, and answered
  for, is taken out of the map again and its stored state is dropped.
\<close>

theorem Reload_drops_new_set:
  "\<exists>g g'. conc_reach demo_store (conc_init []) g \<and> g_threads g ! 1 = thread_at Idle [] \<and> fmlookup (g_sets g) ''blocked'' = Some 0
     \<and> conc_reach demo_store g g' \<and> fmlookup (g_sets g') ''blocked'' = None \<and> length (g_threads g') = 2"
proof -
  let ?R = "\<lambda>ts. thread_at Idle ts" and ?e = "[DoEpoch ''blocked'']" and ?m = "fmupd ''blocked'' 0 fmempty"
  let ?t = "define_tasks (Some demo_D) ''blocked''"
  have init: "conc_init [] = demo_conc fmempty [] [] [] {} []" by (simp add: conc_init_def demo_conc_def)
  have first: "conc_step demo_store (demo_conc fmempty [] [] [] {} []) (demo_conc fmempty [] [] [] {} [?R [DoGone []]])"
    using Reload [of demo_store "demo_conc fmempty [] [] [] {} []" "[]"] by (simp add: demo_conc_def reload_tasks_def)
  have second: "conc_step demo_store (demo_conc fmempty [] [] [] {} [?R [DoGone []]]) (demo_conc fmempty [] [] [] {} [?R [DoGone []], ?R ?t])"
    using demo_spawn [of fmempty "[]" "[]" "[]" "{}" "[?R [DoGone []]]"] by simp
  have start: "conc_reach demo_store (conc_init []) (demo_conc fmempty [] [] [] {} [?R [DoGone []], ?R ?t])"
    unfolding init by (rule rtranclp.rtrancl_into_rtrancl, rule r_into_rtranclp, rule first, rule second)
  obtain s where s: "conc_reach demo_store (demo_conc fmempty [] [] [] {} [?R [DoGone []], ?R ?t])
    (demo_conc ?m [demo_cell s] [] [] {} [?R [DoGone []], thread_at (Stopping (Some 0) []) ?e])"
    using demo_installed [of "[?R [DoGone []], ?R ?t]" 1 ?e] by (auto simp: demo_define)
  let ?C = "\<lambda>m p ts us. demo_conc m [demo_cell s] [] [0] {0} [thread_at p ts, ?R us]"
  have go: "conc_step demo_store (demo_conc ?m [demo_cell s] [] [] {} [?R [DoGone []], thread_at (Stopping (Some 0) []) ?e]) (?C ?m Idle [DoGone []] ?e)"
    using demo_go [of "[?R [DoGone []], thread_at (Stopping (Some 0) []) ?e]" 1 0 ?e ?m "[demo_cell s]" "[]" "[]" "{}"] by simp
  have reply: "conc_step demo_store (?C ?m Idle [DoGone []] ?e) (?C ?m Idle [DoGone []] [])"
    using Epoch [of "?C ?m Idle [DoGone []] ?e" 1 "''blocked''" "[]" 0 demo_store] by (simp add: demo_conc_defs)
  have gone: "conc_step demo_store (?C ?m Idle [DoGone []] []) (?C ?m Idle [DoDrop ''blocked''] [])"
    using Gone [of "?C ?m Idle [DoGone []] []" 0 "[]" "[]" "[''blocked'']" demo_store] by (simp add: demo_conc_defs)
  have take: "conc_step demo_store (?C ?m Idle [DoDrop ''blocked''] [])
    (?C (fmdrop ''blocked'' ?m) (Stopping None [(0, Some ''blocked'')]) [] [])"
    using DropTake [of "?C ?m Idle [DoDrop ''blocked''] []" 0 "''blocked''" "[]" 0 demo_store] by (simp add: demo_conc_defs)
  have "conc_reach demo_store (conc_init []) (?C ?m Idle [DoGone []] [])"
    using start s go reply by (meson rtranclp.rtrancl_into_rtrancl rtranclp_trans)
  moreover have "conc_reach demo_store (?C ?m Idle [DoGone []] []) (?C (fmdrop ''blocked'' ?m) (Stopping None [(0, Some ''blocked'')]) [] [])"
    using gone take by (meson converse_rtranclp_into_rtranclp r_into_rtranclp)
  ultimately show ?thesis
    by (intro exI [of _ "?C ?m Idle [DoGone []] []"] exI [of _ "?C (fmdrop ''blocked'' ?m) (Stopping None [(0, Some ''blocked'')]) [] []"])
      (simp add: demo_conc_def)
qed

end
