(* ===== verification/MapSeq.thy ===== *)
theory MapSeq
  imports MapRaces
begin

text \<open>
  The threads of \<open>MapOps\<close> and the functions of \<open>KeeperSets\<close>: a request that meets no other one leaves the map and the store as
  the sequential function of the same name does, and a \<open>Define\<close> alone never meets the nil holder.
\<close>

section \<open>The same map\<close>

definition cell_of :: "holder \<Rightarrow> cell" where
  "cell_of h = \<lparr>ce_Def = h_Def h, ce_Epoch = s_epoch (h_s h)\<rparr>"

definition same_map :: "keeper \<times> 'r \<Rightarrow> 'r conc \<Rightarrow> bool" where
  "same_map kr g \<longleftrightarrow> g_store g = snd kr
     \<and> (\<forall>n. map_option cell_of (fmlookup (k_sets (fst kr)) n) = map_option ((!) (g_heap g)) (fmlookup (g_sets g) n))
     \<and> (\<forall>n h. fmlookup (g_sets g) n = Some h \<longrightarrow> h < length (g_heap g))"

lemma same_map_lookup:
  assumes "same_map (k, r) g"
  shows "fmlookup (g_sets g) n = None \<Longrightarrow> fmlookup (k_sets k) n = None"
    and "fmlookup (g_sets g) n = Some h \<Longrightarrow> \<exists>x. fmlookup (k_sets k) n = Some x \<and> g_heap g ! h = cell_of x \<and> h < length (g_heap g)"
proof -
  have "map_option cell_of (fmlookup (k_sets k) n) = map_option ((!) (g_heap g)) (fmlookup (g_sets g) n)"
    using assms unfolding same_map_def by simp
  then show "fmlookup (g_sets g) n = None \<Longrightarrow> fmlookup (k_sets k) n = None"
    and "fmlookup (g_sets g) n = Some h \<Longrightarrow> \<exists>x. fmlookup (k_sets k) n = Some x \<and> g_heap g ! h = cell_of x \<and> h < length (g_heap g)"
    using assms by (cases "fmlookup (k_sets k) n"; auto simp: same_map_def)+
qed

lemma same_map_dom: "same_map (k, r) g \<Longrightarrow> fset (fmdom (g_sets g)) = fset (fmdom (k_sets k))"
  using same_map_lookup [of k r g] by (auto simp: fmlookup_dom_iff) (metis not_Some_eq)+

lemma same_map_mounted: "same_map (k, r) g \<Longrightarrow> mounted_at g d = mounted (k_sets k) d"
  using same_map_lookup [of k r g "d_Name d"]
  by (cases "fmlookup (g_sets g) (d_Name d)") (auto simp: mounted_at_def mounted_def def_at_def cell_of_def)

lemma same_map_threads [simp]:
  "same_map kr (to_thread i p ts g) = same_map kr g"
  "same_map kr (g\<lparr>g_closed := c\<rparr>) = same_map kr g" "same_map kr (g\<lparr>g_running := rs\<rparr>) = same_map kr g"
  "same_map kr (g\<lparr>g_started := ss\<rparr>) = same_map kr g"
  by (simp_all add: same_map_def)

lemma same_map_store [simp]: "same_map (k, r') (g\<lparr>g_store := r'\<rparr>) \<longleftrightarrow> same_map (k, g_store g) g"
  by (simp add: same_map_def)

section \<open>Requests in sequence\<close>

text \<open>The tasks of a request with the functions of \<open>KeeperSets\<close>; the flag says that \<open>Define\<close> found no holder at its end.\<close>

inductive seq_run :: "'r store \<Rightarrow> task list \<Rightarrow> keeper \<times> 'r \<Rightarrow> (keeper \<times> 'r) \<times> bool \<Rightarrow> bool" for st where
  SeqEnd: "seq_run st [] kr (kr, False)"
| SeqMount:
    "mount st d fresh w ord kr = (kr', ok) \<Longrightarrow> reads_map ord \<Longrightarrow> seq_run st (if ok then ts else []) kr' e \<Longrightarrow>
     seq_run st (DoMount d fresh # ts) kr e"
| SeqDrop: "seq_run st ts (keeper_drop st name kr) e \<Longrightarrow> seq_run st (DoDrop name # ts) kr e"
| SeqGone:
    "map_order (k_sets (fst kr)) order \<Longrightarrow> seq_run st (map DoDrop (filter (\<lambda>n. n \<notin> set seen) order) @ ts) kr e \<Longrightarrow>
     seq_run st (DoGone seen # ts) kr e"
| SeqEpoch: "fmlookup (k_sets (fst kr)) name \<noteq> None \<Longrightarrow> seq_run st ts kr e \<Longrightarrow> seq_run st (DoEpoch name # ts) kr e"
| SeqPanic: "fmlookup (k_sets (fst kr)) name = None \<Longrightarrow> seq_run st (DoEpoch name # ts) kr (kr, True)"

inductive_cases seq_run_Nil [elim!]: "seq_run st [] kr e"
inductive_cases seq_run_mount: "seq_run st (DoMount d fresh # ts) kr e"
inductive_cases seq_run_drop: "seq_run st (DoDrop name # ts) kr e"
inductive_cases seq_run_epoch: "seq_run st (DoEpoch name # ts) kr e"

lemma map_order_ex: "\<exists>order. map_order m order"
  using finite_distinct_list [of "fset (fmdom m)"] by (auto simp: map_order_def)

text \<open>A function that reads maps and gives one of them in a chosen order.\<close>

lemma reads_map_at:
  assumes "map_order m order"
  obtains ord where "reads_map ord" and "ord m = order"
proof -
  have "reads_map (\<lambda>m'. if m' = m then order else SOME l. map_order m' l)"
    using assms by (auto simp: reads_map_def intro: someI_ex [OF map_order_ex])
  then show thesis by (rule that) simp
qed

text \<open>What is still to come where a thread stands.\<close>

definition drops :: "'r store \<Rightarrow> (hid \<times> string option) list \<Rightarrow> 'r \<Rightarrow> 'r" where
  "drops st hs r = fold (\<lambda>(h, dr) r. case dr of None \<Rightarrow> r | Some name \<Rightarrow> fst (st_Drop st name r)) hs r"

definition after_reset :: "'r store \<Rightarrow> set_def \<Rightarrow> sset \<Rightarrow> task list \<Rightarrow> keeper \<times> 'r \<Rightarrow> (keeper \<times> 'r) \<times> bool \<Rightarrow> bool" where
  "after_reset st d s ts kr e \<longleftrightarrow>
     (\<exists>order. let sets = fmupd (d_Name d) (publishTick (new_holder s)) (k_sets (fst kr)); ren = renamed_sets d order sets
        in map_order sets order
           \<and> seq_run st ts ((fst kr)\<lparr>k_sets := fold fmdrop ren sets\<rparr>, fold (drop_state st sets) ren (snd kr)) e)"

definition after_load :: "'r store \<Rightarrow> set_def \<Rightarrow> sset \<Rightarrow> bool \<Rightarrow> task list \<Rightarrow> keeper \<times> 'r \<Rightarrow> (keeper \<times> 'r) \<times> bool \<Rightarrow> bool" where
  "after_load st d s keep ts kr e =
     (case st_Reset st (d_Name d) (meta_of d s) keep (snd kr) of (r, ok) \<Rightarrow>
        if ok then after_reset st d s ts (fst kr, r) e else e = ((fst kr, r), False))"

fun outcome :: "'r store \<Rightarrow> pc \<Rightarrow> task list \<Rightarrow> keeper \<times> 'r \<Rightarrow> (keeper \<times> 'r) \<times> bool \<Rightarrow> bool" where
  "outcome st Idle ts kr e = seq_run st ts kr e"
| "outcome st (Loading d fresh) ts kr e =
     (case st_Load st (d_Name d) (snd kr) of
        None \<Rightarrow> e = (kr, False)
      | Some out \<Rightarrow> \<exists>w w' s keep. mount_set d fresh out w w' = (s, keep) \<and> after_load st d s keep ts kr e)"
| "outcome st (Resetting d s keep) ts kr e = after_load st d s keep ts kr e"
| "outcome st (Installing d s) ts kr e = after_reset st d s ts kr e"
| "outcome st (Stopping n hs) ts kr e = seq_run st ts (fst kr, drops st hs (snd kr)) e"
| "outcome st (Waiting n h dr hs) ts kr e = seq_run st ts (fst kr, drops st ((h, dr) # hs) (snd kr)) e"
| "outcome st (Dropping n name hs) ts kr e = seq_run st ts (fst kr, drops st hs (fst (st_Drop st name (snd kr)))) e"
| "outcome st Panicked ts kr e = (e = (kr, True))"

fun pc_def_ok :: "pc \<Rightarrow> bool" where
  "pc_def_ok (Resetting d s keep) = (s_Def s = d)"
| "pc_def_ok (Installing d s) = (s_Def s = d)"
| "pc_def_ok _ = True"

section \<open>Calls of mount and drop\<close>

lemma loading_is_mount:
  assumes new: "fresh \<or> \<not> mounted (k_sets k) d" and o: "outcome st (Loading d fresh) ts (k, r) e"
  shows "seq_run st (DoMount d fresh # ts) (k, r) e"
proof (cases "st_Load st (d_Name d) r")
  case None
  obtain ord where ord: "reads_map ord" by (rule reads_map_at [of fmempty "[]"]) (simp_all add: map_order_def)
  have "mount st d fresh w ord (k, r) = ((k, r), False)" for w using None new by (auto simp: mount_def)
  then show ?thesis using o None ord by (auto intro!: SeqMount SeqEnd)
next
  case (Some out)
  then obtain w w' s keep where s: "mount_set d fresh out w w' = (s, keep)" and a: "after_load st d s keep ts (k, r) e"
    using o by auto
  obtain r' ok where reset: "st_Reset st (d_Name d) (meta_of d s) keep r = (r', ok)" by fastforce
  let ?sets = "fmupd (d_Name d) (publishTick (new_holder s)) (k_sets k)"
  obtain order where order: "map_order ?sets order" and run: "ok \<Longrightarrow> seq_run st ts (k\<lparr>k_sets := fold fmdrop (renamed_sets d order ?sets) ?sets\<rparr>,
      fold (drop_state st ?sets) (renamed_sets d order ?sets) r') e"
    using a reset map_order_ex [of ?sets] by (cases ok) (auto simp: after_load_def after_reset_def Let_def)
  obtain ord where ord: "reads_map ord" "ord ?sets = order" by (rule reads_map_at [OF order])
  have "mount st d fresh (w, w') ord (k, r)
    = (if ok then ((k\<lparr>k_sets := fold fmdrop (renamed_sets d order ?sets) ?sets\<rparr>,
        fold (drop_state st ?sets) (renamed_sets d order ?sets) r'), True) else ((k, r'), False))"
    using new Some s reset ord(2) by (auto simp: mount_def Let_def)
  then show ?thesis using run a reset ord(1)
    by (cases ok) (auto simp: after_load_def intro!: SeqMount SeqEnd)
qed

lemma skip_is_mount:
  assumes "\<not> fresh" and "mounted (k_sets k) d" and "seq_run st ts (k, r) e"
  shows "seq_run st (DoMount d fresh # ts) (k, r) e"
proof -
  obtain ord where "reads_map ord" by (rule reads_map_at [of fmempty "[]"]) (simp_all add: map_order_def)
  moreover have "mount st d fresh undefined ord (k, r) = ((k, r), True)" using assms by (simp add: mount_def)
  ultimately show ?thesis using assms(3) by (intro SeqMount [where ok = True]) auto
qed

lemma drops_Cons [simp]:
  "drops st [] r = r" "drops st ((h, None) # hs) r = drops st hs r"
  "drops st ((h, Some name) # hs) r = drops st hs (fst (st_Drop st name r))"
  by (simp_all add: drops_def)

lemma same_map_renamed:
  assumes same: "same_map (k, r) g" and order: "set order = fset (fmdom (g_sets g))"
  shows "renamed_sets d (order @ filter (\<lambda>n. n \<notin> set order) [d_Name d]) (fmupd (d_Name d) x (k_sets k)) = renamed_at g d order"
proof -
  have "(case fmlookup (k_sets k) n of None \<Rightarrow> False | Some h \<Rightarrow> d_ID (h_Def h) = d_ID d)
    = (case fmlookup (g_sets g) n of None \<Rightarrow> False | Some h \<Rightarrow> d_ID (def_at g h) = d_ID d)" for n
    using same_map_lookup [OF same, of n] by (cases "fmlookup (g_sets g) n") (auto simp: def_at_def cell_of_def)
  then show ?thesis by (auto simp: renamed_sets_def renamed_at_def intro!: filter_cong)
qed

lemma drops_replaced:
  assumes same: "same_map (k, r) g" and order: "set order = fset (fmdom (g_sets g))"
  shows "drops st (replaced g d (renamed_at g d order)) x
    = fold (drop_state st (fmupd (d_Name d) h (k_sets k))) (renamed_at g d order) x"
proof -
  let ?ren = "renamed_at g d order" and ?sets = "fmupd (d_Name d) h (k_sets k)"
  have old: "drops st (map (\<lambda>n. let h = the (fmlookup (g_sets g) n) in (h, Some (d_Name (def_at g h)))) ns) y
    = fold (drop_state st ?sets) ns y" if "set ns \<subseteq> set ?ren" for ns y
    using that
  proof (induction ns arbitrary: y)
    case (Cons n ns)
    then obtain i where i: "fmlookup (g_sets g) n = Some i" "n \<noteq> d_Name d" by (auto simp: renamed_at_def split: option.splits)
    with same_map_lookup(2) [OF same i(1)] Cons show ?case by (auto simp: Let_def drop_state_def def_at_def cell_of_def)
  qed simp
  then show ?thesis by (auto simp: replaced_def split: option.splits)
qed

lemma same_map_install:
  assumes same: "same_map (k, r) g" and s: "s_Def s = d"
  shows "same_map (k\<lparr>k_sets := fold fmdrop ren (fmupd (d_Name d) (publishTick (new_holder s)) (k_sets k))\<rparr>, r) (install d s ren g)"
proof -
  have "map_option cell_of (fmlookup (k_sets k) n) = map_option ((!) (g_heap (install d s ren g))) (fmlookup (g_sets g) n)" for n
    using same_map_lookup [OF same, of n] by (cases "fmlookup (g_sets g) n") (auto simp: nth_append)
  moreover have "cell_of (publishTick (new_holder s)) = \<lparr>ce_Def = d, ce_Epoch = s_epoch s\<rparr>"
    by (simp add: cell_of_def new_holder_def s)
  ultimately show ?thesis
    using same unfolding same_map_def by (auto simp: install_lookup fold_fmdrop_lookup install_def intro: less_SucI)
qed

lemma install_is_mount:
  assumes same: "same_map (k, r) g" and s: "s_Def s = d" and order: "distinct order" "set order = fset (fmdom (g_sets g))"
  shows "\<exists>kr. same_map kr (install d s (renamed_at g d order) g)
    \<and> (\<forall>e. outcome st (Stopping n (replaced g d (renamed_at g d order))) ts kr e \<longrightarrow> after_reset st d s ts (k, r) e)"
proof -
  let ?ren = "renamed_at g d order" and ?h = "publishTick (new_holder s)"
  let ?sets = "fmupd (d_Name d) ?h (k_sets k)" and ?order = "order @ filter (\<lambda>n. n \<notin> set order) [d_Name d]"
  have o: "map_order ?sets ?order" using order same_map_dom [OF same] by (auto simp: map_order_def)
  have "after_reset st d s ts (k, r) e" if "seq_run st ts (k\<lparr>k_sets := fold fmdrop ?ren ?sets\<rparr>, drops st (replaced g d ?ren) r) e" for e
    unfolding after_reset_def Let_def
    by (rule exI [of _ ?order])
      (use that o same_map_renamed [OF same order(2), of d ?h] drops_replaced [OF same order(2), of st d r ?h] in simp)
  then show ?thesis using same_map_install [OF same s, of ?ren] by (intro exI conjI) auto
qed

lemma take_is_drop:
  assumes same: "same_map (k, r) g" and h: "fmlookup (g_sets g) name = Some h"
  shows "\<exists>kr. same_map kr (g\<lparr>g_sets := fmdrop name (g_sets g)\<rparr>)
    \<and> (\<forall>e. outcome st (Stopping n [(h, Some name)]) ts kr e \<longrightarrow> seq_run st (DoDrop name # ts) (k, r) e)"
proof -
  obtain x where x: "fmlookup (k_sets k) name = Some x" using same_map_lookup(2) [OF same h] by blast
  have "same_map (k\<lparr>k_sets := fmdrop name (k_sets k)\<rparr>, r) (g\<lparr>g_sets := fmdrop name (g_sets g)\<rparr>)"
    using same by (auto simp: same_map_def)
  then show ?thesis using x by (intro exI conjI) (auto simp: keeper_drop_def intro!: SeqDrop)
qed

section \<open>A request alone\<close>

text \<open>
  No request comes, the other threads are done, and the holders return when they are told to but leave the store alone.
\<close>

definition others_done :: "nat \<Rightarrow> 'r conc \<Rightarrow> bool" where
  "others_done i g \<longleftrightarrow> (\<forall>j<length (g_threads g). j \<noteq> i \<longrightarrow> thread_done (g_threads g ! j))"

definition alone_step :: "'r store \<Rightarrow> 'r conc \<Rightarrow> 'r conc \<Rightarrow> bool" where
  "alone_step st g g' \<longleftrightarrow> conc_step st g g' \<and> length (g_threads g') = length (g_threads g)
     \<and> (g_threads g' = g_threads g \<longrightarrow> g_store g' = g_store g)"

text \<open>
  The thread stands where what is still to come is the rest of a sequential request: every end from there is an end of the
  request from its start.
\<close>

definition stands :: "'r store \<Rightarrow> nat \<Rightarrow> ((keeper \<times> 'r) \<times> bool \<Rightarrow> bool) \<Rightarrow> pc \<Rightarrow> task list \<Rightarrow> keeper \<times> 'r \<Rightarrow> 'r conc \<Rightarrow> bool" where
  "stands st i ends p ts kr g \<longleftrightarrow> others_done i g \<and> at_thread g i p ts \<and> pc_def_ok p \<and> same_map kr g \<and> outcome st p ts kr \<le> ends"

definition follows :: "'r store \<Rightarrow> nat \<Rightarrow> ((keeper \<times> 'r) \<times> bool \<Rightarrow> bool) \<Rightarrow> 'r conc \<Rightarrow> bool" where
  "follows st i ends g \<longleftrightarrow> (\<exists>p ts kr. stands st i ends p ts kr g)"

lemma stands_here:
  assumes "stands st i ends p ts kr g" and "at_thread g j p' ts'" and "\<not> thread_done \<lparr>th_pc = p', th_todo = ts'\<rparr>"
  shows "j = i \<and> p' = p \<and> ts' = ts"
  using assms by (cases "j = i") (auto simp: stands_def others_done_def at_thread_def)

lemma stands_map:
  assumes "stands st i ends p ts (k, r) g"
  shows "same_map (k, r) g" and "g_store g = r" and "same_map (k, g_store g) g" and "pc_def_ok p"
  using assms by (simp_all add: stands_def same_map_def)

lemma stands_to:
  assumes s: "stands st i ends p ts kr0 g" and "g_threads g' = g_threads g" and "pc_def_ok p'" and "same_map kr g'"
    and o: "outcome st p' ts' kr \<le> outcome st p ts kr0"
  shows "follows st i ends (to_thread i p' ts' g')"
proof -
  have "others_done i (to_thread i p' ts' g')" using assms(1,2) by (auto simp: stands_def others_done_def to_thread_def)
  moreover have "at_thread (to_thread i p' ts' g') i p' ts'" using assms(1,2) by (intro at_to_thread(1)) (auto simp: stands_def)
  moreover have "outcome st p' ts' kr \<le> ends" using o s by (auto simp: stands_def intro: order_trans)
  ultimately have "stands st i ends p' ts' kr (to_thread i p' ts' g')" using assms(3,4) by (simp add: stands_def)
  then show ?thesis unfolding follows_def by blast
qed

text \<open>A task begins, or ends at once.\<close>

lemma idle_follows:
  assumes s: "stands st i ends Idle ts (k, r) g" and step: "conc_step st g g'"
    and len: "length (g_threads g') = length (g_threads g)" and moved: "g_threads g' \<noteq> g_threads g"
  shows "follows st i ends g'"
proof -
  note same = stands_map(1) [OF s] and here = stands_here [OF s] and to = stands_to [OF s]
  show ?thesis
    using step
  proof cases
    case (MountSkip j d fresh us)
    with here [OF MountSkip(2)] show ?thesis
      by (auto simp: thread_done_def le_fun_def skip_is_mount same_map_mounted [OF same] intro!: to [OF _ _ same])
  next
    case (MountBegin j d fresh us)
    with here [OF MountBegin(2)] show ?thesis
      by (auto simp: thread_done_def le_fun_def same_map_mounted [OF same] simp del: outcome.simps(2)
          intro!: to [OF _ _ same] loading_is_mount)
  next
    case (DropNone j name us)
    with here [OF DropNone(2)] same_map_lookup(1) [OF same] show ?thesis
      by (auto simp: thread_done_def le_fun_def keeper_drop_def intro!: to [OF _ _ same] SeqDrop)
  next
    case (DropTake j name us h)
    then have p: "j = i" "ts = DoDrop name # us" using here [OF DropTake(2)] by (auto simp: thread_done_def)
    obtain kr where "same_map kr (g\<lparr>g_sets := fmdrop name (g_sets g)\<rparr>)"
      "outcome st (Stopping None [(h, Some name)]) us kr \<le> outcome st Idle ts (k, r)"
      using take_is_drop [OF same DropTake(3), of st None us] p by (auto simp: le_fun_def)
    then show ?thesis unfolding DropTake(1) p(1) by (intro to) auto
  next
    case (Gone j seen us order)
    with here [OF Gone(2)] same_map_dom [OF same] show ?thesis
      by (auto simp: thread_done_def le_fun_def map_order_def intro!: to [OF _ _ same] SeqGone)
  next
    case (Epoch j name us h)
    with here [OF Epoch(2)] same_map_lookup(2) [OF same Epoch(3)] show ?thesis
      by (auto simp: thread_done_def le_fun_def intro!: to [OF _ _ same] SeqEpoch)
  next
    case (EpochPanics j name us)
    with here [OF EpochPanics(2)] same_map_lookup(1) [OF same] show ?thesis
      by (auto simp: thread_done_def le_fun_def intro!: to [OF _ _ same] SeqPanic)
  qed (use len moved here in \<open>auto simp: thread_done_def\<close>)
qed

text \<open>A call of \<open>mount\<close> or \<open>drop\<close> goes on.\<close>

lemma call_follows:
  assumes s: "stands st i ends p ts (k, r) g" and step: "conc_step st g g'" and busy: "p \<noteq> Idle"
    and len: "length (g_threads g') = length (g_threads g)" and moved: "g_threads g' \<noteq> g_threads g"
  shows "follows st i ends g'"
proof -
  note same = stands_map(1) [OF s] and r = stands_map(2,3) [OF s] and here = stands_here [OF s] and to = stands_to [OF s]
  show ?thesis
    using step
  proof cases
    case (Load j d fresh us out w w' x keep)
    with here [OF Load(2)] mount_set_def_of [of d fresh out w w'] show ?thesis
      by (auto simp: thread_done_def le_fun_def r simp del: split_paired_Ex intro!: to [OF _ _ same]) blast
  next
    case (LoadFails j d fresh us)
    with here [OF LoadFails(2)] show ?thesis by (auto simp: thread_done_def le_fun_def r intro!: to [OF _ _ same])
  next
    case (Reset j d x keep us r')
    with here [OF Reset(2)] stands_map(4) [OF s] r show ?thesis
      by (auto simp: thread_done_def le_fun_def after_load_def intro!: to [where kr = "(k, r')"])
  next
    case (ResetFails j d x keep us r')
    with here [OF ResetFails(2)] r show ?thesis
      by (auto simp: thread_done_def le_fun_def after_load_def intro!: to [where kr = "(k, r')"])
  next
    case (Install j d x us order)
    then have p: "j = i" "p = Installing d x" "ts = us" using here [OF Install(2)] by (auto simp: thread_done_def)
    obtain kr where "same_map kr (install d x (renamed_at g d order) g)"
      "outcome st (Stopping (Some (length (g_heap g))) (replaced g d (renamed_at g d order))) us kr \<le> outcome st p ts (k, r)"
      using install_is_mount [OF same _ Install(3,4), of x d st "Some (length (g_heap g))" us] stands_map(4) [OF s] p
      by (auto simp: le_fun_def)
    then show ?thesis unfolding Install(1) p(1) by (intro to) auto
  next
    case (Wait j n h dr hs us)
    with here [OF Wait(2)] show ?thesis by (cases dr) (auto simp: thread_done_def le_fun_def intro!: to [OF _ _ same])
  next
    case (DropState j n name hs us)
    with here [OF DropState(2)] r show ?thesis
      by (auto simp: thread_done_def le_fun_def intro!: to [where kr = "(k, fst (st_Drop st name r))"])
  next
    case (Close j n h dr hs us)
    with here [OF Close(2)] same show ?thesis by (auto simp: thread_done_def le_fun_def intro!: to [where kr = "(k, r)"])
  next
    case (Go j n us)
    with here [OF Go(2)] same show ?thesis by (auto simp: thread_done_def le_fun_def intro!: to [where kr = "(k, r)"])
  next
    case (DropEnd j us)
    with here [OF DropEnd(2)] show ?thesis by (auto simp: thread_done_def le_fun_def intro!: to [OF _ _ same])
  qed (use len moved busy here in \<open>auto simp: thread_done_def\<close>)
qed

lemma still_step:
  assumes "conc_step st g g'" and "g_threads g' = g_threads g"
  shows "g_sets g' = g_sets g \<and> g_heap g' = g_heap g"
  using assms by cases (auto simp: to_thread_def at_thread_def list_update_same_conv)

lemma follows_step:
  assumes f: "follows st i ends g" and a: "alone_step st g g'"
  shows "follows st i ends g'"
proof -
  obtain p ts k r where s: "stands st i ends p ts (k, r) g" using f by (auto simp: follows_def)
  have step: "conc_step st g g'" and len: "length (g_threads g') = length (g_threads g)"
    and same: "g_threads g' = g_threads g \<Longrightarrow> g_store g' = g_store g"
    using a by (simp_all add: alone_step_def)
  show ?thesis
  proof (cases "g_threads g' = g_threads g")
    case True
    then have "g_sets g' = g_sets g \<and> g_heap g' = g_heap g" by (rule still_step [OF step])
    then have "stands st i ends p ts (k, r) g'"
      using s True same [OF True] by (simp add: stands_def others_done_def at_thread_def same_map_def)
    then show ?thesis unfolding follows_def by blast
  next
    case False
    then show ?thesis using s step len by (cases "p = Idle") (auto intro: idle_follows call_follows)
  qed
qed

interpretation alone: step_invariant "alone_step st" "follows st i ends" for st i ends
  by unfold_locales (rule follows_step)

text \<open>A request that ran alone to its end did what its tasks do in sequence.\<close>

lemma alone_is_sequential:
  assumes at: "at_thread g i Idle ts" and od: "others_done i g" and same: "same_map kr g"
    and run: "(alone_step st)\<^sup>*\<^sup>* g g'" and fin: "thread_done (g_threads g' ! i)"
  shows "\<exists>kr'. seq_run st ts kr (kr', th_pc (g_threads g' ! i) = Panicked) \<and> same_map kr' g'"
proof -
  have "stands st i (seq_run st ts kr) Idle ts kr g" using assms by (simp add: stands_def le_fun_def)
  then have "follows st i (seq_run st ts kr) g" unfolding follows_def by blast
  then have "follows st i (seq_run st ts kr) g'" by (rule alone.reach_keeps [OF run])
  then obtain p us kr' where s: "stands st i (seq_run st ts kr) p us kr' g'" unfolding follows_def by blast
  then have p: "g_threads g' ! i = \<lparr>th_pc = p, th_todo = us\<rparr>" by (simp add: stands_def at_thread_def)
  then have "outcome st p us kr' (kr', p = Panicked)" using fin by (auto simp: thread_done_def intro: SeqEnd)
  then have "seq_run st ts kr (kr', p = Panicked)" using s by (cases kr') (auto simp: stands_def le_fun_def)
  then show ?thesis using s p by (intro exI [of _ kr']) (simp add: stands_def)
qed

text \<open>\<open>Define\<close> of a definition that is found under the name it was asked for, as the query of \<open>LoadDefinition\<close> has it.\<close>

lemma mount_finds:
  assumes "mount st d True w ord kr = (kr', True)" and "reads_map ord"
  shows "fmlookup (k_sets (fst kr')) (d_Name d) \<noteq> None"
proof -
  obtain k r k' r' where "kr = (k, r)" "kr' = (k', r')" by fastforce
  then show ?thesis using mount_sets [of st d True w ord k r k' r'] assms replaces_self by fastforce
qed

lemma define_in_sequence:
  assumes "seq_run st (define_tasks found name) kr (kr', panic)" and "\<forall>d. found = Some d \<longrightarrow> d_Name d = name"
  shows "\<not> panic \<and> (\<exists>w ord. reads_map ord \<and> kr' = fst (keeper_Define st (Some found) name w ord kr))"
proof (cases "\<exists>d. found = Some d \<and> d_Active d")
  case False
  then have "seq_run st [DoDrop name] kr (kr', panic)" using assms(1) by (auto simp: define_tasks_def split: option.splits)
  moreover obtain ord where "reads_map ord" by (rule reads_map_at [of fmempty "[]"]) (simp_all add: map_order_def)
  ultimately show ?thesis using False
    by (auto elim!: seq_run_drop simp: keeper_Define_def split: option.splits)
next
  case True
  then obtain d where d: "found = Some d" "d_Active d" "d_Name d = name" using assms(2) by blast
  from assms(1) d obtain w ord kr1 ok where m: "mount st d True w ord kr = (kr1, ok)" "reads_map ord"
    and rest: "seq_run st (if ok then [DoEpoch name] else []) kr1 (kr', panic)"
    by (auto simp: define_tasks_def elim: seq_run_mount)
  have "kr' = kr1 \<and> \<not> panic" using rest m mount_finds [of st d w ord kr kr1] d(3) by (cases ok) (auto elim!: seq_run_epoch)
  then show ?thesis using m d by (intro conjI exI [of _ w] exI [of _ ord]) (auto simp: keeper_Define_def)
qed

text \<open>
  A \<open>Define\<close> that meets no other request returns: it never finds its set missing, and it leaves the map and the store that the
  sequential \<open>keeper_Define\<close> leaves, for some choice of random bytes and of the order in which the map is read.
\<close>

theorem Define_alone:
  assumes "at_thread g i Idle (define_tasks found name)" and "others_done i g" and "same_map kr g"
    and "\<forall>d. found = Some d \<longrightarrow> d_Name d = name"
    and "(alone_step st)\<^sup>*\<^sup>* g g'" and "thread_done (g_threads g' ! i)"
  shows "th_pc (g_threads g' ! i) = Idle
    \<and> (\<exists>w ord. reads_map ord \<and> same_map (fst (keeper_Define st (Some found) name w ord kr)) g')"
proof -
  obtain kr' where run: "seq_run st (define_tasks found name) kr (kr', th_pc (g_threads g' ! i) = Panicked)" and same: "same_map kr' g'"
    using alone_is_sequential [OF assms(1-3,5,6)] by blast
  note d = define_in_sequence [OF run assms(4)]
  then have "th_pc (g_threads g' ! i) = Idle" using assms(6) by (auto simp: thread_done_def)
  then show ?thesis using d same by auto
qed

text \<open>A run of one \<open>Define\<close> on an empty keeper.\<close>

lemma alone_demo:
  assumes "conc_step demo_store (demo_conc m hp c st rn [t]) (demo_conc m' hp' c' st' rn' [t'])"
  shows "alone_step demo_store (demo_conc m hp c st rn [t]) (demo_conc m' hp' c' st' rn' [t'])"
  using assms by (simp add: alone_step_def demo_conc_def)

lemma demo_alone:
  "\<exists>s. (alone_step demo_store)\<^sup>*\<^sup>* (demo_conc fmempty [] [] [] {} [thread_at Idle (define_tasks (Some demo_D) ''blocked'')])
     (demo_conc (fmupd ''blocked'' 0 fmempty) [demo_cell s] [] [0] {0} [thread_at Idle []])"
proof -
  let ?E = "[DoEpoch ''blocked'']" and ?m = "fmupd ''blocked'' 0 fmempty"
  let ?A = "\<lambda>p. demo_conc fmempty [] [] [] {} [thread_at p ?E]"
  obtain s keep where s: "mount_set demo_D True (None, [], False) undefined undefined = (s, keep)" by fastforce
  let ?B = "\<lambda>st rn p ts. demo_conc ?m [demo_cell s] [] st rn [thread_at p ts]"
  let ?step = "alone_step demo_store"
  have b: "?step (demo_conc fmempty [] [] [] {} [thread_at Idle (define_tasks (Some demo_D) ''blocked'')]) (?A (Loading demo_D True))"
    using MountBegin [of "demo_conc fmempty [] [] [] {} [thread_at Idle (define_tasks (Some demo_D) ''blocked'')]" 0 demo_D True ?E demo_store]
    by (intro alone_demo) (simp add: demo_conc_defs demo_define)
  have l: "?step (?A (Loading demo_D True)) (?A (Resetting demo_D s keep))"
    using Load [of "?A (Loading demo_D True)" 0 demo_D True ?E demo_store "(None, [], False)", OF _ _ s]
    by (intro alone_demo) (simp add: demo_conc_defs demo_store_def)
  have r: "?step (?A (Resetting demo_D s keep)) (?A (Installing demo_D s))"
    using Reset [of "?A (Resetting demo_D s keep)" 0 demo_D s keep ?E demo_store "[]"]
    by (intro alone_demo) (simp add: demo_conc_defs demo_store_def)
  have n: "?step (?A (Installing demo_D s)) (?B [] {} (Stopping (Some 0) []) ?E)"
    using Install [of "?A (Installing demo_D s)" 0 demo_D s ?E "[]" demo_store]
    by (intro alone_demo) (simp add: demo_conc_defs)
  have g: "?step (?B [] {} (Stopping (Some 0) []) ?E) (?B [0] {0} Idle ?E)"
    using Go [of "?B [] {} (Stopping (Some 0) []) ?E" 0 0 ?E demo_store] by (intro alone_demo) (simp add: demo_conc_defs)
  have e: "?step (?B [0] {0} Idle ?E) (?B [0] {0} Idle [])"
    using Epoch [of "?B [0] {0} Idle ?E" 0 "''blocked''" "[]" 0 demo_store] by (intro alone_demo) (simp add: demo_conc_defs)
  show ?thesis using b l r n g e by (intro exI [of _ s]) (meson converse_rtranclp_into_rtranclp rtranclp.rtrancl_refl)
qed

theorem Define_alone_witness:
  "\<exists>g' w ord. reads_map ord \<and> g_sets g' = fmupd ''blocked'' 0 fmempty
     \<and> same_map (fst (keeper_Define demo_store (Some (Some demo_D)) ''blocked'' w ord (keeper_New demo_opts, []))) g'"
proof -
  let ?g = "demo_conc fmempty [] [] [] {} [thread_at Idle (define_tasks (Some demo_D) ''blocked'')]"
  obtain s where run: "(alone_step demo_store)\<^sup>*\<^sup>* ?g
    (demo_conc (fmupd ''blocked'' 0 fmempty) [demo_cell s] [] [0] {0} [thread_at Idle []])"
    using demo_alone by blast
  let ?g' = "demo_conc (fmupd ''blocked'' 0 fmempty) [demo_cell s] [] [0] {0} [thread_at Idle []]"
  have "at_thread ?g 0 Idle (define_tasks (Some demo_D) ''blocked'')" "others_done 0 ?g" "same_map (keeper_New demo_opts, []) ?g"
    by (simp_all add: demo_conc_def at_thread_def others_done_def same_map_def keeper_New_def)
  from Define_alone [OF this _ run] obtain w ord where
    "reads_map ord" "same_map (fst (keeper_Define demo_store (Some (Some demo_D)) ''blocked'' w ord (keeper_New demo_opts, []))) ?g'"
    by (auto simp: demo_conc_def thread_done_def)
  then show ?thesis by (intro exI [of _ ?g'] exI [of _ w] exI [of _ ord]) (simp add: demo_conc_def)
qed

end
