(* ===== verification/Spec2Isabelle.thy ===== *)
theory Spec2Isabelle
  imports Corners BusText MapSeq
begin

text \<open>
  Verification of the Placitum keeper (\<open>src/\<close>), the service that owns the sets of a web application
  firewall: it takes writes for named sets of addresses, numbers and strings from a message bus, keeps the
  sets in memory, commits every batch of changes to Redis and publishes it, so that mirrors elsewhere can
  follow the sets package by package and check them against a hash.

  \<^bold>\<open>The parts and how they work together.\<close> A \<open>Keeper\<close> (\<open>internal/keeper/keeper.go\<close>) has a map of holders, one per
  set. \<open>Submit\<close> turns an event into a job in the holder's queue. The holder's planner gathers jobs into a
  batch, decides each job against the limit of the set, and plans the accepted ones with \<open>Set.Plan\<close>; its
  committer takes the planned batches in order, writes each to Redis (\<open>internal/state/state.go\<close>), commits
  it in memory with \<open>Set.Commit\<close>, publishes a diff frame and answers the jobs. A failed write aborts every
  plan in flight. A sweep turns expired values into removals. The set itself (\<open>internal/set/set.go\<close>) keeps the
  committed entries, the plans in flight on top of them, their hashes and the queue of expiries. Packages
  and snapshots are binary objects (\<open>internal/wire/pack.go\<close>). Definitions of sets come from PostgreSQL
  (\<open>internal/store/pg.go\<close>), messages from NATS (\<open>internal/bus/bus.go\<close>).

  \<^bold>\<open>Theories and sources.\<close>

  \<^item> \<open>Prelude\<close>: integers kept at 64 bits, little-endian bytes, sums by exclusive or over finite maps, and the
    locales \<open>step_invariant\<close> and \<open>step_invariant_under\<close> for invariants of step relations.
  \<^item> \<open>GoText\<close>, \<open>NetIP\<close>, \<open>MD5\<close>: the parts of \<open>strings\<close>, \<open>strconv\<close>, \<open>encoding/hex\<close>, \<open>net/netip\<close> and \<open>crypto/md5\<close> the
    code calls, with the round trips of the printers and parsers.
  \<^item> \<open>SipHash\<close> (\<open>set/siphash.go\<close>): the streaming loop, equal to the definition of SipHash-2-4 in its paper, stated on its own.
  \<^item> \<open>Canon\<close> (\<open>set/canon.go\<close>, \<open>set/material.go\<close>): canonical values and the bytes they give to the hash. \<open>NetRound\<close>, \<open>CanonProps\<close>:
    printed addresses and prefixes parse back, canonical values are fixed points, and values that are not prefixes of
    IPv4-mapped addresses are determined by their bytes.
  \<^item> \<open>ExpHeap\<close>, \<open>SetState\<close>, \<open>SetInv\<close>, \<open>SetExpiry\<close>, \<open>PlanSpec\<close> (\<open>set/set.go\<close>): the record \<open>sset\<close> with every operation of \<open>Set\<close>; the
    heap of \<open>container/heap\<close> as a priority queue; the invariant \<open>inflight s ps\<close>, which says that the set has
    planned exactly \<open>ps\<close>, kept by every operation; the sweep; and the plan as the requests applied in order to a map
    from values to expiry, origin and reason.
  \<^item> \<open>Pack\<close>, \<open>Wire\<close> (\<open>wire/pack.go\<close>, \<open>wire/wire.go\<close>): the package format byte for byte with its decoder, messages, codes and base64.
  \<^item> \<open>Json\<close>, \<open>JsonRound\<close>, \<open>Message\<close> (\<open>wire/wire.go\<close>): the parts of \<open>encoding/json\<close> and \<open>unicode/utf8\<close> the messages go through, the
    reader as the inverse of the printer, and every message as the text its struct tags give.
  \<^item> \<open>RedisState\<close>, \<open>RedisProps\<close> (\<open>state/state.go\<close>): the commands sent to Redis and the answers read, with the service as the
    argument \<open>redis_api\<close> and its documented behaviour as \<open>redis_ok\<close>; the locale \<open>durable_store\<close> is what the keeper
    relies on, interpreted on the Redis store.
  \<^item> \<open>Keeper\<close>, \<open>KeeperPlan\<close> (\<open>keeper/keeper.go\<close>): every operation on one holder, its answers and frames as output
    lists; gathering and deciding.
  \<^item> \<open>Pipeline\<close>, \<open>PipelineLog\<close>, \<open>PipelineAns\<close>, \<open>PipelineView\<close>, \<open>PipelineType\<close>, \<open>PipelineProps\<close>: the planner and the committer of a holder as the step
    relation \<open>pipe_step\<close>, interleaved at every access to the set and with clients, ticks and snapshots; its
    invariant; the log of committed batches against the published frames; the answers; the locales \<open>fed_requests\<close>,
    \<open>planned_property\<close> and \<open>planned_deltas\<close> for properties of requests, contents and changes that \<open>Submit\<close> and every plan
    keep, interpreted for the limit and for the types of the values with their hashes.
  \<^item> \<open>KeeperSets\<close>, \<open>MountProps\<close>, \<open>StoreProps\<close>, \<open>KeeperProps\<close>: the map of sets with \<open>Start\<close>, \<open>mount\<close>, \<open>Define\<close>, \<open>Reload\<close> and \<open>drop\<close>; what is
    mounted and what is stored after each; the requests of clients.
  \<^item> \<open>Replace\<close>: \<open>mount\<close> of a running set and \<open>shutdown\<close> as the step relation \<open>swap_step\<close>, interleaved with every step of the old
    holder.
  \<^item> \<open>MapOps\<close>, \<open>MapRaces\<close>: \<open>Start\<close>, \<open>Define\<close> and \<open>Reload\<close> as threads of the step relation \<open>conc_step\<close>, interleaved at the lock of the
    map, at the store and at the holders they stop; who owns the end of each holder; and the races.
  \<^item> \<open>MapSeq\<close>: a request that meets no other is the sequential function of \<open>KeeperSets\<close>; the thread is followed by what is still
    to come where it stands.
  \<^item> \<open>Mirror\<close>: a receiver of the packages, as their specification.
  \<^item> \<open>Config\<close>, \<open>Service\<close>, \<open>ServiceProps\<close>: \<open>nginxtime\<close>, \<open>config\<close> with \<open>time.ParseDuration\<close>, \<open>store/pg.go\<close>, \<open>bus\<close>, \<open>pulse\<close>, \<open>httpapi\<close> and \<open>cmd/keeper\<close>, with
    requests, replies and bodies as bytes.
  \<^item> \<open>BusText\<close>: requests, frames and answers from bytes to bytes.
  \<^item> \<open>Corners\<close>: concrete inputs on which the code does not do what its checks or its documentation mean.

  \<^bold>\<open>What the theorems show.\<close> In every reachable state of a holder the batches on their way are exactly the plans
  in flight and the committed hash is that of the content (\<open>pipeline_consistent\<close>); the published frames are the
  committed batches (\<open>published_diffs_replay\<close>) and a mirror that starts from a snapshot (\<open>snapshot_starts_mirror\<close>) and follows them has
  the content (\<open>mirror_converges\<close>);
  Redis follows the holder (\<open>store_follows_holder\<close>) and a restart resumes it (\<open>restart_resumes\<close>), for records that
  survive storage (\<open>storable\<close>); every value is canonical for the type of its set (\<open>values_stay_typed\<close>). A write is
  accepted in full or refused in full while no commit fails in between (\<open>batch_all_or_nothing\<close>), a positive
  answer carries a sequence number that was committed (\<open>acknowledged_is_committed\<close>; that its records were written is
  another matter, see \<open>aborted_batch_is_acknowledged\<close>), no reply channel is answered twice,
  the committer never meets a nil change and the limit is never exceeded. Mounting a set without a holder brings definition and stored state together (\<open>mount_settles_store\<close>,
  \<open>sets_stay_unique\<close>, \<open>Reload_exact\<close>); the old holder of a replaced set can always end
  (\<open>shutdown_completes\<close>), and its values are kept when it commits nothing meanwhile and the new
  definition has its identifier and type (\<open>replace_keeps_content\<close>; \<open>Corners\<close> has a run in which an
  acknowledged write is lost). However requests on the map meet, no stop channel is closed twice (\<open>stop_closed_once\<close>), every request can end (\<open>requests_can_end\<close>), and in a keeper with no request under way
  the holders of the map run and every other was told to stop (\<open>quiet_keeper_runs_its_sets\<close>); \<open>MapRaces\<close> has the runs in which two of them hurt each other
  (\<open>Define_can_panic\<close>, \<open>replaced_holder_can_start\<close>, \<open>Reload_drops_new_set\<close>), and
  a \<open>Define\<close> that meets no other is \<open>keeper_Define\<close> and does not panic (\<open>Define_alone\<close>).
  Every message decodes to itself (\<open>Encode_roundtrip\<close>), so do
  the published frames (\<open>published_bytes_decode\<close>), and an event given to the bus as bytes is answered as \<open>Submit\<close>
  answers it (\<open>event_over_the_wire\<close>); the HTTP answers are those of \<open>http_answers\<close>. The remaining properties are those of the single
  components: plan and commit, sweep, package format, hash, requests, configuration, bus, pulse and start.

  \<^bold>\<open>Bounds.\<close> Every loop is a total function: recursion on lists, or a measure (queue and window of \<open>gather\<close>,
  the values of a sweep, the remaining attempts of a wait, the rest of a text). No fuel is used. Integers are
  words where the code has unsigned ones, and \<open>int\<close> with \<open>wrap64\<close> where signed arithmetic can leave 64 bits; the
  counters of \<open>Stats\<close> and the times are plain integers. \<open>depth_ok\<close> asks that the depth of the pipeline fits 64
  bits, which a loaded configuration guarantees (\<open>config_Load_sound\<close>).

  \<^bold>\<open>Arguments of the model.\<close> Redis, PostgreSQL, NATS, the environment, the clock, random bytes, the order in
  which Go reads a map and the outcome of a \<open>select\<close> are arguments; the frame of the shared pulse
  library is a function given as an argument.

  \<^bold>\<open>Not modelled.\<close> Logging, the NATS, Redis and PostgreSQL clients beyond the calls made of them, the HTTP server and
  signals. In \<open>KeeperSets\<close> an operation on the map of sets runs to its end before the next, as a lone request does
  (\<open>MapSeq\<close>); their interleaving is that of \<open>MapOps\<close>, where a holder is its definition and its epoch, and \<open>Replace\<close> follows the content of the old holder of one
  set through \<open>mount\<close>. \<open>Submit\<close> checks the number of queued records, adds to it and sends in one step. The content of several holders under interleaved map operations is not followed.
\<close>

end
